(* ===== verification/DPS_Prelude.thy ===== *)
theory DPS_Prelude
  imports Main "HOL-Library.Word"
begin

text \<open>
  Shared ground of the development: the machine types of the C sources, the status codes of
  \<^verbatim>\<open>inc/dps/err.h\<close>, sequencing of fallible operations on a state, and generic
  lemmas about lists and machine words.

  A C function that returns a \<open>DPS_Status\<close> and fills an output parameter is modelled by
  a function into \<open>'a res\<close>: \<open>Inl e\<close> is the return of the error status \<open>e\<close>,
  \<open>Inr x\<close> is the return of \<open>DPS_OK\<close> with \<open>x\<close> in the output parameter. Functions
  that also move a buffer return the buffer next to the result, because many of them move the
  buffer on error paths too.
\<close>

unbundle bit_operations_syntax

section \<open>Machine types\<close>

type_synonym u8 = "8 word"
type_synonym u16 = "16 word"
type_synonym u32 = "32 word"
type_synonym u64 = "64 word"

text \<open>\<open>size_t\<close> has 64 bits on the platforms the sources are built for.\<close>

definition SIZE_MAX :: nat where
  "SIZE_MAX = 2 ^ 64 - 1"

section \<open>Status codes (inc/dps/err.h)\<close>

datatype DPS_Status =
    DPS_OK | DPS_ERR_FAILURE | DPS_ERR_NULL | DPS_ERR_ARGS | DPS_ERR_RESOURCES
  | DPS_ERR_READ | DPS_ERR_WRITE | DPS_ERR_TIMEOUT | DPS_ERR_EOD | DPS_ERR_OVERFLOW
  | DPS_ERR_NETWORK | DPS_ERR_INVALID | DPS_ERR_BUSY | DPS_ERR_EXISTS | DPS_ERR_MISSING
  | DPS_ERR_STALE | DPS_ERR_NO_ROUTE | DPS_ERR_NOT_STARTED | DPS_ERR_NOT_INITIALIZED
  | DPS_ERR_EXPIRED | DPS_ERR_UNRESOLVED | DPS_ERR_NODE_DESTROYED | DPS_ERR_EOF
  | DPS_ERR_NOT_IMPLEMENTED | DPS_ERR_SECURITY | DPS_ERR_NOT_ENCRYPTED | DPS_ERR_STOPPING
  | DPS_ERR_RANGE | DPS_ERR_LOST_PRECISION | DPS_ERR_NOT_COSE | DPS_ERR_NONCE_OVERFLOW

type_synonym 'a res = "DPS_Status + 'a"

section \<open>Sequencing\<close>

text \<open>
  \<open>and_then m f\<close> is the C idiom
  \<^verbatim>\<open>ret = m; if (ret == DPS_OK) { ret = f(...); } return ret;\<close> for operations with an
  output parameter; \<open>ok_then\<close> is the same idiom for operations without one.
\<close>

definition and_then :: "'a res \<times> 's \<Rightarrow> ('a \<Rightarrow> 's \<Rightarrow> 'b res \<times> 's) \<Rightarrow> 'b res \<times> 's" where
  "and_then m f = (case m of (Inl e, s) \<Rightarrow> (Inl e, s) | (Inr x, s) \<Rightarrow> f x s)"

definition ok_then :: "DPS_Status \<times> 's \<Rightarrow> ('s \<Rightarrow> DPS_Status \<times> 's) \<Rightarrow> DPS_Status \<times> 's" where
  "ok_then m f = (case m of (r, s) \<Rightarrow> if r = DPS_OK then f s else (r, s))"

lemma and_then_simps [simp]:
  "and_then (Inl e, s) f = (Inl e, s)"
  "and_then (Inr x, s) f = f x s"
  by (simp_all add: and_then_def)

lemma ok_then_simps [simp]:
  "ok_then (DPS_OK, s) f = f s"
  "r \<noteq> DPS_OK \<Longrightarrow> ok_then (r, s) f = (r, s)"
  by (simp_all add: ok_then_def)

lemma and_then_Inr_iff:
  "and_then m f = (Inr y, t) \<longleftrightarrow> (\<exists>x s. m = (Inr x, s) \<and> f x s = (Inr y, t))"
  by (auto simp: and_then_def split: prod.splits sum.splits)

lemma ok_then_OK_iff:
  "ok_then m f = (DPS_OK, t) \<longleftrightarrow> (\<exists>s. m = (DPS_OK, s) \<and> f s = (DPS_OK, t))"
  by (auto simp: ok_then_def split: prod.splits)

lemma and_then_state_inv:
  assumes "\<And>r s. m = (r, s) \<Longrightarrow> P s"
    and "\<And>x s. m = (Inr x, s) \<Longrightarrow> P s \<Longrightarrow> P (snd (f x s))"
  shows "P (snd (and_then m f))"
  using assms by (auto simp: and_then_def split: prod.splits sum.splits)

section \<open>Lists\<close>

text \<open>The memory written by a run of stores: \<open>bs\<close> placed at offset \<open>i\<close> of \<open>mem\<close>.\<close>

definition overwrite :: "nat \<Rightarrow> 'a list \<Rightarrow> 'a list \<Rightarrow> 'a list" where
  "overwrite i bs mem = take i mem @ bs @ drop (i + length bs) mem"

lemma length_overwrite [simp]:
  "i + length bs \<le> length mem \<Longrightarrow> length (overwrite i bs mem) = length mem"
  by (simp add: overwrite_def)

lemma take_overwrite_same [simp]:
  "i \<le> length mem \<Longrightarrow> take (i + length bs) (overwrite i bs mem) = take i mem @ bs"
  by (simp add: overwrite_def)

lemma take_overwrite_before:
  "j \<le> i \<Longrightarrow> i \<le> length mem \<Longrightarrow> take j (overwrite i bs mem) = take j mem"
  by (simp add: overwrite_def min_absorb1)

lemma drop_overwrite_after:
  "i + length bs \<le> j \<Longrightarrow> i \<le> length mem \<Longrightarrow> drop j (overwrite i bs mem) = drop j mem"
  by (simp add: overwrite_def)

lemma overwrite_Nil [simp]: "overwrite i [] mem = mem"
  by (simp add: overwrite_def)

lemma overwrite_overwrite:
  "i \<le> length mem \<Longrightarrow> i + length as + length bs \<le> length mem \<Longrightarrow>
   overwrite (i + length as) bs (overwrite i as mem) = overwrite i (as @ bs) mem"
  by (simp add: overwrite_def ac_simps)

lemma drop_eq_append_nth:
  "drop i xs = ys @ zs \<Longrightarrow> k < length ys \<Longrightarrow> xs ! (i + k) = ys ! k"
proof -
  assume a: "drop i xs = ys @ zs" and k: "k < length ys"
  then have "i \<le> length xs" by (cases "i \<le> length xs") auto
  then have "xs ! (i + k) = drop i xs ! k" by simp
  also have "\<dots> = ys ! k" using a k by (simp add: nth_append)
  finally show ?thesis .
qed

lemma append_prefixD:
  "xs @ ys = us @ vs \<Longrightarrow> length us \<le> length xs \<Longrightarrow> \<exists>t. xs = us @ t \<and> t @ ys = vs"
  by (auto simp: append_eq_append_conv2)

section \<open>Machine words\<close>

lemma word_take_bit_eq_self_iff:
  fixes w :: "'a::len word"
  shows "take_bit n w = w \<longleftrightarrow> unat w < 2 ^ n"
proof -
  have "take_bit n w = w \<longleftrightarrow> unat (take_bit n w) = unat w"
    by (rule word_unat_eq_iff)
  also have "\<dots> \<longleftrightarrow> take_bit n (unat w) = unat w"
    by (simp add: unsigned_take_bit_eq)
  also have "\<dots> \<longleftrightarrow> unat w < 2 ^ n"
    by (simp add: take_bit_nat_eq_self_iff)
  finally show ?thesis .
qed

lemma word_bit_bounded:
  fixes w :: "'a::len word"
  shows "unat w < 2 ^ n \<Longrightarrow> bit w k \<Longrightarrow> k < n"
  by (metis word_take_bit_eq_self_iff bit_take_bit_iff)

lemma word_nat_less_iff:
  fixes w :: "'a::len word"
  shows "n < 2 ^ LENGTH('a) \<Longrightarrow> w < word_of_nat n \<longleftrightarrow> unat w < n"
  by (simp add: word_less_nat_alt unsigned_of_nat take_bit_nat_eq_self)

lemma bit_word_of_nat:
  "i < LENGTH('a) \<Longrightarrow> bit (word_of_nat m :: 'a::len word) i = bit m i"
proof -
  assume i: "i < LENGTH('a)"
  have "bit (word_of_nat m :: 'a word) i = bit (unat (word_of_nat m :: 'a word)) i"
    by (simp add: bit_unsigned_iff)
  then show ?thesis using i by (simp only: unsigned_of_nat) (simp add: bit_take_bit_iff)
qed

end
