(* ===== verification/Link_Queue.thy ===== *)
theory Link_Queue
  imports DPS_Prelude
begin

text \<open>
  The intrusive queues of \<^verbatim>\<open>src/queue.c\<close>: a queue is a ring of doubly linked cells, one of
  which, the head, belongs to the owner of the queue. The cells live in an explicit store, so that
  the order of the four assignments of \<open>DPS_QueuePushBack\<close> and the aliasing between the head and the
  last cell are part of the model. The relation \<open>ring\<close> connects a store with the list of items in a
  queue; the locale \<open>linked_fifo\<close> is what the users of the queues rely on.
\<close>

section \<open>Cells and operations (src/queue.c, src/queue.h)\<close>

type_synonym cell = nat

record DPS_Queue =
  prev :: cell
  nxt :: cell

type_synonym store = "cell \<Rightarrow> DPS_Queue"

definition set_prev :: "cell \<Rightarrow> cell \<Rightarrow> store \<Rightarrow> store" where
  "set_prev p v s = s(p := (s p)\<lparr>prev := v\<rparr>)"

definition set_next :: "cell \<Rightarrow> cell \<Rightarrow> store \<Rightarrow> store" where
  "set_next p v s = s(p := (s p)\<lparr>nxt := v\<rparr>)"

definition DPS_QueueInit :: "cell \<Rightarrow> store \<Rightarrow> store" where
  "DPS_QueueInit queue s = (let s = set_prev queue queue s in set_next queue queue s)"

definition DPS_QueueEmpty :: "cell \<Rightarrow> store \<Rightarrow> bool" where
  "DPS_QueueEmpty queue s \<longleftrightarrow> queue = nxt (s queue)"

definition DPS_QueueFront :: "cell \<Rightarrow> store \<Rightarrow> cell" where
  "DPS_QueueFront queue s = nxt (s queue)"

definition DPS_QueueBack :: "cell \<Rightarrow> store \<Rightarrow> cell" where
  "DPS_QueueBack queue s = prev (s queue)"

definition DPS_QueuePushBack :: "cell \<Rightarrow> cell \<Rightarrow> store \<Rightarrow> store" where
  "DPS_QueuePushBack queue item s =
     (let s = set_next item queue s;
          s = set_prev item (prev (s queue)) s;
          s = set_next (prev (s item)) item s
      in set_prev queue item s)"

definition DPS_QueueRemove :: "cell \<Rightarrow> store \<Rightarrow> store" where
  "DPS_QueueRemove item s =
     (let s = set_next (prev (s item)) (nxt (s item)) s
      in set_prev (nxt (s item)) (prev (s item)) s)"

text \<open>
  The loop with which a queue is emptied, e.g. the acknowledgements in \<open>SendAcksTask\<close>: the items
  are handled in the order of the result. On a store that is not a ring the loop may not end.
\<close>

partial_function (option) drain :: "cell \<Rightarrow> store \<Rightarrow> (cell list \<times> store) option" where
  "drain queue s =
     (if DPS_QueueEmpty queue s then Some ([], s)
      else
        (let item = DPS_QueueFront queue s;
             s = DPS_QueueRemove item s
         in Option.bind (drain queue s) (\<lambda>(items, s). Some (item # items, s))))"

text \<open>A retained publication is sent again: its request moves from the front of one queue to the
  back of another (\<open>DPS_SendPubs\<close>'s caller in \<^verbatim>\<open>src/dps.c\<close>).\<close>

definition requeue :: "cell \<Rightarrow> cell \<Rightarrow> store \<Rightarrow> store" where
  "requeue retainedQueue sendQueue s =
     (let req = DPS_QueueFront retainedQueue s
      in DPS_QueuePushBack sendQueue req (DPS_QueueRemove req s))"

section \<open>Rings\<close>

fun linked :: "store \<Rightarrow> cell list \<Rightarrow> bool" where
  "linked s (a # b # r) \<longleftrightarrow> nxt (s a) = b \<and> prev (s b) = a \<and> linked s (b # r)"
| "linked s _ \<longleftrightarrow> True"

definition ring :: "store \<Rightarrow> cell \<Rightarrow> cell list \<Rightarrow> bool" where
  "ring s q items \<longleftrightarrow> distinct (q # items) \<and> linked s (q # items @ [q])"

lemma linked_append:
  "linked s (xs @ a # ys) \<longleftrightarrow> linked s (xs @ [a]) \<and> linked s (a # ys)"
  by (induction s xs rule: linked.induct) auto

lemma linked_cong:
  assumes "linked s xs"
    and "\<And>a. a \<in> set (butlast xs) \<Longrightarrow> nxt (t a) = nxt (s a)"
    and "\<And>a. a \<in> set (tl xs) \<Longrightarrow> prev (t a) = prev (s a)"
  shows "linked t xs"
  using assms
proof (induction s xs rule: linked.induct)
  case (1 s a b r)
  have "linked t (b # r)"
    by (rule "1.IH") (use "1.prems" in \<open>auto dest: list.set_sel(2)\<close>)
  then show ?case using "1.prems" by auto
qed auto

lemma links_set [simp]:
  "prev (set_prev p v s a) = (if a = p then v else prev (s a))"
  "nxt (set_prev p v s a) = nxt (s a)"
  "nxt (set_next p v s a) = (if a = p then v else nxt (s a))"
  "prev (set_next p v s a) = prev (s a)"
  by (simp_all add: set_prev_def set_next_def)

lemma links_push:
  "prev (DPS_QueuePushBack q i s a) = (if a = q then i else if a = i then prev (s q) else prev (s a))"
  "nxt (DPS_QueuePushBack q i s a) =
     (if a = prev (s q) then i else if a = i then q else nxt (s a))"
  by (simp_all add: DPS_QueuePushBack_def Let_def)

lemma links_remove:
  "nxt (DPS_QueueRemove i s a) = (if a = prev (s i) then nxt (s i) else nxt (s a))"
  "i \<noteq> prev (s i) \<Longrightarrow> prev (DPS_QueueRemove i s a) = (if a = nxt (s i) then prev (s i) else prev (s a))"
  by (simp_all add: DPS_QueueRemove_def Let_def)

lemma ring_init: "ring (DPS_QueueInit q s) q []"
  by (simp add: ring_def DPS_QueueInit_def Let_def)

lemma ring_empty: "ring s q xs \<Longrightarrow> DPS_QueueEmpty q s \<longleftrightarrow> xs = []"
  by (cases xs) (auto simp: ring_def DPS_QueueEmpty_def)

lemma ring_front: "ring s q (x # xs) \<Longrightarrow> DPS_QueueFront q s = x"
  by (auto simp: ring_def DPS_QueueFront_def)

lemma ring_back: "ring s q xs \<Longrightarrow> prev (s q) = last (q # xs)"
proof -
  assume "ring s q xs"
  moreover have "q # xs @ [q] = butlast (q # xs) @ last (q # xs) # [q]"
    by (metis append_Cons append_butlast_last_id append_assoc list.distinct(1) append_Nil)
  ultimately show ?thesis using linked_append[of s "butlast (q # xs)" "last (q # xs)" "[q]"]
    unfolding ring_def by (metis linked.simps(1))
qed

lemma ring_push:
  assumes r: "ring s q xs" and i: "i \<notin> set (q # xs)"
  shows "ring (DPS_QueuePushBack q i s) q (xs @ [i])"
proof -
  let ?t = "DPS_QueuePushBack q i s" and ?l = "last (q # xs)"
  have e: "q # xs = butlast (q # xs) @ [?l]" by (metis append_butlast_last_id list.distinct(1))
  have l: "?l \<in> set (q # xs)" by (rule last_in_set) simp
  have d: "distinct (q # xs)" and ln: "linked s (q # xs @ [q])" using r by (auto simp: ring_def)
  have "linked s (butlast (q # xs) @ ?l # [q])" using ln e by (metis append_Cons append_assoc append_Nil)
  then have "linked s (butlast (q # xs) @ [?l])" by (subst (asm) linked_append) simp
  then have "linked s (q # xs)" using e by metis
  then have "linked ?t (q # xs)"
  proof (rule linked_cong)
    fix a assume a: "a \<in> set (butlast (q # xs))"
    then have "a \<noteq> ?l" using d by (metis distinct_butlast e distinct_append disjoint_iff list.set_intros(1))
    then show "nxt (?t a) = nxt (s a)" using a i in_set_butlastD[OF a] unfolding links_push ring_back[OF r] by auto
  next
    fix a assume "a \<in> set (tl (q # xs))"
    then show "prev (?t a) = prev (s a)" using d i unfolding links_push by auto
  qed
  then have "linked ?t (butlast (q # xs) @ [?l])" using e by metis
  moreover have "linked ?t [?l, i, q]" using l i by (auto simp: links_push ring_back[OF r] simp del: last.simps)
  ultimately have "linked ?t (butlast (q # xs) @ ?l # [i, q])" by (subst linked_append) simp
  then have "linked ?t (q # (xs @ [i]) @ [q])" using e by (metis append_Cons append_assoc append_Nil)
  then show ?thesis using d i by (auto simp: ring_def)
qed

lemma ring_split:
  assumes "ring s q (xs @ i # ys)"
  shows "prev (s i) = last (q # xs)" "nxt (s i) = hd (ys @ [q])"
    "linked s (q # xs)" "linked s (ys @ [q])" "distinct (q # xs @ i # ys)"
proof -
  have ln: "linked s ((q # xs) @ i # (ys @ [q]))" and d: "distinct (q # xs @ i # ys)"
    using assms by (simp_all add: ring_def)
  have e: "q # xs = butlast (q # xs) @ [last (q # xs)]" by (metis append_butlast_last_id list.distinct(1))
  have a: "linked s ((q # xs) @ [i])" and b: "linked s (i # ys @ [q])" using iffD1[OF linked_append ln] by auto
  have "linked s (butlast (q # xs) @ last (q # xs) # [i])" using a e by (metis append_Cons append_assoc append_Nil)
  then have c: "linked s (butlast (q # xs) @ [last (q # xs)])" "linked s [last (q # xs), i]"
    using linked_append[of s "butlast (q # xs)" "last (q # xs)" "[i]"] by blast+
  show "prev (s i) = last (q # xs)" using c(2) by simp
  show "linked s (q # xs)" using c(1) e by metis
  show "nxt (s i) = hd (ys @ [q])" "linked s (ys @ [q])" using b by (cases ys; simp)+
  show "distinct (q # xs @ i # ys)" by (rule d)
qed

lemma ring_remove:
  assumes r: "ring s q (xs @ i # ys)"
  shows "ring (DPS_QueueRemove i s) q (xs @ ys)"
proof -
  let ?t = "DPS_QueueRemove i s" and ?l = "last (q # xs)" and ?f = "hd (ys @ [q])"
  note sp = ring_split[OF r]
  have l: "?l \<in> set (q # xs)" by (rule last_in_set) simp
  then have n: "i \<noteq> prev (s i)" using sp(1,5) by auto
  note lr = links_remove(1)[of i s] links_remove(2)[of i s, OF n]
  have e: "q # xs = butlast (q # xs) @ [?l]" by (metis append_butlast_last_id list.distinct(1))
  have f: "ys @ [q] = ?f # tl (ys @ [q])" by (cases ys) auto
  have "distinct (q # xs)" using sp(5) by auto
  then have nl: "?l \<notin> set (butlast (q # xs))" using e by (metis distinct_append disjoint_iff list.set_intros(1))
  have "linked ?t (q # xs)"
  proof (rule linked_cong[OF sp(3)])
    show "nxt (?t a) = nxt (s a)" if "a \<in> set (butlast (q # xs))" for a
      using that nl unfolding lr sp(1) by auto
    have "?f \<notin> set xs" using sp(5) by (cases ys) auto
    then show "prev (?t a) = prev (s a)" if "a \<in> set (tl (q # xs))" for a
      using that unfolding lr sp(2) by auto
  qed
  then have 1: "linked ?t (butlast (q # xs) @ [?l])" using e by metis
  have 2: "linked ?t (?f # tl (ys @ [q]))"
    unfolding f[symmetric]
  proof (rule linked_cong[OF sp(4)])
    show "nxt (?t a) = nxt (s a)" if "a \<in> set (butlast (ys @ [q]))" for a
      using that l sp(5) unfolding lr sp(1) by (auto simp: butlast_append)
    have "?f \<notin> set (tl (ys @ [q]))" using sp(5) by (cases ys) auto
    then show "prev (?t a) = prev (s a)" if "a \<in> set (tl (ys @ [q]))" for a
      using that unfolding lr sp(2) by auto
  qed
  have "nxt (?t ?l) = ?f" "prev (?t ?f) = ?l" unfolding lr sp(1,2) by simp_all
  then have "linked ?t (?l # ?f # tl (ys @ [q]))" using 2 by (simp only: linked.simps)
  then have "linked ?t (butlast (q # xs) @ ?l # (ys @ [q]))" using 1 unfolding f[symmetric] by (subst linked_append) simp
  then have "linked ?t (q # (xs @ ys) @ [q])" using e by (metis append_Cons append_assoc append_Nil)
  then show ?thesis using sp(5) by (auto simp: ring_def)
qed

lemma ring_frame:
  assumes "ring s p zs" "\<And>a. a \<in> set (p # zs) \<Longrightarrow> t a = s a"
  shows "ring t p zs"
proof -
  have "linked t (p # zs @ [p])"
    by (rule linked_cong[of s]) (use assms in \<open>auto simp: ring_def butlast_append dest: in_set_butlastD\<close>)
  then show ?thesis using assms(1) by (simp add: ring_def)
qed

lemma push_untouched:
  assumes "ring s q xs" "a \<notin> set (q # xs)" "a \<noteq> i"
  shows "DPS_QueuePushBack q i s a = s a"
  using assms ring_back[OF assms(1)] last_in_set[of "q # xs"]
  by (intro DPS_Queue.equality) (auto simp: links_push simp del: last.simps)

lemma remove_untouched:
  assumes r: "ring s q xs" "i \<in> set xs" and a: "a \<notin> set (q # xs)"
  shows "DPS_QueueRemove i s a = s a"
proof -
  obtain us vs where e: "xs = us @ i # vs" using r(2) by (auto simp: in_set_conv_decomp)
  note sp = ring_split[OF r(1)[unfolded e]]
  have "last (q # us) \<in> set (q # us)" "hd (vs @ [q]) \<in> set (vs @ [q])" by (rule last_in_set, simp) (rule hd_in_set, simp)
  then have "i \<noteq> prev (s i)" "a \<noteq> prev (s i)" "a \<noteq> nxt (s i)" using sp(1,2,5) a e by auto
  then show ?thesis by (intro DPS_Queue.equality) (auto simp: links_remove)
qed

section \<open>The contract of a queue\<close>

text \<open>What the users of a queue rely on: the operations keep the represented list, and leave every
  other queue whose cells are not involved as it is.\<close>

locale linked_fifo =
  fixes rep :: "'s \<Rightarrow> 'c \<Rightarrow> 'c list \<Rightarrow> bool"
    and init :: "'c \<Rightarrow> 's \<Rightarrow> 's"
    and isempty :: "'c \<Rightarrow> 's \<Rightarrow> bool"
    and front :: "'c \<Rightarrow> 's \<Rightarrow> 'c"
    and push :: "'c \<Rightarrow> 'c \<Rightarrow> 's \<Rightarrow> 's"
    and remove :: "'c \<Rightarrow> 's \<Rightarrow> 's"
  assumes rep_cells: "rep s q xs \<Longrightarrow> distinct (q # xs)"
    and rep_init: "rep (init q s) q []"
    and rep_empty: "rep s q xs \<Longrightarrow> isempty q s \<longleftrightarrow> xs = []"
    and rep_front: "rep s q (x # xs) \<Longrightarrow> front q s = x"
    and rep_push: "rep s q xs \<Longrightarrow> i \<notin> set (q # xs) \<Longrightarrow> rep (push q i s) q (xs @ [i])"
    and rep_remove: "rep s q (xs @ i # ys) \<Longrightarrow> rep (remove i s) q (xs @ ys)"
    and push_frame: "rep s q xs \<Longrightarrow> rep s p zs \<Longrightarrow> set (p # zs) \<inter> set (i # q # xs) = {} \<Longrightarrow> rep (push q i s) p zs"
    and remove_frame: "rep s q xs \<Longrightarrow> i \<in> set xs \<Longrightarrow> rep s p zs \<Longrightarrow> set (p # zs) \<inter> set (q # xs) = {} \<Longrightarrow>
      rep (remove i s) p zs"
begin

lemma pop_front: "rep s q (x # xs) \<Longrightarrow> \<not> isempty q s \<and> front q s = x \<and> rep (remove x s) q xs"
  using rep_empty[of s q "x # xs"] rep_front[of s q x xs] rep_remove[of s q "[]" x xs] by simp

lemma move_front:
  assumes "rep s p (x # xs)" "rep s q ys" "set (p # x # xs) \<inter> set (q # ys) = {}"
  shows "rep (push q (front p s) (remove (front p s) s)) p xs \<and>
         rep (push q (front p s) (remove (front p s) s)) q (ys @ [x])"
proof -
  have f: "front p s = x" by (rule rep_front[OF assms(1)])
  have p: "rep (remove x s) p xs" using pop_front[OF assms(1)] by blast
  have "set (q # ys) \<inter> set (p # x # xs) = {}" using assms(3) by blast
  then have q: "rep (remove x s) q ys" using remove_frame[OF assms(1) _ assms(2)] by simp
  have "x \<notin> set (q # ys)" "set (p # xs) \<inter> set (x # q # ys) = {}"
    using assms(3) rep_cells[OF assms(1)] by auto
  then show ?thesis unfolding f using rep_push[OF q] push_frame[OF q p] by blast
qed

end

interpretation lq: linked_fifo ring DPS_QueueInit DPS_QueueEmpty DPS_QueueFront DPS_QueuePushBack DPS_QueueRemove
proof unfold_locales
  show "ring (DPS_QueuePushBack q i s) p zs"
    if "ring s q xs" "ring s p zs" "set (p # zs) \<inter> set (i # q # xs) = {}" for s q xs p zs i
    by (rule ring_frame[OF that(2)], rule push_untouched[OF that(1)]) (use that(3) in auto)
  show "ring (DPS_QueueRemove i s) p zs"
    if "ring s q xs" "i \<in> set xs" "ring s p zs" "set (p # zs) \<inter> set (q # xs) = {}" for s q xs i p zs
    by (rule ring_frame[OF that(3)], rule remove_untouched[OF that(1,2)]) (use that(4) in auto)
qed (rule ring_init ring_empty ring_front ring_push ring_remove; assumption | simp add: ring_def)+

lemma drain_step:
  "drain q s = (if DPS_QueueEmpty q s then Some ([], s)
     else Option.bind (drain q (DPS_QueueRemove (DPS_QueueFront q s) s))
            (\<lambda>(items, s'). Some (DPS_QueueFront q s # items, s')))"
  by (subst drain.simps) (simp add: Let_def)

lemma drain_ring:
  assumes "ring s q xs"
  shows "\<exists>t. drain q s = Some (xs, t) \<and> ring t q [] \<and>
    (\<forall>p ws. ring s p ws \<longrightarrow> set (p # ws) \<inter> set (q # xs) = {} \<longrightarrow> ring t p ws)"
  using assms
proof (induction xs arbitrary: s)
  case Nil
  then show ?case using lq.rep_empty[OF Nil] by (subst drain_step) simp
next
  case (Cons x xs)
  note p = lq.pop_front[OF Cons.prems]
  obtain t where t: "drain q (DPS_QueueRemove x s) = Some (xs, t)" "ring t q []"
    "\<And>p ws. ring (DPS_QueueRemove x s) p ws \<Longrightarrow> set (p # ws) \<inter> set (q # xs) = {} \<Longrightarrow> ring t p ws"
    using Cons.IH p by blast
  have "ring t p ws" if "ring s p ws" "set (p # ws) \<inter> set (q # x # xs) = {}" for p ws
    using t(3)[OF lq.remove_frame[OF Cons.prems _ that]] that(2) by auto
  then show ?case using p t(1,2) by (subst drain_step) simp
qed

lemma push_all_ring:
  assumes "ring s q xs" "distinct ys" "set ys \<inter> set (q # xs) = {}"
  shows "ring (fold (DPS_QueuePushBack q) ys s) q (xs @ ys) \<and>
    (\<forall>p ws. ring s p ws \<longrightarrow> set (p # ws) \<inter> set (q # xs @ ys) = {} \<longrightarrow> ring (fold (DPS_QueuePushBack q) ys s) p ws)"
  using assms
proof (induction ys arbitrary: s xs)
  case (Cons y ys)
  have r: "ring (DPS_QueuePushBack q y s) q (xs @ [y])" using Cons.prems by (intro lq.rep_push) auto
  have ih: "ring (fold (DPS_QueuePushBack q) ys (DPS_QueuePushBack q y s)) q ((xs @ [y]) @ ys) \<and>
    (\<forall>p ws. ring (DPS_QueuePushBack q y s) p ws \<longrightarrow> set (p # ws) \<inter> set (q # (xs @ [y]) @ ys) = {} \<longrightarrow>
       ring (fold (DPS_QueuePushBack q) ys (DPS_QueuePushBack q y s)) p ws)"
    by (rule Cons.IH[OF r]) (use Cons.prems in auto)
  have "ring (DPS_QueuePushBack q y s) p ws" if "ring s p ws" "set (p # ws) \<inter> set (q # xs @ y # ys) = {}" for p ws
    using that(2) by (intro lq.push_frame[OF Cons.prems(1) that(1)]) auto
  then show ?case using ih by simp
qed simp

text \<open>C36: First in, first out, with deletion from the middle: items pushed onto a queue, some of
  which are removed again wherever they stand, are drained in the order in which they were pushed;
  the loop ends and leaves the queue empty. A second queue in the same store is not affected.\<close>

theorem queue_fifo:
  assumes "ring s q xs" "distinct (ys @ i # zs)" "set (ys @ i # zs) \<inter> set (q # xs) = {}"
    and "ring s p ws" "set (p # ws) \<inter> set (q # xs @ ys @ i # zs) = {}"
  shows "\<exists>t. drain q (DPS_QueueRemove i (fold (DPS_QueuePushBack q) (ys @ i # zs) s)) = Some (xs @ ys @ zs, t) \<and>
    ring t q [] \<and> ring t p ws"
proof -
  let ?u = "fold (DPS_QueuePushBack q) (ys @ i # zs) s"
  have u: "ring ?u q ((xs @ ys) @ i # zs)" "ring ?u p ws"
    using push_all_ring[OF assms(1-3)] assms(4,5) by simp_all
  have r: "ring (DPS_QueueRemove i ?u) q (xs @ ys @ zs)" using lq.rep_remove[OF u(1)] by simp
  have "ring (DPS_QueueRemove i ?u) p ws" by (rule lq.remove_frame[OF u(1) _ u(2)]) (use assms(5) in auto)
  moreover have "set (p # ws) \<inter> set (q # xs @ ys @ zs) = {}" using assms(5) by auto
  ultimately show ?thesis using drain_ring[OF r] by blast
qed

theorem queue_fifo_witness:
  "\<exists>t. drain 0 (DPS_QueueRemove 2 (fold (DPS_QueuePushBack 0) [1, 2, 3] (DPS_QueueInit 9 (DPS_QueueInit 0 (\<lambda>_. \<lparr>prev = 0, nxt = 0\<rparr>))))) =
     Some ([1, 3], t) \<and> ring t 0 [] \<and> ring t 9 []"
proof -
  let ?s = "DPS_QueueInit 9 (DPS_QueueInit 0 (\<lambda>_. \<lparr>prev = 0, nxt = 0\<rparr>))"
  have "ring ?s 0 []" "ring ?s 9 []" by (simp_all add: ring_def DPS_QueueInit_def)
  then show ?thesis using queue_fifo[of ?s 0 "[]" "[1]" 2 "[3]" 9 "[]"] by simp
qed

text \<open>Sending a retained publication again moves its request from the front of the retained queue
  to the back of the send queue and changes neither queue otherwise.\<close>

theorem queue_requeue:
  assumes "ring s p (x # xs)" "ring s q ys" "set (p # x # xs) \<inter> set (q # ys) = {}"
  shows "ring (requeue p q s) p xs \<and> ring (requeue p q s) q (ys @ [x])"
  unfolding requeue_def Let_def by (rule lq.move_front[OF assms])

theorem queue_requeue_witness:
  "ring (requeue 9 0 (DPS_QueuePushBack 9 1 (DPS_QueueInit 9 (DPS_QueueInit 0 (\<lambda>_. \<lparr>prev = 0, nxt = 0\<rparr>))))) 9 [] \<and>
   ring (requeue 9 0 (DPS_QueuePushBack 9 1 (DPS_QueueInit 9 (DPS_QueueInit 0 (\<lambda>_. \<lparr>prev = 0, nxt = 0\<rparr>))))) 0 [1]"
proof -
  let ?s = "DPS_QueuePushBack 9 1 (DPS_QueueInit 9 (DPS_QueueInit 0 (\<lambda>_. \<lparr>prev = 0, nxt = 0\<rparr>)))"
  have "ring ?s 9 [1]" "ring ?s 0 []" by (simp_all add: ring_def DPS_QueueInit_def links_push)
  then show ?thesis using queue_requeue[of ?s 9 1 "[]" 0 "[]"] by simp
qed

section \<open>Requests to the node thread (src/dps.c)\<close>

text \<open>
  Requests are queued by any thread and run by the node thread: \<open>RunRequestsTask\<close> takes a request
  from the queue, releases the lock of the node and calls it. A request for an existing link ends in
  \<open>DPS_NodeRequestCancel\<close>, which removes it from the queue once more.
\<close>

definition DPS_NodeRequestInit :: "cell \<Rightarrow> store \<Rightarrow> store" where
  "DPS_NodeRequestInit req s = DPS_QueueInit req s"

text \<open>\<open>err\<close> is the result of \<open>uv_async_send\<close>.\<close>

definition DPS_NodeRequestSchedule :: "cell \<Rightarrow> cell \<Rightarrow> bool \<Rightarrow> store \<Rightarrow> DPS_Status \<times> store" where
  "DPS_NodeRequestSchedule requestQueue req err s =
     (let s = DPS_QueuePushBack requestQueue req s in
      if err then (DPS_ERR_FAILURE, DPS_QueueRemove req s) else (DPS_OK, s))"

definition DPS_NodeRequestCancel :: "cell \<Rightarrow> store \<Rightarrow> store" where
  "DPS_NodeRequestCancel req s = DPS_QueueRemove req s"

text \<open>The step of \<open>RunRequestsTask\<close> under the lock: the request that is run next.\<close>

definition take_request :: "cell \<Rightarrow> store \<Rightarrow> (cell \<times> store) option" where
  "take_request requestQueue s =
     (if DPS_QueueEmpty requestQueue s then None
      else (let request = DPS_QueueFront requestQueue s in Some (request, DPS_QueueRemove request s)))"

lemma remove_cell: "x \<noteq> prev (s x) \<Longrightarrow> x \<noteq> nxt (s x) \<Longrightarrow> DPS_QueueRemove x s x = s x"
  by (intro DPS_Queue.equality) (auto simp: links_remove)

lemma remove_again:
  assumes "ring s q (x # xs)"
  shows "ring (DPS_QueueRemove x (DPS_QueueRemove x s)) q xs"
proof -
  have r: "ring (DPS_QueueRemove x s) q xs" using lq.pop_front[OF assms] by blast
  note sp = ring_split[of s q "[]" x xs, unfolded append_Nil, OF assms]
  have hd: "hd (xs @ [q]) \<in> set (xs @ [q])" by (rule hd_in_set) simp
  have n: "x \<noteq> prev (s x)" "x \<noteq> nxt (s x)" using sp hd by auto
  note c = remove_cell[of x s, OF n]
  have "DPS_QueueRemove x (DPS_QueueRemove x s) = DPS_QueueRemove x s"
  proof
    fix a
    show "DPS_QueueRemove x (DPS_QueueRemove x s) a = DPS_QueueRemove x s a"
      using n by (intro DPS_Queue.equality) (auto simp: links_remove c)
  qed
  then show ?thesis using r by simp
qed

text \<open>C37: Cancelling a request that has just been taken is harmless as long as the queue is not touched in
  between; but if it was the only one and another request is scheduled before it is cancelled, which
  the released lock allows, the new request is lost: the queue is empty and nothing is left to run.\<close>

theorem cancel_loses_request:
  assumes "ring s q (x # xs)" "y \<notin> set (q # x # xs)"
  shows "take_request q s = Some (x, DPS_QueueRemove x s) \<and>
    ring (DPS_NodeRequestCancel x (DPS_QueueRemove x s)) q xs \<and>
    (xs = [] \<longrightarrow>
       ring (snd (DPS_NodeRequestSchedule q y False (DPS_QueueRemove x s))) q [y] \<and>
       take_request q (DPS_NodeRequestCancel x (snd (DPS_NodeRequestSchedule q y False (DPS_QueueRemove x s)))) = None)"
proof (intro conjI impI)
  show "take_request q s = Some (x, DPS_QueueRemove x s)"
    using lq.pop_front[OF assms(1)] by (simp add: take_request_def)
  show "ring (DPS_NodeRequestCancel x (DPS_QueueRemove x s)) q xs"
    unfolding DPS_NodeRequestCancel_def by (rule remove_again[OF assms(1)])
  assume e: "xs = []"
  have r: "ring (DPS_QueueRemove x s) q []" using lq.pop_front[OF assms(1)] e by blast
  let ?t = "DPS_QueuePushBack q y (DPS_QueueRemove x s)"
  have t: "ring ?t q [y]" using lq.rep_push[OF r, of y] assms(2) by simp
  then show "ring (snd (DPS_NodeRequestSchedule q y False (DPS_QueueRemove x s))) q [y]"
    by (simp add: DPS_NodeRequestSchedule_def)
  note sp = ring_split[of s q "[]" x "[]", unfolded append_Nil, OF assms(1)[unfolded e]]
  have "?t x = DPS_QueueRemove x s x" using push_untouched[OF r, of x y] sp assms(2) by auto
  then have "?t x = s x" using remove_cell[of x s] sp by auto
  then have "nxt (DPS_QueueRemove x ?t q) = q" using sp by (simp add: links_remove)
  then show "take_request q (DPS_NodeRequestCancel x (snd (DPS_NodeRequestSchedule q y False (DPS_QueueRemove x s)))) = None"
    by (simp add: take_request_def DPS_QueueEmpty_def DPS_NodeRequestCancel_def DPS_NodeRequestSchedule_def)
qed

theorem cancel_loses_request_witness:
  defines "s \<equiv> DPS_QueuePushBack 0 1 (DPS_QueueInit 0 (\<lambda>_. \<lparr>prev = 0, nxt = 0\<rparr>))"
  shows "take_request 0 s = Some (1, DPS_QueueRemove 1 s) \<and>
    take_request 0 (DPS_NodeRequestCancel 1 (snd (DPS_NodeRequestSchedule 0 2 False (DPS_QueueRemove 1 s)))) = None"
proof -
  have "ring s 0 [1]" by (simp add: s_def ring_def DPS_QueueInit_def links_push)
  then show ?thesis using cancel_loses_request[of s 0 1 "[]" 2] by simp
qed

end
