(* ===== verification/Buffers.thy ===== *)
theory Buffers
  imports DPS_Prelude
begin

text \<open>
  The receive and transmit buffers of \<^verbatim>\<open>inc/dps/private/dps.h\<close> and
  \<^verbatim>\<open>src/dps.c\<close>. The three pointers of the C structs are represented by the bytes
  between the base pointer and the end pointer and by the offset of the current position; a
  buffer whose pointers are NULL is the empty buffer. The macros for the remaining space cast the
  pointer difference to \<open>uint32_t\<close>, which the definitions keep.
\<close>

section \<open>Receive buffers\<close>

record DPS_RxBuffer =
  rx_base :: "u8 list"
  rxPos :: nat

definition DPS_RxBufferClear :: DPS_RxBuffer where
  "DPS_RxBufferClear = \<lparr>rx_base = [], rxPos = 0\<rparr>"

definition DPS_RxBufferInit :: "u8 list \<Rightarrow> nat \<Rightarrow> DPS_RxBuffer" where
  "DPS_RxBufferInit storage sz =
     (if sz = 0 then DPS_RxBufferClear
      else \<lparr>rx_base = take sz storage, rxPos = 0\<rparr>)"

definition DPS_RxBufferFree :: "DPS_RxBuffer \<Rightarrow> DPS_RxBuffer" where
  "DPS_RxBufferFree b = DPS_RxBufferClear"

definition DPS_RxBufferAvail :: "DPS_RxBuffer \<Rightarrow> nat" where
  "DPS_RxBufferAvail b = (length (rx_base b) - rxPos b) mod 2 ^ 32"

text \<open>\<open>rx_advance\<close> is \<^verbatim>\<open>buffer->rxPos += n\<close>, \<open>rx_byte b k\<close> is
  \<^verbatim>\<open>buffer->rxPos[k]\<close>, and \<open>rx_rem\<close> the bytes still to be read.\<close>

definition rx_advance :: "DPS_RxBuffer \<Rightarrow> nat \<Rightarrow> DPS_RxBuffer" where
  "rx_advance b n = b\<lparr>rxPos := rxPos b + n\<rparr>"

definition rx_byte :: "DPS_RxBuffer \<Rightarrow> nat \<Rightarrow> u8" where
  "rx_byte b k = rx_base b ! (rxPos b + k)"

definition rx_rem :: "DPS_RxBuffer \<Rightarrow> u8 list" where
  "rx_rem b = drop (rxPos b) (rx_base b)"

definition rx_wf :: "DPS_RxBuffer \<Rightarrow> bool" where
  "rx_wf b \<longleftrightarrow> rxPos b \<le> length (rx_base b) \<and> length (rx_base b) < 2 ^ 32"

section \<open>Transmit buffers\<close>

record DPS_TxBuffer =
  tx_base :: "u8 list"
  txPos :: nat

definition DPS_TxBufferClear :: DPS_TxBuffer where
  "DPS_TxBufferClear = \<lparr>tx_base = [], txPos = 0\<rparr>"

text \<open>The allocator is a parameter: \<open>malloc n\<close> is the fresh block, or \<open>None\<close>.\<close>

definition DPS_TxBufferInit ::
  "(nat \<Rightarrow> u8 list option) \<Rightarrow> u8 list option \<Rightarrow> nat \<Rightarrow> DPS_Status \<times> DPS_TxBuffer" where
  "DPS_TxBufferInit malloc storage sz =
     (case storage of
        Some mem \<Rightarrow> (DPS_OK, \<lparr>tx_base = take sz mem, txPos = 0\<rparr>)
      | None \<Rightarrow>
          (if sz = 0 then (DPS_OK, DPS_TxBufferClear)
           else case malloc sz of
               None \<Rightarrow> (DPS_ERR_RESOURCES, DPS_TxBufferClear)
             | Some mem \<Rightarrow> (DPS_OK, \<lparr>tx_base = take sz mem, txPos = 0\<rparr>)))"

definition DPS_TxBufferFree :: "DPS_TxBuffer \<Rightarrow> DPS_TxBuffer" where
  "DPS_TxBufferFree b = DPS_TxBufferClear"

definition DPS_TxBufferSpace :: "DPS_TxBuffer \<Rightarrow> nat" where
  "DPS_TxBufferSpace b = (length (tx_base b) - txPos b) mod 2 ^ 32"

definition DPS_TxBufferUsed :: "DPS_TxBuffer \<Rightarrow> nat" where
  "DPS_TxBufferUsed b = txPos b mod 2 ^ 32"

definition DPS_TxBufferCapacity :: "DPS_TxBuffer \<Rightarrow> nat" where
  "DPS_TxBufferCapacity b = length (tx_base b) mod 2 ^ 32"

text \<open>
  \<open>memcpy_s\<close> of C11 Annex K on the storage of a buffer: copy \<open>n\<close> bytes to offset \<open>i\<close> when
  they fit into \<open>dmax\<close> bytes, otherwise report a constraint violation and store \<open>dmax\<close> zero
  bytes at the destination. (The implementation-defined limit \<open>RSIZE_MAX\<close> is above the size
  of every buffer of the program.)
\<close>

definition memcpy_s :: "u8 list \<Rightarrow> nat \<Rightarrow> nat \<Rightarrow> u8 list \<Rightarrow> nat \<Rightarrow> bool \<times> u8 list" where
  "memcpy_s mem i dmax src n =
     (if n \<le> dmax then (True, overwrite i (take n src) mem)
      else (False, overwrite i (replicate dmax 0) mem))"

definition DPS_TxBufferAppend ::
  "DPS_TxBuffer \<Rightarrow> u8 list option \<Rightarrow> nat \<Rightarrow> DPS_Status \<times> DPS_TxBuffer" where
  "DPS_TxBufferAppend b data len =
     (case data of
        None \<Rightarrow> (DPS_OK, b)
      | Some src \<Rightarrow>
          (if len = 0 then (DPS_OK, b)
           else case memcpy_s (tx_base b) (txPos b) (DPS_TxBufferSpace b) src len of
               (False, mem) \<Rightarrow> (DPS_ERR_OVERFLOW, b\<lparr>tx_base := mem\<rparr>)
             | (True, mem) \<Rightarrow> (DPS_OK, b\<lparr>tx_base := mem, txPos := txPos b + len\<rparr>)))"

definition DPS_TxBufferToRx :: "DPS_TxBuffer \<Rightarrow> DPS_RxBuffer" where
  "DPS_TxBufferToRx b = \<lparr>rx_base = take (txPos b) (tx_base b), rxPos = 0\<rparr>"

definition DPS_RxBufferToTx :: "DPS_RxBuffer \<Rightarrow> DPS_TxBuffer" where
  "DPS_RxBufferToTx b = \<lparr>tx_base = rx_base b, txPos = length (rx_base b)\<rparr>"

text \<open>\<open>tx_put\<close> is a run of stores \<^verbatim>\<open>*p++ = byte\<close> followed by
  \<^verbatim>\<open>buffer->txPos = p\<close>; \<open>tx_out\<close> the bytes written so far.\<close>

definition tx_put :: "DPS_TxBuffer \<Rightarrow> u8 list \<Rightarrow> DPS_TxBuffer" where
  "tx_put b bs = \<lparr>tx_base = overwrite (txPos b) bs (tx_base b), txPos = txPos b + length bs\<rparr>"

definition tx_out :: "DPS_TxBuffer \<Rightarrow> u8 list" where
  "tx_out b = take (txPos b) (tx_base b)"

definition tx_wf :: "DPS_TxBuffer \<Rightarrow> bool" where
  "tx_wf b \<longleftrightarrow> txPos b \<le> length (tx_base b) \<and> length (tx_base b) < 2 ^ 32"

section \<open>Facts about buffers\<close>

lemma rx_avail [simp]: "rx_wf b \<Longrightarrow> DPS_RxBufferAvail b = length (rx_rem b)"
  by (auto simp: DPS_RxBufferAvail_def rx_wf_def rx_rem_def)

lemma rx_avail_le: "DPS_RxBufferAvail b \<le> length (rx_rem b)"
  by (simp add: DPS_RxBufferAvail_def rx_rem_def)

lemma rx_rem_advance [simp]: "rx_rem (rx_advance b n) = drop n (rx_rem b)"
  by (simp add: rx_rem_def rx_advance_def add.commute)

lemma rx_base_advance [simp]: "rx_base (rx_advance b n) = rx_base b"
  by (simp add: rx_advance_def)

lemma rxPos_advance [simp]: "rxPos (rx_advance b n) = rxPos b + n"
  by (simp add: rx_advance_def)

lemma rx_advance_0 [simp]: "rx_advance b 0 = b"
  by (simp add: rx_advance_def)

lemma rx_advance_advance [simp]: "rx_advance (rx_advance b m) n = rx_advance b (m + n)"
  by (simp add: rx_advance_def add.assoc)

lemma rx_wf_advance: "rx_wf b \<Longrightarrow> n \<le> length (rx_rem b) \<Longrightarrow> rx_wf (rx_advance b n)"
  by (auto simp: rx_wf_def rx_advance_def rx_rem_def)

lemma rx_byte_append: "rx_rem b = ys @ zs \<Longrightarrow> k < length ys \<Longrightarrow> rx_byte b k = ys ! k"
  unfolding rx_rem_def rx_byte_def by (rule drop_eq_append_nth)

lemma rx_byte_rem: "k < length (rx_rem b) \<Longrightarrow> rx_byte b k = rx_rem b ! k"
  by (rule rx_byte_append [where zs = "[]"]) simp

lemma rx_rem_nonempty: "rx_wf b \<Longrightarrow> length (rx_rem b) = length (rx_base b) - rxPos b"
  by (simp add: rx_rem_def)

lemma tx_space [simp]: "tx_wf b \<Longrightarrow> DPS_TxBufferSpace b = length (tx_base b) - txPos b"
  by (auto simp: DPS_TxBufferSpace_def tx_wf_def)

lemma tx_wf_put:
  "tx_wf b \<Longrightarrow> length bs \<le> DPS_TxBufferSpace b \<Longrightarrow> tx_wf (tx_put b bs)"
  by (auto simp: tx_wf_def tx_put_def DPS_TxBufferSpace_def)

lemma tx_out_put [simp]: "tx_wf b \<Longrightarrow> tx_out (tx_put b bs) = tx_out b @ bs"
  by (simp add: tx_out_def tx_put_def tx_wf_def)

lemma tx_put_Nil [simp]: "tx_put b [] = b"
  by (simp add: tx_put_def)

lemma tx_put_put:
  "tx_wf b \<Longrightarrow> length (as @ bs) \<le> DPS_TxBufferSpace b \<Longrightarrow>
   tx_put (tx_put b as) bs = tx_put b (as @ bs)"
  by (auto simp: tx_put_def tx_wf_def overwrite_overwrite add.assoc)

lemma tx_space_put [simp]:
  "tx_wf b \<Longrightarrow> length bs \<le> DPS_TxBufferSpace b \<Longrightarrow>
   DPS_TxBufferSpace (tx_put b bs) = DPS_TxBufferSpace b - length bs"
  using tx_wf_put [of b bs] by (auto simp: tx_wf_def tx_put_def)

lemma length_tx_out: "tx_wf b \<Longrightarrow> length (tx_out b) = txPos b"
  by (simp add: tx_out_def tx_wf_def)

lemma rx_of_tx: "tx_wf b \<Longrightarrow> rx_wf (DPS_TxBufferToRx b) \<and> rx_rem (DPS_TxBufferToRx b) = tx_out b"
  by (auto simp: rx_wf_def rx_rem_def DPS_TxBufferToRx_def tx_out_def tx_wf_def)

lemma append_fits:
  "tx_wf b \<Longrightarrow> n = length src \<Longrightarrow> n \<le> DPS_TxBufferSpace b \<Longrightarrow>
   DPS_TxBufferAppend b (Some src) n = (DPS_OK, tx_put b src)"
  by (auto simp: DPS_TxBufferAppend_def memcpy_s_def tx_put_def)

lemma append_full:
  "tx_wf b \<Longrightarrow> DPS_TxBufferSpace b < n \<Longrightarrow>
   \<exists>mem. DPS_TxBufferAppend b (Some src) n = (DPS_ERR_OVERFLOW, b\<lparr>tx_base := mem\<rparr>) \<and>
     take (txPos b) mem = tx_out b \<and> length mem = length (tx_base b)"
  by (auto simp: DPS_TxBufferAppend_def memcpy_s_def tx_out_def tx_wf_def take_overwrite_before)

end
