(* ===== verification/Cbor.thy ===== *)
theory Cbor
  imports Buffers
begin

text \<open>
  The CBOR encoder and decoder of \<^verbatim>\<open>src/cbor.c\<close>: the integer header shared by every
  major type, and the encode and decode functions built on it. Every function is translated
  with its checks in the order of the source. The second half proves that decoding inverts
  encoding, once for all item types through the interface \<open>cbor_codec\<close>.
\<close>

section \<open>Constants (inc/dps/private/cbor.h)\<close>

definition CBOR_UINT :: u8 where "CBOR_UINT = 0x00"
definition CBOR_NEG :: u8 where "CBOR_NEG = 0x20"
definition CBOR_BYTES :: u8 where "CBOR_BYTES = 0x40"
definition CBOR_STRING :: u8 where "CBOR_STRING = 0x60"
definition CBOR_ARRAY :: u8 where "CBOR_ARRAY = 0x80"
definition CBOR_MAP :: u8 where "CBOR_MAP = 0xA0"
definition CBOR_TAG :: u8 where "CBOR_TAG = 0xC0"
definition CBOR_OTHER :: u8 where "CBOR_OTHER = 0xE0"
definition CBOR_FALSE :: u8 where "CBOR_FALSE = CBOR_OTHER OR 20"
definition CBOR_TRUE :: u8 where "CBOR_TRUE = CBOR_OTHER OR 21"
definition CBOR_NULL :: u8 where "CBOR_NULL = CBOR_OTHER OR 22"
definition CBOR_FLOAT :: u8 where "CBOR_FLOAT = CBOR_OTHER OR 26"
definition CBOR_DOUBLE :: u8 where "CBOR_DOUBLE = CBOR_OTHER OR 27"
definition CBOR_LEN1 :: u8 where "CBOR_LEN1 = 24"
definition CBOR_LEN2 :: u8 where "CBOR_LEN2 = 25"
definition CBOR_LEN4 :: u8 where "CBOR_LEN4 = 26"
definition CBOR_LEN8 :: u8 where "CBOR_LEN8 = 27"
definition CBOR_MAX_STRING_LEN :: nat where "CBOR_MAX_STRING_LEN = 2048"
definition CBOR_MAX_LENGTH :: nat where "CBOR_MAX_LENGTH = 9"

lemmas cbor_consts =
  CBOR_UINT_def CBOR_NEG_def CBOR_BYTES_def CBOR_STRING_def CBOR_ARRAY_def CBOR_MAP_def
  CBOR_TAG_def CBOR_OTHER_def CBOR_FALSE_def CBOR_TRUE_def CBOR_NULL_def CBOR_FLOAT_def
  CBOR_DOUBLE_def CBOR_LEN1_def CBOR_LEN2_def CBOR_LEN4_def CBOR_LEN8_def

definition MAJOR_ENCODES_LENGTH :: "u8 \<Rightarrow> bool" where
  "MAJOR_ENCODES_LENGTH m \<longleftrightarrow>
     m = CBOR_BYTES \<or> m = CBOR_STRING \<or> m = CBOR_ARRAY \<or> m = CBOR_MAP"

definition CBOR_SIZEOF_LEN :: "u64 \<Rightarrow> nat" where
  "CBOR_SIZEOF_LEN l =
     (if l < 24 then 1 else if l \<le> 255 then 2 else if l \<le> 65535 then 3
      else if l \<le> 4294967295 then 5 else 9)"

section \<open>Encoding\<close>

definition Requires :: "u64 \<Rightarrow> nat" where
  "Requires n =
     (if n < 24 then 0 else if n \<le> 255 then 1 else if n \<le> 65535 then 2
      else if n \<le> 4294967295 then 4 else 8)"

text \<open>\<^verbatim>\<open>(uint8_t)(n >> k)\<close>\<close>

definition byte_at :: "u64 \<Rightarrow> nat \<Rightarrow> u8" where
  "byte_at n k = ucast (drop_bit k n)"

definition uint_bytes :: "u64 \<Rightarrow> u8 \<Rightarrow> u8 list" where
  "uint_bytes n maj =
     (let lenReq = Requires n in
      if lenReq = 0 then [maj OR byte_at n 0]
      else if lenReq = 1 then [maj OR CBOR_LEN1, byte_at n 0]
      else if lenReq = 2 then [maj OR CBOR_LEN2, byte_at n 8, byte_at n 0]
      else if lenReq = 4 then
        [maj OR CBOR_LEN4, byte_at n 24, byte_at n 16, byte_at n 8, byte_at n 0]
      else
        [maj OR CBOR_LEN8, byte_at n 56, byte_at n 48, byte_at n 40, byte_at n 32,
         byte_at n 24, byte_at n 16, byte_at n 8, byte_at n 0])"

definition EncodeUint :: "DPS_TxBuffer \<Rightarrow> u64 \<Rightarrow> u8 \<Rightarrow> DPS_Status \<times> DPS_TxBuffer" where
  "EncodeUint buffer n maj =
     (if Requires n + 1 > DPS_TxBufferSpace buffer then (DPS_ERR_OVERFLOW, buffer)
      else (DPS_OK, tx_put buffer (uint_bytes n maj)))"

definition CBOR_EncodeLength :: "DPS_TxBuffer \<Rightarrow> u64 \<Rightarrow> u8 \<Rightarrow> DPS_Status \<times> DPS_TxBuffer" where
  "CBOR_EncodeLength buffer len maj = EncodeUint buffer len maj"

text \<open>A data pointer is \<open>None\<close> for NULL and otherwise the bytes it points to.\<close>

definition CBOR_Copy ::
  "DPS_TxBuffer \<Rightarrow> u8 list option \<Rightarrow> nat \<Rightarrow> DPS_Status \<times> DPS_TxBuffer" where
  "CBOR_Copy buffer data len =
     (case data of
        None \<Rightarrow> (DPS_OK, buffer)
      | Some src \<Rightarrow>
          (if len = 0 then (DPS_OK, buffer)
           else case memcpy_s (tx_base buffer) (txPos buffer) (DPS_TxBufferSpace buffer) src len of
               (False, mem) \<Rightarrow> (DPS_ERR_OVERFLOW, buffer\<lparr>tx_base := mem\<rparr>)
             | (True, mem) \<Rightarrow> (DPS_OK, buffer\<lparr>tx_base := mem, txPos := txPos buffer + len\<rparr>)))"

definition CBOR_EncodeBoolean :: "DPS_TxBuffer \<Rightarrow> bool \<Rightarrow> DPS_Status \<times> DPS_TxBuffer" where
  "CBOR_EncodeBoolean buffer i =
     (if DPS_TxBufferSpace buffer < 1 then (DPS_ERR_OVERFLOW, buffer)
      else (DPS_OK, tx_put buffer [if i then CBOR_TRUE else CBOR_FALSE]))"

definition CBOR_EncodeUint :: "DPS_TxBuffer \<Rightarrow> u64 \<Rightarrow> DPS_Status \<times> DPS_TxBuffer" where
  "CBOR_EncodeUint buffer n = EncodeUint buffer n CBOR_UINT"

text \<open>An \<open>int64_t\<close> is its 64-bit pattern; \<open>i >= 0\<close> reads it as two's complement.\<close>

definition CBOR_SizeOfInt :: "u64 \<Rightarrow> nat" where
  "CBOR_SizeOfInt i =
     (if 0 \<le> sint i then CBOR_SIZEOF_LEN i else CBOR_SIZEOF_LEN (NOT i))"

definition CBOR_EncodeInt :: "DPS_TxBuffer \<Rightarrow> u64 \<Rightarrow> DPS_Status \<times> DPS_TxBuffer" where
  "CBOR_EncodeInt buffer i =
     (if 0 \<le> sint i then EncodeUint buffer i CBOR_UINT
      else EncodeUint buffer (NOT i) CBOR_NEG)"

text \<open>\<^verbatim>\<open>(uint32_t)len\<close>, passed on as an \<open>uint64_t\<close>\<close>

definition len32 :: "nat \<Rightarrow> u64" where
  "len32 len = word_of_nat (len mod 2 ^ 32)"

definition CBOR_EncodeBytes ::
  "DPS_TxBuffer \<Rightarrow> u8 list option \<Rightarrow> nat \<Rightarrow> DPS_Status \<times> DPS_TxBuffer" where
  "CBOR_EncodeBytes buffer data len =
     ok_then (EncodeUint buffer (len32 len) CBOR_BYTES) (\<lambda>b. CBOR_Copy b data len)"

text \<open>The returned pointer is the offset of the reserved bytes.\<close>

definition CBOR_ReserveBytes ::
  "DPS_TxBuffer \<Rightarrow> nat \<Rightarrow> nat res \<times> DPS_TxBuffer" where
  "CBOR_ReserveBytes buffer len =
     (case EncodeUint buffer (len32 len) CBOR_BYTES of
        (ret, b) \<Rightarrow>
          if ret \<noteq> DPS_OK then (Inl ret, b)
          else if DPS_TxBufferSpace b < len then (Inl DPS_ERR_OVERFLOW, b)
          else (Inr (txPos b), b\<lparr>txPos := txPos b + len\<rparr>))"

text \<open>\<open>wrapPtr\<close> is the offset at which the wrapped byte string starts.\<close>

definition CBOR_StartWrapBytes ::
  "DPS_TxBuffer \<Rightarrow> nat \<Rightarrow> nat res \<times> DPS_TxBuffer" where
  "CBOR_StartWrapBytes buffer hintLen =
     (case CBOR_ReserveBytes buffer hintLen of
        (Inl e, b) \<Rightarrow> (Inl e, b)
      | (Inr tmp, b) \<Rightarrow> (Inr (txPos buffer), b\<lparr>txPos := tmp\<rparr>))"

text \<open>\<open>strnlen_s\<close> of a NUL-terminated string, represented by its bytes before the NUL.\<close>

definition strnlen_s :: "u8 list \<Rightarrow> nat \<Rightarrow> nat" where
  "strnlen_s s maxlen = min (length s) maxlen"

definition CBOR_EncodeString ::
  "DPS_TxBuffer \<Rightarrow> u8 list option \<Rightarrow> DPS_Status \<times> DPS_TxBuffer" where
  "CBOR_EncodeString buffer str =
     (let len = (case str of None \<Rightarrow> 0 | Some s \<Rightarrow> strnlen_s s (CBOR_MAX_STRING_LEN + 1)) in
      ok_then
        (if len > CBOR_MAX_STRING_LEN then (DPS_ERR_OVERFLOW, buffer)
         else EncodeUint buffer (len32 len) CBOR_STRING)
        (\<lambda>b. CBOR_Copy b str len))"

definition CBOR_EncodeStringAndLength ::
  "DPS_TxBuffer \<Rightarrow> u8 list option \<Rightarrow> nat \<Rightarrow> DPS_Status \<times> DPS_TxBuffer" where
  "CBOR_EncodeStringAndLength buffer str len =
     ok_then (EncodeUint buffer (len32 len) CBOR_STRING) (\<lambda>b. CBOR_Copy b str len)"

definition CBOR_EncodeArray :: "DPS_TxBuffer \<Rightarrow> nat \<Rightarrow> DPS_Status \<times> DPS_TxBuffer" where
  "CBOR_EncodeArray buffer len = EncodeUint buffer (len32 len) CBOR_ARRAY"

definition CBOR_EncodeMap :: "DPS_TxBuffer \<Rightarrow> nat \<Rightarrow> DPS_Status \<times> DPS_TxBuffer" where
  "CBOR_EncodeMap buffer len = EncodeUint buffer (len32 len) CBOR_MAP"

definition CBOR_EncodeTag :: "DPS_TxBuffer \<Rightarrow> u64 \<Rightarrow> DPS_Status \<times> DPS_TxBuffer" where
  "CBOR_EncodeTag buffer n = EncodeUint buffer n CBOR_TAG"

definition CBOR_EncodeNull :: "DPS_TxBuffer \<Rightarrow> DPS_Status \<times> DPS_TxBuffer" where
  "CBOR_EncodeNull buffer =
     (if DPS_TxBufferSpace buffer < 1 then (DPS_ERR_OVERFLOW, buffer)
      else (DPS_OK, tx_put buffer [CBOR_NULL]))"

text \<open>A \<open>float\<close> and a \<open>double\<close> are their storage bytes, written most significant first.\<close>

definition CBOR_EncodeFloat :: "DPS_TxBuffer \<Rightarrow> u32 \<Rightarrow> DPS_Status \<times> DPS_TxBuffer" where
  "CBOR_EncodeFloat buffer f =
     (if DPS_TxBufferSpace buffer < 5 then (DPS_ERR_OVERFLOW, buffer)
      else (DPS_OK, tx_put buffer
        [CBOR_FLOAT, ucast (drop_bit 24 f), ucast (drop_bit 16 f), ucast (drop_bit 8 f), ucast f]))"

definition CBOR_EncodeDouble :: "DPS_TxBuffer \<Rightarrow> u64 \<Rightarrow> DPS_Status \<times> DPS_TxBuffer" where
  "CBOR_EncodeDouble buffer d =
     (if DPS_TxBufferSpace buffer < 9 then (DPS_ERR_OVERFLOW, buffer)
      else (DPS_OK, tx_put buffer
        [CBOR_DOUBLE, byte_at d 56, byte_at d 48, byte_at d 40, byte_at d 32,
         byte_at d 24, byte_at d 16, byte_at d 8, byte_at d 0]))"

definition CBOR_EncodeUUID :: "DPS_TxBuffer \<Rightarrow> u8 list \<Rightarrow> DPS_Status \<times> DPS_TxBuffer" where
  "CBOR_EncodeUUID buffer uuid = CBOR_EncodeBytes buffer (Some uuid) 16"

definition CBOR_SizeOfString :: "u8 list option \<Rightarrow> nat" where
  "CBOR_SizeOfString s =
     (let len = (case s of None \<Rightarrow> 0 | Some t \<Rightarrow> strnlen_s t (CBOR_MAX_STRING_LEN + 1)) in
      len + CBOR_SIZEOF_LEN (word_of_nat len))"

section \<open>Decoding\<close>

definition CBOR_DecodeBoolean :: "DPS_RxBuffer \<Rightarrow> bool res \<times> DPS_RxBuffer" where
  "CBOR_DecodeBoolean buffer =
     (if DPS_RxBufferAvail buffer < 1 then (Inl DPS_ERR_EOD, buffer)
      else let b = rx_byte buffer 0; buffer' = rx_advance buffer 1 in
        if b \<noteq> CBOR_FALSE \<and> b \<noteq> CBOR_TRUE then (Inl DPS_ERR_INVALID, buffer')
        else (Inr (bit b 0), buffer'))"

definition IntLengths :: "nat list" where
  "IntLengths = [1,1,1,1,1,1,1,1,1,1,1,1,1,1,1,1,1,1,1,1,1,1,1,1,2,3,5,9,0,0,0,0]"

text \<open>\<^verbatim>\<open>(uint64_t)p[k] << s\<close>\<close>

definition shl_byte :: "DPS_RxBuffer \<Rightarrow> nat \<Rightarrow> nat \<Rightarrow> u64" where
  "shl_byte buffer k s = push_bit s (ucast (rx_byte buffer k))"

text \<open>\<open>PeekUint\<close> yields the value, the major type and the number of header bytes.\<close>

definition PeekUint :: "DPS_RxBuffer \<Rightarrow> (u64 \<times> u8 \<times> nat) res" where
  "PeekUint buffer =
     (let avail = DPS_RxBufferAvail buffer in
      if avail < 1 then Inl DPS_ERR_EOD
      else let b = rx_byte buffer 0; maj = b AND 0xE0; info = b AND 0x1F;
               len = IntLengths ! unat info in
        if avail < len then Inl DPS_ERR_EOD
        else if len = 1 then Inr (ucast info, maj, len)
        else if len = 2 then Inr (shl_byte buffer 1 0, maj, len)
        else if len = 3 then Inr (shl_byte buffer 1 8 OR shl_byte buffer 2 0, maj, len)
        else if len = 5 then
          Inr (shl_byte buffer 1 24 OR shl_byte buffer 2 16 OR shl_byte buffer 3 8
               OR shl_byte buffer 4 0, maj, len)
        else if len = 9 then
          Inr (shl_byte buffer 1 56 OR shl_byte buffer 2 48 OR shl_byte buffer 3 40
               OR shl_byte buffer 4 32 OR shl_byte buffer 5 24 OR shl_byte buffer 6 16
               OR shl_byte buffer 7 8 OR shl_byte buffer 8 0, maj, len)
        else Inl DPS_ERR_INVALID)"

definition DecodeUint :: "DPS_RxBuffer \<Rightarrow> u8 \<Rightarrow> u64 res \<times> DPS_RxBuffer" where
  "DecodeUint buffer expectMaj =
     (case PeekUint buffer of
        Inl e \<Rightarrow> (Inl e, buffer)
      | Inr (n, maj, len) \<Rightarrow>
          if maj \<noteq> expectMaj then (Inl DPS_ERR_INVALID, buffer)
          else (Inr n, rx_advance buffer len))"

definition CBOR_DecodeUint :: "DPS_RxBuffer \<Rightarrow> u64 res \<times> DPS_RxBuffer" where
  "CBOR_DecodeUint buffer = DecodeUint buffer CBOR_UINT"

definition CBOR_DecodeUint8 :: "DPS_RxBuffer \<Rightarrow> u8 res \<times> DPS_RxBuffer" where
  "CBOR_DecodeUint8 buffer =
     and_then (DecodeUint buffer CBOR_UINT)
       (\<lambda>u64 b. if u64 > 255 then (Inl DPS_ERR_RANGE, b) else (Inr (ucast u64), b))"

definition CBOR_DecodeUint16 :: "DPS_RxBuffer \<Rightarrow> u16 res \<times> DPS_RxBuffer" where
  "CBOR_DecodeUint16 buffer =
     and_then (DecodeUint buffer CBOR_UINT)
       (\<lambda>u64 b. if u64 > 65535 then (Inl DPS_ERR_RANGE, b) else (Inr (ucast u64), b))"

definition CBOR_DecodeUint32 :: "DPS_RxBuffer \<Rightarrow> u32 res \<times> DPS_RxBuffer" where
  "CBOR_DecodeUint32 buffer =
     and_then (DecodeUint buffer CBOR_UINT)
       (\<lambda>u64 b. if u64 > 4294967295 then (Inl DPS_ERR_RANGE, b) else (Inr (ucast u64), b))"

definition CBOR_DecodeInt :: "DPS_RxBuffer \<Rightarrow> u64 res \<times> DPS_RxBuffer" where
  "CBOR_DecodeInt buffer =
     (case PeekUint buffer of
        Inl e \<Rightarrow> (Inl e, buffer)
      | Inr (n, maj, len) \<Rightarrow>
          if maj = CBOR_UINT then
            (if sint n < 0 then (Inl DPS_ERR_INVALID, buffer)
             else (Inr n, rx_advance buffer len))
          else if maj = CBOR_NEG then
            (if sint (NOT n) > 0 then (Inl DPS_ERR_INVALID, buffer)
             else (Inr (NOT n), rx_advance buffer len))
          else (Inl DPS_ERR_INVALID, buffer))"

definition CBOR_DecodeInt8 :: "DPS_RxBuffer \<Rightarrow> u8 res \<times> DPS_RxBuffer" where
  "CBOR_DecodeInt8 buffer =
     and_then (CBOR_DecodeInt buffer)
       (\<lambda>i64 b. if sint i64 < -128 \<or> sint i64 > 127 then (Inl DPS_ERR_RANGE, b)
                else (Inr (ucast i64), b))"

definition CBOR_DecodeInt16 :: "DPS_RxBuffer \<Rightarrow> u16 res \<times> DPS_RxBuffer" where
  "CBOR_DecodeInt16 buffer =
     and_then (CBOR_DecodeInt buffer)
       (\<lambda>i64 b. if sint i64 < -32768 \<or> sint i64 > 32767 then (Inl DPS_ERR_RANGE, b)
                else (Inr (ucast i64), b))"

definition CBOR_DecodeInt32 :: "DPS_RxBuffer \<Rightarrow> u32 res \<times> DPS_RxBuffer" where
  "CBOR_DecodeInt32 buffer =
     and_then (CBOR_DecodeInt buffer)
       (\<lambda>i64 b. if sint i64 < -2147483648 \<or> sint i64 > 2147483647 then (Inl DPS_ERR_RANGE, b)
                else (Inr (ucast i64), b))"

text \<open>The decoded data pointer is the bytes it points to; NULL for a length of 0 is \<open>[]\<close>.\<close>

definition CBOR_DecodeBytes :: "DPS_RxBuffer \<Rightarrow> u8 list res \<times> DPS_RxBuffer" where
  "CBOR_DecodeBytes buffer =
     and_then (DecodeUint buffer CBOR_BYTES)
       (\<lambda>len b.
          if unat len > DPS_RxBufferAvail b \<or> unat len > SIZE_MAX then (Inl DPS_ERR_INVALID, b)
          else if len \<noteq> 0 then (Inr (take (unat len) (rx_rem b)), rx_advance b (unat len))
          else (Inr [], b))"

definition CBOR_DecodeString :: "DPS_RxBuffer \<Rightarrow> u8 list res \<times> DPS_RxBuffer" where
  "CBOR_DecodeString buffer =
     and_then (DecodeUint buffer CBOR_STRING)
       (\<lambda>len b.
          if unat len > DPS_RxBufferAvail b \<or> unat len > SIZE_MAX then (Inl DPS_ERR_INVALID, b)
          else if len > 0 then (Inr (take (unat len) (rx_rem b)), rx_advance b (unat len))
          else (Inr [], b))"

definition CBOR_DecodeArray :: "DPS_RxBuffer \<Rightarrow> nat res \<times> DPS_RxBuffer" where
  "CBOR_DecodeArray buffer =
     and_then (DecodeUint buffer CBOR_ARRAY)
       (\<lambda>len b. if unat len > SIZE_MAX then (Inl DPS_ERR_INVALID, b) else (Inr (unat len), b))"

definition CBOR_DecodeMap :: "DPS_RxBuffer \<Rightarrow> nat res \<times> DPS_RxBuffer" where
  "CBOR_DecodeMap buffer =
     and_then (DecodeUint buffer CBOR_MAP)
       (\<lambda>len b. if unat len > SIZE_MAX then (Inl DPS_ERR_INVALID, b) else (Inr (unat len), b))"

definition CBOR_DecodeTag :: "DPS_RxBuffer \<Rightarrow> u64 res \<times> DPS_RxBuffer" where
  "CBOR_DecodeTag buffer =
     (case DecodeUint buffer CBOR_TAG of
        (Inr n, b) \<Rightarrow> (Inr n, b)
      | (Inl e, b) \<Rightarrow> (Inl e, b\<lparr>rxPos := rxPos buffer\<rparr>))"

text \<open>
  The conversions between the floating-point and integer types of the platform are parameters of
  the float decoders. On \<open>DPS_ERR_LOST_PRECISION\<close> the output parameter is written too, so the
  result pairs the status with what was written.
\<close>

record fp_conv =
  double_to_float :: "u64 \<Rightarrow> u32"
  float_to_double :: "u32 \<Rightarrow> u64"
  fabs_exceeds_FLT_MAX :: "u64 \<Rightarrow> bool"
  double_neq :: "u64 \<Rightarrow> u64 \<Rightarrow> bool"
  u64_to_float :: "u64 \<Rightarrow> u32"
  float_to_u64 :: "u32 \<Rightarrow> u64"
  i64_to_float :: "u64 \<Rightarrow> u32"
  float_to_i64 :: "u32 \<Rightarrow> u64"
  u64_to_double :: "u64 \<Rightarrow> u64"
  double_to_u64 :: "u64 \<Rightarrow> u64"
  i64_to_double :: "u64 \<Rightarrow> u64"
  double_to_i64 :: "u64 \<Rightarrow> u64"

definition float_payload :: "DPS_RxBuffer \<Rightarrow> (DPS_Status \<times> u32 option) \<times> DPS_RxBuffer" where
  "float_payload buffer =
     (if DPS_RxBufferAvail buffer < 5 then ((DPS_ERR_EOD, None), buffer)
      else ((DPS_OK, Some (push_bit 24 (ucast (rx_byte buffer 1)) OR push_bit 16 (ucast (rx_byte buffer 2))
              OR push_bit 8 (ucast (rx_byte buffer 3)) OR ucast (rx_byte buffer 4))),
            rx_advance buffer 5))"

definition double_payload :: "DPS_RxBuffer \<Rightarrow> (DPS_Status \<times> u64 option) \<times> DPS_RxBuffer" where
  "double_payload buffer =
     (if DPS_RxBufferAvail buffer < 9 then ((DPS_ERR_EOD, None), buffer)
      else ((DPS_OK, Some (shl_byte buffer 1 56 OR shl_byte buffer 2 48 OR shl_byte buffer 3 40
               OR shl_byte buffer 4 32 OR shl_byte buffer 5 24 OR shl_byte buffer 6 16
               OR shl_byte buffer 7 8 OR shl_byte buffer 8 0)),
            rx_advance buffer 9))"

text \<open>
  In the source the two decoders call each other, but each calls the other only when the initial
  byte announces the other's format, so the call takes the direct path.
\<close>

definition CBOR_DecodeFloat ::
  "fp_conv \<Rightarrow> DPS_RxBuffer \<Rightarrow> (DPS_Status \<times> u32 option) \<times> DPS_RxBuffer" where
  "CBOR_DecodeFloat fp buffer =
     (if DPS_RxBufferAvail buffer < 1 then ((DPS_ERR_EOD, None), buffer)
      else let p = rx_byte buffer 0; maj = p AND 0xE0 in
        if p = CBOR_FLOAT then float_payload buffer
        else if p = CBOR_DOUBLE then
          (case double_payload buffer of
             ((_, Some d), b) \<Rightarrow>
               if fabs_exceeds_FLT_MAX fp d then ((DPS_ERR_RANGE, None), b)
               else let f = double_to_float fp d in
                 if double_neq fp d (float_to_double fp f)
                 then ((DPS_ERR_LOST_PRECISION, Some f), b) else ((DPS_OK, Some f), b)
           | ((e, None), b) \<Rightarrow> ((e, None), b))
        else if maj = CBOR_UINT then
          (case CBOR_DecodeUint buffer of
             (Inl e, b) \<Rightarrow> ((e, None), b)
           | (Inr u, b) \<Rightarrow> let f = u64_to_float fp u in
               if float_to_u64 fp f \<noteq> u then ((DPS_ERR_LOST_PRECISION, Some f), b)
               else ((DPS_OK, Some f), b))
        else if maj = CBOR_NEG then
          (case CBOR_DecodeInt buffer of
             (Inl e, b) \<Rightarrow> ((e, None), b)
           | (Inr i, b) \<Rightarrow> let f = i64_to_float fp i in
               if float_to_i64 fp f \<noteq> i then ((DPS_ERR_LOST_PRECISION, Some f), b)
               else ((DPS_OK, Some f), b))
        else ((DPS_ERR_INVALID, None), buffer))"

definition CBOR_DecodeDouble ::
  "fp_conv \<Rightarrow> DPS_RxBuffer \<Rightarrow> (DPS_Status \<times> u64 option) \<times> DPS_RxBuffer" where
  "CBOR_DecodeDouble fp buffer =
     (if DPS_RxBufferAvail buffer < 1 then ((DPS_ERR_EOD, None), buffer)
      else let p = rx_byte buffer 0; maj = p AND 0xE0 in
        if p = CBOR_DOUBLE then double_payload buffer
        else if p = CBOR_FLOAT then
          (case float_payload buffer of
             ((e, Some f), b) \<Rightarrow> ((e, Some (float_to_double fp f)), b)
           | ((e, None), b) \<Rightarrow> ((e, None), b))
        else if maj = CBOR_UINT then
          (case CBOR_DecodeUint buffer of
             (Inl e, b) \<Rightarrow> ((e, None), b)
           | (Inr u, b) \<Rightarrow> let d = u64_to_double fp u in
               if double_to_u64 fp d \<noteq> u then ((DPS_ERR_LOST_PRECISION, Some d), b)
               else ((DPS_OK, Some d), b))
        else if maj = CBOR_NEG then
          (case CBOR_DecodeInt buffer of
             (Inl e, b) \<Rightarrow> ((e, None), b)
           | (Inr i, b) \<Rightarrow> let d = i64_to_double fp i in
               if double_to_i64 fp d \<noteq> i then ((DPS_ERR_LOST_PRECISION, Some d), b)
               else ((DPS_OK, Some d), b))
        else ((DPS_ERR_INVALID, None), buffer))"

definition CBOR_DecodeUUID :: "DPS_RxBuffer \<Rightarrow> u8 list res \<times> DPS_RxBuffer" where
  "CBOR_DecodeUUID buffer =
     and_then (CBOR_DecodeBytes buffer)
       (\<lambda>bytes b. if length bytes \<noteq> 16 then (Inl DPS_ERR_INVALID, b) else (Inr bytes, b))"

text \<open>\<open>majOut\<close> tells whether the caller passed a pointer for the major type (it is required);
  \<open>CBOR_Peek\<close> yields the major type and the info.\<close>

definition CBOR_Peek :: "DPS_RxBuffer \<Rightarrow> bool \<Rightarrow> (u8 \<times> u64) res" where
  "CBOR_Peek buffer majOut =
     (let avail = DPS_RxBufferAvail buffer in
      if avail < 1 then Inl DPS_ERR_EOD
      else if \<not> majOut then Inl DPS_ERR_ARGS
      else case PeekUint buffer of
          Inl e \<Rightarrow> Inl e
        | Inr (info, maj, len) \<Rightarrow>
            if MAJOR_ENCODES_LENGTH maj \<and> unat info \<ge> avail then Inl DPS_ERR_INVALID
            else Inr (maj, info))"

text \<open>
  \<open>CBOR_EndWrapBytes\<close> moves the payload of a wrapped byte string when its length header needs
  another size than the hint. Writing outside the storage of the buffer is undefined behaviour in
  C and is the outcome \<open>None\<close> here; reading the header past the storage is \<open>None\<close> too.
\<close>

definition mem_write :: "nat \<Rightarrow> u8 list \<Rightarrow> u8 list \<Rightarrow> u8 list option" where
  "mem_write i bs mem =
     (if i + length bs \<le> length mem then Some (overwrite i bs mem) else None)"

definition memmove_s :: "u8 list \<Rightarrow> nat \<Rightarrow> nat \<Rightarrow> nat \<Rightarrow> nat \<Rightarrow> (bool \<times> u8 list) option" where
  "memmove_s mem dest dmax src n =
     (if n \<le> dmax then map_option (Pair True) (mem_write dest (take n (drop src mem)) mem)
      else map_option (Pair False) (mem_write dest (replicate dmax 0) mem))"

definition CBOR_EndWrapBytes ::
  "DPS_TxBuffer \<Rightarrow> nat \<Rightarrow> (DPS_Status \<times> DPS_TxBuffer) option" where
  "CBOR_EndWrapBytes buffer wrapPtr =
     (let rx = DPS_RxBufferInit (drop wrapPtr (tx_base buffer)) CBOR_MAX_LENGTH in
      case DecodeUint rx CBOR_BYTES of
        (Inl e, _) \<Rightarrow> if e = DPS_ERR_EOD then None else Some (DPS_ERR_INVALID, buffer)
      | (Inr hint, rx') \<Rightarrow>
          let start = wrapPtr + rxPos rx';
              actual = (txPos buffer + 2 ^ 64 - start) mod 2 ^ 64;
              need = Requires (word_of_nat actual);
              finish = (\<lambda>b. case CBOR_ReserveBytes (b\<lparr>txPos := wrapPtr\<rparr>) actual of
                              (Inl e, b') \<Rightarrow> Some (e, b')
                            | (Inr _, b') \<Rightarrow> Some (DPS_OK, b'))
          in if need \<noteq> Requires hint \<and> actual \<noteq> 0 then
               (let b = buffer\<lparr>txPos := wrapPtr + need\<rparr> in
                case memmove_s (tx_base b) (start + need - Requires hint) (DPS_TxBufferSpace b)
                       start actual of
                  None \<Rightarrow> None
                | Some (False, mem) \<Rightarrow> Some (DPS_ERR_RESOURCES, b\<lparr>tx_base := mem\<rparr>)
                | Some (True, mem) \<Rightarrow> finish (b\<lparr>tx_base := mem\<rparr>))
             else finish buffer)"

definition is_major :: "u8 \<Rightarrow> bool" where
  "is_major maj \<longleftrightarrow> maj AND 0x1F = 0"

lemma is_major_consts [simp]:
  "is_major CBOR_UINT" "is_major CBOR_NEG" "is_major CBOR_BYTES" "is_major CBOR_STRING"
  "is_major CBOR_ARRAY" "is_major CBOR_MAP" "is_major CBOR_TAG" "is_major CBOR_OTHER"
  by (simp_all add: is_major_def cbor_consts)

lemma length_uint_bytes [simp]: "length (uint_bytes n maj) = Requires n + 1"
  by (simp add: uint_bytes_def Requires_def)

lemma major_low:
  assumes "is_major maj" "take_bit 5 k = k"
  shows "(maj OR k) AND 0xE0 = maj" "(maj OR k) AND 0x1F = k"
proof -
  have F: "bit (0x1F::u8) i \<longleftrightarrow> i < 5" if "i < 8" for i
    using that by (auto simp: less_Suc_eq numeral_eq_Suc)
  have E: "bit (0xE0::u8) i \<longleftrightarrow> \<not> i < 5" if "i < 8" for i
    using that by (auto simp: less_Suc_eq numeral_eq_Suc)
  have "bit (maj AND 0x1F) i = bit (0::u8) i" for i
    using assms(1) by (simp add: is_major_def)
  then have m: "bit maj i \<Longrightarrow> i < 8 \<Longrightarrow> \<not> i < 5" for i
    using F by (auto simp: bit_and_iff)
  have k: "bit k i \<Longrightarrow> i < 5" for i
    using assms(2) by (metis bit_take_bit_iff)
  show "(maj OR k) AND 0xE0 = maj" "(maj OR k) AND 0x1F = k"
    by (rule bit_word_eqI, use m k E F in \<open>auto simp: bit_and_iff bit_or_iff\<close>)+
qed

lemma bit_shifted_byte:
  "bit (push_bit s (ucast (byte_at n s)) :: u64) i \<longleftrightarrow> s \<le> i \<and> i < s + 8 \<and> bit n i"
  by (auto simp: byte_at_def bit_simps dest: bit_imp_le_length)

lemma byte_splits:
  "unat n < 2 ^ 8 \<Longrightarrow> push_bit 0 (ucast (byte_at n 0)) = n"
  "unat n < 2 ^ 16 \<Longrightarrow> push_bit 8 (ucast (byte_at n 8)) OR push_bit 0 (ucast (byte_at n 0)) = n"
  "unat n < 2 ^ 32 \<Longrightarrow>
     push_bit 24 (ucast (byte_at n 24)) OR push_bit 16 (ucast (byte_at n 16))
     OR push_bit 8 (ucast (byte_at n 8)) OR push_bit 0 (ucast (byte_at n 0)) = n"
  "push_bit 56 (ucast (byte_at n 56)) OR push_bit 48 (ucast (byte_at n 48))
     OR push_bit 40 (ucast (byte_at n 40)) OR push_bit 32 (ucast (byte_at n 32))
     OR push_bit 24 (ucast (byte_at n 24)) OR push_bit 16 (ucast (byte_at n 16))
     OR push_bit 8 (ucast (byte_at n 8)) OR push_bit 0 (ucast (byte_at n 0)) = n"
  by (rule bit_word_eqI, unfold bit_or_iff bit_shifted_byte,
      use word_bit_bounded in \<open>fastforce dest: bit_imp_le_length\<close>)+

lemma Requires_unat:
  "Requires n = (if unat n < 24 then 0 else if unat n < 2 ^ 8 then 1
     else if unat n < 2 ^ 16 then 2 else if unat n < 2 ^ 32 then 4 else 8)"
  unfolding Requires_def word_less_nat_alt word_le_nat_alt by simp

lemma Requires_cases:
  obtains (zero) "Requires n = 0" "unat n < 24" | (one) "Requires n = 1" "unat n < 2 ^ 8"
  | (two) "Requires n = 2" "unat n < 2 ^ 16" | (four) "Requires n = 4" "unat n < 2 ^ 32"
  | (eight) "Requires n = 8"
  using that Requires_unat [of n] by (simp split: if_splits)

lemma IntLengths_nth [simp]:
  "k < 24 \<Longrightarrow> IntLengths ! k = 1"
  "IntLengths ! 24 = 2" "IntLengths ! 25 = 3" "IntLengths ! 26 = 5" "IntLengths ! 27 = 9"
proof -
  assume "k < 24"
  then have "k \<in> set [0..<24]" by simp
  then show "IntLengths ! k = 1"
    unfolding IntLengths_def by (auto simp: upt_rec)
qed (simp_all add: IntLengths_def)

lemma PeekUint_uint_bytes:
  assumes wf: "rx_wf b" and rem: "rx_rem b = uint_bytes n maj @ rest" and maj: "is_major maj"
  shows "PeekUint b = Inr (n, maj, Requires n + 1)"
proof -
  have byte: "rx_byte b k = uint_bytes n maj ! k" if "k \<le> Requires n" for k
    using rx_byte_append [OF rem, of k] that by simp
  have avail: "DPS_RxBufferAvail b = Requires n + 1 + length rest"
    using wf rem by simp
  show ?thesis
  proof (cases n rule: Requires_cases)
    case zero
    have "unat (byte_at n 0) = unat n"
      using zero(2) by (simp add: byte_at_def unsigned_ucast_eq take_bit_nat_eq_self)
    moreover from this zero have "take_bit 5 (byte_at n 0) = byte_at n 0"
      by (simp add: word_take_bit_eq_self_iff)
    moreover have "ucast (byte_at n 0) = n" using byte_splits(1) [of n] zero by simp
    ultimately show ?thesis
      using zero byte [of 0] avail major_low [OF maj, of "byte_at n 0"]
      by (simp add: PeekUint_def uint_bytes_def)
  next
    case one
    then show ?thesis
      using byte [of 0] byte [of 1] avail major_low [OF maj, of 24] byte_splits(1) [of n]
      by (simp add: PeekUint_def uint_bytes_def shl_byte_def cbor_consts)
  next
    case two
    then show ?thesis
      using byte [of 0] byte [of 1] byte [of 2] avail major_low [OF maj, of 25] byte_splits(2) [of n]
      by (simp add: PeekUint_def uint_bytes_def shl_byte_def cbor_consts)
  next
    case four
    then show ?thesis
      using byte [of 0] byte [of 1] byte [of 2] byte [of 3] byte [of 4] avail
        major_low [OF maj, of 26] byte_splits(3) [of n]
      by (simp add: PeekUint_def uint_bytes_def shl_byte_def cbor_consts)
  next
    case eight
    then show ?thesis
      using byte [of 0] byte [of 1] byte [of 2] byte [of 3] byte [of 4] byte [of 5] byte [of 6]
        byte [of 7] byte [of 8] avail major_low [OF maj, of 27] byte_splits(4) [of n]
      by (simp add: PeekUint_def uint_bytes_def shl_byte_def cbor_consts)
  qed
qed

lemma DecodeUint_uint_bytes:
  assumes "rx_wf b" "rx_rem b = uint_bytes n maj @ rest" "is_major maj"
  shows "DecodeUint b maj = (Inr n, rx_advance b (Requires n + 1))"
  using PeekUint_uint_bytes [OF assms] by (simp add: DecodeUint_def)

section \<open>Readers stay inside the received data\<close>

definition rx_follows :: "DPS_RxBuffer \<Rightarrow> DPS_RxBuffer \<Rightarrow> bool" where
  "rx_follows b b' \<longleftrightarrow>
     rx_base b' = rx_base b \<and> rxPos b \<le> rxPos b' \<and> rxPos b' \<le> length (rx_base b)"

lemma rx_follows_refl [simp]: "rx_wf b \<Longrightarrow> rx_follows b b"
  by (simp add: rx_follows_def rx_wf_def)

lemma rx_follows_trans: "rx_follows a b \<Longrightarrow> rx_follows b c \<Longrightarrow> rx_follows a c"
  by (auto simp: rx_follows_def)

lemma rx_follows_wf: "rx_follows b b' \<Longrightarrow> rx_wf b \<Longrightarrow> rx_wf b'"
  by (auto simp: rx_follows_def rx_wf_def)

lemma rx_follows_advance: "rx_wf b \<Longrightarrow> n \<le> length (rx_rem b) \<Longrightarrow> rx_follows b (rx_advance b n)"
  by (auto simp: rx_follows_def rx_wf_def rx_rem_def)

lemma PeekUint_len:
  "PeekUint b = Inr (n, maj, len) \<Longrightarrow> 1 \<le> len \<and> len \<le> DPS_RxBufferAvail b"
  by (auto simp: PeekUint_def Let_def split: if_splits)

text \<open>Repeated reading and writing of items.\<close>

primrec dec_all :: "('s \<Rightarrow> 'a res \<times> 's) \<Rightarrow> nat \<Rightarrow> 's \<Rightarrow> 'a list res \<times> 's" where
  "dec_all dec 0 b = (Inr [], b)"
| "dec_all dec (Suc n) b =
     and_then (dec b) (\<lambda>x b'. and_then (dec_all dec n b') (\<lambda>xs b''. (Inr (x # xs), b'')))"

primrec enc_all :: "('s \<Rightarrow> 'a \<Rightarrow> DPS_Status \<times> 's) \<Rightarrow> 's \<Rightarrow> 'a list \<Rightarrow> DPS_Status \<times> 's" where
  "enc_all enc b [] = (DPS_OK, b)"
| "enc_all enc b (x # xs) = ok_then (enc b x) (\<lambda>b'. enc_all enc b' xs)"

locale rx_reader =
  fixes dec :: "DPS_RxBuffer \<Rightarrow> 'a res \<times> DPS_RxBuffer"
  assumes dec_follows: "rx_wf b \<Longrightarrow> rx_follows b (snd (dec b))"
begin

lemma dec_wf: "rx_wf b \<Longrightarrow> rx_wf (snd (dec b))"
  using dec_follows rx_follows_wf by blast

lemma dec_all_follows: "rx_wf b \<Longrightarrow> rx_follows b (snd (dec_all dec n b))"
proof (induction n arbitrary: b)
  case (Suc n)
  obtain r b' where d: "dec b = (r, b')" by (cases "dec b")
  have f: "rx_follows b b'" and w: "rx_wf b'"
    using dec_follows [OF Suc.prems] dec_wf [OF Suc.prems] d by simp_all
  from Suc.IH [OF w] f show ?case
    by (auto simp: d and_then_def split: sum.splits prod.splits dest: rx_follows_trans)
qed simp

end

section \<open>The codec interface\<close>

text \<open>
  What the users of \<^verbatim>\<open>cbor.c\<close> rely on for an item type: on the values of its domain the
  encoder appends exactly the image of the value or reports an overflow without touching what was
  written before, and the decoder, on the image followed by anything, returns the value and stops
  right behind it.
\<close>

locale cbor_codec = rx_reader dec
  for dec :: "DPS_RxBuffer \<Rightarrow> 'a res \<times> DPS_RxBuffer" +
  fixes enc :: "DPS_TxBuffer \<Rightarrow> 'a \<Rightarrow> DPS_Status \<times> DPS_TxBuffer"
    and img :: "'a \<Rightarrow> u8 list"
    and domain :: "'a \<Rightarrow> bool"
  assumes enc_fits:
      "tx_wf b \<Longrightarrow> domain x \<Longrightarrow> length (img x) \<le> DPS_TxBufferSpace b \<Longrightarrow>
       enc b x = (DPS_OK, tx_put b (img x))"
    and enc_overflow:
      "tx_wf b \<Longrightarrow> domain x \<Longrightarrow> DPS_TxBufferSpace b < length (img x) \<Longrightarrow>
       fst (enc b x) = DPS_ERR_OVERFLOW \<and> take (txPos b) (tx_base (snd (enc b x))) = tx_out b"
    and dec_img:
      "rx_wf r \<Longrightarrow> domain x \<Longrightarrow> rx_rem r = img x @ rest \<Longrightarrow>
       dec r = (Inr x, rx_advance r (length (img x)))"
begin

lemma enc_OK_iff:
  "tx_wf b \<Longrightarrow> domain x \<Longrightarrow>
   fst (enc b x) = DPS_OK \<longleftrightarrow> length (img x) \<le> DPS_TxBufferSpace b"
  using enc_fits enc_overflow by (metis DPS_Status.distinct(17) fst_conv not_le)

lemma enc_OK_D:
  "tx_wf b \<Longrightarrow> domain x \<Longrightarrow> enc b x = (DPS_OK, b') \<Longrightarrow>
   b' = tx_put b (img x) \<and> tx_wf b' \<and> tx_out b' = tx_out b @ img x"
  using enc_OK_iff [of b x] enc_fits [of b x] by (auto intro: tx_wf_put)

lemma enc_all_OK_D:
  "tx_wf b \<Longrightarrow> \<forall>x\<in>set xs. domain x \<Longrightarrow> enc_all enc b xs = (DPS_OK, b') \<Longrightarrow>
   tx_wf b' \<and> tx_out b' = tx_out b @ concat (map img xs)"
proof (induction xs arbitrary: b)
  case (Cons x xs)
  then obtain b1 where b1: "enc b x = (DPS_OK, b1)" "enc_all enc b1 xs = (DPS_OK, b')"
    by (auto simp: ok_then_OK_iff)
  with enc_OK_D [of b x b1] Cons.prems have "tx_wf b1" "tx_out b1 = tx_out b @ img x" by auto
  with Cons.IH [of b1] b1 Cons.prems show ?case by simp
qed simp

lemma dec_all_img:
  "rx_wf r \<Longrightarrow> \<forall>x\<in>set xs. domain x \<Longrightarrow> rx_rem r = concat (map img xs) @ rest \<Longrightarrow>
   dec_all dec (length xs) r = (Inr xs, rx_advance r (length (concat (map img xs))))"
proof (induction xs arbitrary: r)
  case (Cons x xs)
  have d: "dec r = (Inr x, rx_advance r (length (img x)))"
    using Cons.prems by (intro dec_img) auto
  have "rx_wf (rx_advance r (length (img x)))"
    using Cons.prems by (intro rx_wf_advance) auto
  moreover have "rx_rem (rx_advance r (length (img x))) = concat (map img xs) @ rest"
    using Cons.prems by simp
  ultimately show ?case using Cons.IH Cons.prems by (simp add: d)
qed simp

lemma roundtrip_at:
  assumes "tx_wf b" "domain x" "enc b x = (DPS_OK, b')"
    and "rx_wf r" "rx_rem r = drop (txPos b) (tx_out b') @ rest"
  shows "dec r = (Inr x, rx_advance r (txPos b' - txPos b))"
proof -
  from enc_OK_D [OF assms(1-3)] have b': "b' = tx_put b (img x)" and out: "tx_out b' = tx_out b @ img x"
    by auto
  have "drop (txPos b) (tx_out b') = img x"
    using assms(1) by (simp add: out length_tx_out)
  with dec_img [OF assms(4,2)] assms(5) show ?thesis by (simp add: b' tx_put_def)
qed

lemma encode_all_decode_all:
  assumes "tx_wf b" "txPos b = 0" "\<forall>x\<in>set xs. domain x" "enc_all enc b xs = (DPS_OK, b')"
  shows "fst (dec_all dec (length xs) (DPS_TxBufferToRx b')) = Inr xs"
proof -
  from enc_all_OK_D [OF assms(1,3,4)] have wf: "tx_wf b'" and out: "tx_out b' = concat (map img xs) @ []"
    using assms(2) by (auto simp: tx_out_def)
  with rx_of_tx [OF wf] show ?thesis
    using dec_all_img [of "DPS_TxBufferToRx b'" xs "[]"] assms(3) by auto
qed

end

section \<open>The item types of cbor.c implement the interface\<close>

lemma DecodeUint_follows: "rx_wf b \<Longrightarrow> rx_follows b (snd (DecodeUint b m))"
  using PeekUint_len [of b] rx_avail [of b]
  by (auto simp: DecodeUint_def split: sum.splits intro!: rx_follows_advance)

lemma CBOR_DecodeInt_follows: "rx_wf b \<Longrightarrow> rx_follows b (snd (CBOR_DecodeInt b))"
  using PeekUint_len [of b] rx_avail [of b]
  by (auto simp: CBOR_DecodeInt_def split: sum.splits intro!: rx_follows_advance)

lemma and_then_follows:
  assumes "rx_follows b (snd m)"
    and "\<And>x b'. m = (Inr x, b') \<Longrightarrow> rx_follows b b' \<Longrightarrow> rx_follows b' (snd (f x b'))"
  shows "rx_follows b (snd (and_then m f))"
  using assms by (auto simp: and_then_def split: prod.splits sum.splits dest: rx_follows_trans)

lemma take_follows:
  "rx_wf b \<Longrightarrow> n \<le> DPS_RxBufferAvail b \<Longrightarrow> rx_follows b (rx_advance b n)"
  by (simp add: rx_follows_advance)

lemmas reader_defs =
  CBOR_DecodeUint_def CBOR_DecodeUint8_def CBOR_DecodeUint16_def CBOR_DecodeUint32_def
  CBOR_DecodeInt8_def CBOR_DecodeInt16_def CBOR_DecodeInt32_def CBOR_DecodeBytes_def
  CBOR_DecodeString_def CBOR_DecodeArray_def CBOR_DecodeMap_def CBOR_DecodeUUID_def

lemma decode_follows:
  assumes "rx_wf b"
  shows "rx_follows b (snd (CBOR_DecodeUint b))" "rx_follows b (snd (CBOR_DecodeUint8 b))"
    "rx_follows b (snd (CBOR_DecodeUint16 b))" "rx_follows b (snd (CBOR_DecodeUint32 b))"
    "rx_follows b (snd (CBOR_DecodeInt8 b))" "rx_follows b (snd (CBOR_DecodeInt16 b))"
    "rx_follows b (snd (CBOR_DecodeInt32 b))" "rx_follows b (snd (CBOR_DecodeBytes b))"
    "rx_follows b (snd (CBOR_DecodeString b))" "rx_follows b (snd (CBOR_DecodeArray b))"
    "rx_follows b (snd (CBOR_DecodeMap b))"
  unfolding reader_defs
  by ((intro and_then_follows DecodeUint_follows CBOR_DecodeInt_follows assms;
       auto dest: rx_follows_wf [OF _ assms] intro: take_follows))+

lemma CBOR_DecodeUUID_follows: "rx_wf b \<Longrightarrow> rx_follows b (snd (CBOR_DecodeUUID b))"
  unfolding CBOR_DecodeUUID_def
  by (rule and_then_follows) (auto intro: decode_follows dest: rx_follows_wf)

lemma CBOR_DecodeTag_follows: "rx_wf b \<Longrightarrow> rx_follows b (snd (CBOR_DecodeTag b))"
  using DecodeUint_follows [of b CBOR_TAG]
  by (auto simp: CBOR_DecodeTag_def rx_follows_def rx_wf_def split: prod.splits sum.splits)

lemma CBOR_DecodeBoolean_follows: "rx_wf b \<Longrightarrow> rx_follows b (snd (CBOR_DecodeBoolean b))"
  by (cases "rx_rem b") (auto simp: CBOR_DecodeBoolean_def Let_def intro!: rx_follows_advance)

lemma EncodeUint_fits:
  "Requires n + 1 \<le> DPS_TxBufferSpace b \<Longrightarrow> EncodeUint b n m = (DPS_OK, tx_put b (uint_bytes n m))"
  by (simp add: EncodeUint_def)

lemma EncodeUint_overflow:
  "DPS_TxBufferSpace b < Requires n + 1 \<Longrightarrow> EncodeUint b n m = (DPS_ERR_OVERFLOW, b)"
  by (simp add: EncodeUint_def)

lemma unat_len32 [simp]: "n < 2 ^ 32 \<Longrightarrow> unat (len32 n) = n"
  by (simp add: len32_def unsigned_of_nat take_bit_nat_eq_self)

lemma len32_eq_0 [simp]: "n < 2 ^ 32 \<Longrightarrow> len32 n = 0 \<longleftrightarrow> n = 0"
  by (metis unat_len32 unat_eq_zero unsigned_0)

lemma not_SIZE_MAX_less [simp]: "\<not> SIZE_MAX < unat (w :: u64)"
proof -
  have "unat w < 2 ^ 64" by (rule order_less_le_trans [OF unsigned_less]) simp
  then show ?thesis by (simp add: SIZE_MAX_def)
qed

interpretation uint: cbor_codec CBOR_DecodeUint CBOR_EncodeUint "\<lambda>n. uint_bytes n CBOR_UINT" "\<lambda>_. True"
proof (unfold_locales, goal_cases)
  case 1 then show ?case by (rule decode_follows)
qed (auto simp: CBOR_EncodeUint_def EncodeUint_fits EncodeUint_overflow tx_out_def CBOR_DecodeUint_def DecodeUint_uint_bytes)

interpretation tag: cbor_codec CBOR_DecodeTag CBOR_EncodeTag "\<lambda>n. uint_bytes n CBOR_TAG" "\<lambda>_. True"
proof (unfold_locales, goal_cases)
  case 1 then show ?case by (rule CBOR_DecodeTag_follows)
qed (auto simp: CBOR_EncodeTag_def EncodeUint_fits EncodeUint_overflow tx_out_def CBOR_DecodeTag_def DecodeUint_uint_bytes)

interpretation array: cbor_codec CBOR_DecodeArray CBOR_EncodeArray
  "\<lambda>n. uint_bytes (len32 n) CBOR_ARRAY" "\<lambda>n. n < 2 ^ 32"
proof (unfold_locales, goal_cases)
  case 1 then show ?case by (rule decode_follows)
qed (auto simp: CBOR_EncodeArray_def EncodeUint_fits EncodeUint_overflow tx_out_def CBOR_DecodeArray_def DecodeUint_uint_bytes)

interpretation map_hdr: cbor_codec CBOR_DecodeMap CBOR_EncodeMap
  "\<lambda>n. uint_bytes (len32 n) CBOR_MAP" "\<lambda>n. n < 2 ^ 32"
proof (unfold_locales, goal_cases)
  case 1 then show ?case by (rule decode_follows)
qed (auto simp: CBOR_EncodeMap_def EncodeUint_fits EncodeUint_overflow tx_out_def CBOR_DecodeMap_def DecodeUint_uint_bytes)

lemma NEG_neq_UINT [simp]: "CBOR_NEG \<noteq> CBOR_UINT"
  by (simp add: cbor_consts)

definition int_bytes :: "u64 \<Rightarrow> u8 list" where
  "int_bytes i = (if 0 \<le> sint i then uint_bytes i CBOR_UINT else uint_bytes (NOT i) CBOR_NEG)"

interpretation int: cbor_codec CBOR_DecodeInt CBOR_EncodeInt int_bytes "\<lambda>_. True"
proof unfold_locales
  fix r :: DPS_RxBuffer and x rest
  assume "rx_wf r" "rx_rem r = int_bytes x @ rest"
  then show "CBOR_DecodeInt r = (Inr x, rx_advance r (length (int_bytes x)))"
    by (auto simp: int_bytes_def CBOR_DecodeInt_def PeekUint_uint_bytes split: if_splits)
qed (auto simp: CBOR_DecodeInt_follows CBOR_EncodeInt_def int_bytes_def EncodeUint_fits
      EncodeUint_overflow tx_out_def)


interpretation boolean: cbor_codec CBOR_DecodeBoolean CBOR_EncodeBoolean
  "\<lambda>i. [if i then CBOR_TRUE else CBOR_FALSE]" "\<lambda>_. True"
proof (unfold_locales, goal_cases)
  case 1 then show ?case by (rule CBOR_DecodeBoolean_follows)
next
  case (4 r x rest)
  then have "rx_byte r 0 = (if x then CBOR_TRUE else CBOR_FALSE)"
    using rx_byte_append [of r "[if x then CBOR_TRUE else CBOR_FALSE]" rest 0] by simp
  with 4 show ?case by (simp add: CBOR_DecodeBoolean_def cbor_consts)
qed (auto simp: CBOR_EncodeBoolean_def tx_out_def)

lemma CBOR_Copy_eq: "CBOR_Copy = DPS_TxBufferAppend"
  by (intro ext) (simp add: CBOR_Copy_def DPS_TxBufferAppend_def)

text \<open>A header followed by a copy of the payload: byte strings and text strings.\<close>

definition hdr_bytes :: "u8 \<Rightarrow> u8 list \<Rightarrow> u8 list" where
  "hdr_bytes maj s = uint_bytes (len32 (length s)) maj @ s"

lemma encode_hdr_fits:
  assumes "tx_wf b" "length (hdr_bytes m s) \<le> DPS_TxBufferSpace b"
  shows "ok_then (EncodeUint b (len32 (length s)) m) (\<lambda>b. CBOR_Copy b (Some s) (length s)) =
         (DPS_OK, tx_put b (hdr_bytes m s))"
proof -
  let ?h = "uint_bytes (len32 (length s)) m"
  have h: "length ?h \<le> DPS_TxBufferSpace b" and s: "length (?h @ s) \<le> DPS_TxBufferSpace b"
    using assms(2) by (simp_all add: hdr_bytes_def)
  have "tx_wf (tx_put b ?h)" using assms(1) h by (rule tx_wf_put)
  moreover have "length s \<le> DPS_TxBufferSpace (tx_put b ?h)"
    using tx_space_put [OF assms(1) h] s by simp
  ultimately have "CBOR_Copy (tx_put b ?h) (Some s) (length s) = (DPS_OK, tx_put (tx_put b ?h) s)"
    by (simp add: CBOR_Copy_eq append_fits del: tx_space)
  then show ?thesis
    using h tx_put_put [OF assms(1) s] by (simp add: EncodeUint_fits hdr_bytes_def del: tx_space)
qed

lemma encode_hdr_overflow:
  assumes "tx_wf b" "DPS_TxBufferSpace b < length (hdr_bytes m s)"
  shows "fst (ok_then (EncodeUint b (len32 (length s)) m) (\<lambda>b. CBOR_Copy b (Some s) (length s))) =
           DPS_ERR_OVERFLOW \<and>
         take (txPos b) (tx_base (snd (ok_then (EncodeUint b (len32 (length s)) m)
           (\<lambda>b. CBOR_Copy b (Some s) (length s))))) = tx_out b"
proof (cases "Requires (len32 (length s)) + 1 \<le> DPS_TxBufferSpace b")
  case True
  let ?h = "uint_bytes (len32 (length s)) m" and ?b = "tx_put b (uint_bytes (len32 (length s)) m)"
  have h: "length ?h \<le> DPS_TxBufferSpace b" using True by simp
  have wf: "tx_wf ?b" using assms(1) h by (rule tx_wf_put)
  have "DPS_TxBufferSpace ?b < length s"
    using tx_space_put [OF assms(1) h] assms(2) True by (simp add: hdr_bytes_def del: tx_space)
  from append_full [OF wf this, of s] obtain mem where
    mem: "CBOR_Copy ?b (Some s) (length s) = (DPS_ERR_OVERFLOW, ?b\<lparr>tx_base := mem\<rparr>)"
    and pre: "take (txPos ?b) mem = tx_out ?b"
    by (auto simp: CBOR_Copy_eq)
  from pre have "take (txPos b) (take (txPos ?b) mem) = take (txPos b) (tx_out b @ ?h)"
    using assms(1) by simp
  then have "take (txPos b) mem = tx_out b"
    using assms(1) by (simp add: tx_put_def length_tx_out)
  with True mem show ?thesis by (simp add: EncodeUint_fits del: tx_space)
next
  case False
  then show ?thesis by (simp add: EncodeUint_overflow tx_out_def del: tx_space)
qed

lemma DecodeUint_hdr:
  assumes "rx_wf r" "is_major m" "length s < 2 ^ 32" "rx_rem r = hdr_bytes m s @ rest"
  obtains r' where "DecodeUint r m = (Inr (len32 (length s)), r')" "rx_wf r'"
    "rx_rem r' = s @ rest" "rx_advance r' (length s) = rx_advance r (length (hdr_bytes m s))"
proof
  let ?r = "rx_advance r (Requires (len32 (length s)) + 1)"
  show "DecodeUint r m = (Inr (len32 (length s)), ?r)"
    using assms by (intro DecodeUint_uint_bytes [where rest = "s @ rest"]) (auto simp: hdr_bytes_def)
  show "rx_wf ?r" using assms by (intro rx_wf_advance) (auto simp: hdr_bytes_def)
qed (use assms in \<open>simp_all add: hdr_bytes_def\<close>)

lemma rx_rem_bound: "rx_wf r \<Longrightarrow> length (rx_rem r) < 2 ^ 32"
  by (auto simp: rx_wf_def rx_rem_def)

lemma hdr_length_bound:
  "rx_wf r \<Longrightarrow> rx_rem r = hdr_bytes m s @ rest \<Longrightarrow> length s < 2 ^ 32"
  using rx_rem_bound [of r] by (simp add: hdr_bytes_def)

lemma CBOR_DecodeBytes_hdr:
  assumes "rx_wf r" "rx_rem r = hdr_bytes CBOR_BYTES s @ rest"
  shows "CBOR_DecodeBytes r = (Inr s, rx_advance r (length (hdr_bytes CBOR_BYTES s)))"
proof -
  have l: "length s < 2 ^ 32" using hdr_length_bound [OF assms] .
  obtain r' where "DecodeUint r CBOR_BYTES = (Inr (len32 (length s)), r')" "rx_wf r'"
    "rx_rem r' = s @ rest" "rx_advance r' (length s) = rx_advance r (length (hdr_bytes CBOR_BYTES s))"
    using DecodeUint_hdr [OF assms(1) _ l assms(2)] by auto
  then show ?thesis using l by (cases s) (auto simp: CBOR_DecodeBytes_def)
qed

lemma CBOR_DecodeString_hdr:
  assumes "rx_wf r" "rx_rem r = hdr_bytes CBOR_STRING s @ rest"
  shows "CBOR_DecodeString r = (Inr s, rx_advance r (length (hdr_bytes CBOR_STRING s)))"
proof -
  have l: "length s < 2 ^ 32" using hdr_length_bound [OF assms] .
  obtain r' where "DecodeUint r CBOR_STRING = (Inr (len32 (length s)), r')" "rx_wf r'"
    "rx_rem r' = s @ rest" "rx_advance r' (length s) = rx_advance r (length (hdr_bytes CBOR_STRING s))"
    using DecodeUint_hdr [OF assms(1) _ l assms(2)] by auto
  then show ?thesis using l by (cases s) (auto simp: CBOR_DecodeString_def word_neq_0_conv [symmetric])
qed

interpretation bytes: cbor_codec CBOR_DecodeBytes "\<lambda>b s. CBOR_EncodeBytes b (Some s) (length s)"
  "hdr_bytes CBOR_BYTES" "\<lambda>_. True"
proof (unfold_locales, goal_cases)
  case 1 then show ?case by (rule decode_follows)
qed (simp_all only: CBOR_EncodeBytes_def encode_hdr_fits encode_hdr_overflow CBOR_DecodeBytes_hdr
      simp_thms)

lemma CBOR_EncodeString_eq:
  "length s \<le> CBOR_MAX_STRING_LEN \<Longrightarrow> CBOR_EncodeString b (Some s) =
   ok_then (EncodeUint b (len32 (length s)) CBOR_STRING) (\<lambda>b. CBOR_Copy b (Some s) (length s))"
  by (simp add: CBOR_EncodeString_def strnlen_s_def Let_def)

interpretation str: cbor_codec CBOR_DecodeString "\<lambda>b s. CBOR_EncodeString b (Some s)"
  "hdr_bytes CBOR_STRING" "\<lambda>s. length s \<le> CBOR_MAX_STRING_LEN"
proof (unfold_locales, goal_cases)
  case 1 then show ?case by (rule decode_follows)
qed (simp_all only: CBOR_EncodeString_eq encode_hdr_fits encode_hdr_overflow CBOR_DecodeString_hdr
      simp_thms)

interpretation uuid: cbor_codec CBOR_DecodeUUID CBOR_EncodeUUID
  "hdr_bytes CBOR_BYTES" "\<lambda>s. length s = 16"
proof (unfold_locales, goal_cases)
  case 1 then show ?case by (rule CBOR_DecodeUUID_follows)
next
  case (2 b x)
  then show ?case using bytes.enc_fits [of b x] by (simp add: CBOR_EncodeUUID_def)
next
  case (3 b x)
  then show ?case using bytes.enc_overflow [of b x] by (simp add: CBOR_EncodeUUID_def)
next
  case (4 r x rest)
  then show ?case by (simp add: CBOR_DecodeUUID_def CBOR_DecodeBytes_hdr)
qed

lemma CBOR_DecodeFloat_direct:
  "1 \<le> DPS_RxBufferAvail b \<Longrightarrow> rx_byte b 0 = CBOR_FLOAT \<Longrightarrow> CBOR_DecodeFloat fp b = float_payload b"
  by (simp add: CBOR_DecodeFloat_def)

lemma CBOR_DecodeDouble_direct:
  "1 \<le> DPS_RxBufferAvail b \<Longrightarrow> rx_byte b 0 = CBOR_DOUBLE \<Longrightarrow> CBOR_DecodeDouble fp b = double_payload b"
  by (simp add: CBOR_DecodeDouble_def)

section \<open>Wrapped byte strings\<close>

lemma len32_small: "n < 2 ^ 32 \<Longrightarrow> len32 n = word_of_nat n"
  by (simp add: len32_def)

lemma Requires_le_8: "Requires n \<le> 8"
  by (simp add: Requires_def)

lemma tx_rewind:
  "b\<lparr>txPos := x, tx_base := m, txPos := y\<rparr> = \<lparr>tx_base = m, txPos = y\<rparr>"
  "b\<lparr>txPos := y\<rparr> = \<lparr>tx_base = tx_base b, txPos = y\<rparr>"
  by (cases b; simp)+

lemma ReserveBytes_fits:
  assumes "tx_wf b" "Requires (len32 n) + 1 + n \<le> DPS_TxBufferSpace b"
  shows "CBOR_ReserveBytes b n =
    (Inr (txPos b + Requires (len32 n) + 1),
     \<lparr>tx_base = overwrite (txPos b) (uint_bytes (len32 n) CBOR_BYTES) (tx_base b),
      txPos = txPos b + Requires (len32 n) + 1 + n\<rparr>)"
proof -
  have "EncodeUint b (len32 n) CBOR_BYTES = (DPS_OK, tx_put b (uint_bytes (len32 n) CBOR_BYTES))"
    using assms by (intro EncodeUint_fits) simp
  moreover have "DPS_TxBufferSpace (tx_put b (uint_bytes (len32 n) CBOR_BYTES)) =
      DPS_TxBufferSpace b - (Requires (len32 n) + 1)"
    using tx_space_put [of b "uint_bytes (len32 n) CBOR_BYTES"] assms by simp
  ultimately show ?thesis using assms(2)
    by (simp add: CBOR_ReserveBytes_def del: tx_space) (simp add: tx_put_def)
qed

lemma StartWrap_D:
  assumes "tx_wf b" "CBOR_StartWrapBytes b hint = (Inr wrap, b1)"
  shows "wrap = txPos b" "b1 = tx_put b (uint_bytes (len32 hint) CBOR_BYTES)"
    "Requires (len32 hint) + 1 \<le> DPS_TxBufferSpace b"
  using assms
  by (auto simp: CBOR_StartWrapBytes_def CBOR_ReserveBytes_def EncodeUint_def
      simp del: tx_space split: prod.splits sum.splits if_splits)

lemma EndWrap_header:
  assumes "p \<le> length base" "h = uint_bytes n CBOR_BYTES" "p + length (h @ s) \<le> length base"
  shows "\<exists>rx. DecodeUint (DPS_RxBufferInit (drop p (overwrite p (h @ s) base)) CBOR_MAX_LENGTH) CBOR_BYTES
           = (Inr n, rx) \<and> rxPos rx = Requires n + 1"
proof -
  let ?r = "DPS_RxBufferInit (drop p (overwrite p (h @ s) base)) CBOR_MAX_LENGTH"
  have d: "drop p (overwrite p (h @ s) base) = h @ s @ drop (p + length (h @ s)) base"
    using assms(1) by (simp add: overwrite_def)
  have "rx_rem ?r = h @ take (9 - length h) (s @ drop (p + length (h @ s)) base)"
    unfolding d using assms(2) Requires_le_8 [of n]
    by (simp add: DPS_RxBufferInit_def CBOR_MAX_LENGTH_def rx_rem_def)
  moreover have "rx_wf ?r" by (simp add: rx_wf_def DPS_RxBufferInit_def DPS_RxBufferClear_def CBOR_MAX_LENGTH_def)
  moreover have "rxPos ?r = 0" by (simp add: DPS_RxBufferInit_def DPS_RxBufferClear_def)
  ultimately show ?thesis
    using DecodeUint_uint_bytes [of ?r n CBOR_BYTES] assms(2) by auto
qed

text \<open>The whole protocol, from the start of the wrap over the payload to its end.\<close>

lemma wrap_outcome:
  assumes wf: "tx_wf b" and st: "CBOR_StartWrapBytes b hint = (Inr wrap, b1)"
    and s: "length s \<le> DPS_TxBufferSpace b1"
  shows "CBOR_EndWrapBytes (tx_put b1 s) wrap =
    (if wrap + length (hdr_bytes CBOR_BYTES s) \<le> length (tx_base b)
     then Some (DPS_OK, \<lparr>tx_base = overwrite wrap (uint_bytes (len32 (length s)) CBOR_BYTES)
              (if Requires (len32 (length s)) \<noteq> Requires (len32 hint) \<and> s \<noteq> []
               then overwrite (wrap + Requires (len32 (length s)) + 1) s (tx_base (tx_put b1 s))
               else tx_base (tx_put b1 s)),
            txPos = wrap + length (hdr_bytes CBOR_BYTES s)\<rparr>)
     else None)"
proof -
  let ?h = "uint_bytes (len32 hint) CBOR_BYTES" and ?base = "tx_base b"
  let ?need = "Requires (len32 (length s))" and ?had = "Requires (len32 hint)"
  note D = StartWrap_D [OF wf st]
  have p: "wrap \<le> length ?base" "length ?base < 2 ^ 32" using wf D(1) by (simp_all add: tx_wf_def)
  have wf1: "tx_wf b1" using D(2,3) wf by (auto intro!: tx_wf_put simp del: tx_space)
  have fit: "wrap + length (?h @ s) \<le> length ?base"
    using s D wf wf1 by (simp add: tx_put_def overwrite_def tx_wf_def)
  define b2 where "b2 = tx_put b1 s"
  have b2: "tx_base b2 = overwrite wrap (?h @ s) ?base" "txPos b2 = wrap + ?had + 1 + length s"
    using tx_put_put [OF wf, of ?h s] fit D wf
    by (simp_all add: b2_def tx_wf_def) (simp_all add: tx_put_def)
  have len2: "length (tx_base b2) = length ?base" using fit by (simp add: b2(1))
  obtain rx where rx: "DecodeUint (DPS_RxBufferInit (drop wrap (tx_base b2)) CBOR_MAX_LENGTH) CBOR_BYTES
      = (Inr (len32 hint), rx)" "rxPos rx = ?had + 1"
    using EndWrap_header [OF p(1) refl fit] b2 by auto
  have ls: "length s < 2 ^ 32" "length s < 2 ^ 64" using fit p by auto
  have act: "(txPos b2 + 2 ^ 64 - (wrap + (?had + 1))) mod 2 ^ 64 = length s"
    using ls by (simp add: b2(2))
  have pay: "take (length s) (drop (wrap + (?had + 1)) (tx_base b2)) = s"
    using fit p by (simp add: b2(1) overwrite_def)
  have fin: "CBOR_ReserveBytes \<lparr>tx_base = m, txPos = wrap\<rparr> (length s) =
      (Inr (wrap + ?need + 1), \<lparr>tx_base = overwrite wrap (uint_bytes (len32 (length s)) CBOR_BYTES) m,
         txPos = wrap + ?need + 1 + length s\<rparr>)"
    if "length m = length ?base" "wrap + ?need + 1 + length s \<le> length ?base" for m
    using that p ReserveBytes_fits [of "\<lparr>tx_base = m, txPos = wrap\<rparr>" "length s"]
    by (simp add: tx_wf_def)
  have unf: "CBOR_EndWrapBytes b2 wrap =
     (if ?need \<noteq> ?had \<and> s \<noteq> [] then
        (case memmove_s (tx_base b2) (wrap + (?had + 1) + ?need - ?had)
             (DPS_TxBufferSpace (b2\<lparr>txPos := wrap + ?need\<rparr>)) (wrap + (?had + 1)) (length s) of
           None \<Rightarrow> None
         | Some (False, mem) \<Rightarrow> Some (DPS_ERR_RESOURCES, b2\<lparr>txPos := wrap + ?need, tx_base := mem\<rparr>)
         | Some (True, mem) \<Rightarrow>
             (case CBOR_ReserveBytes \<lparr>tx_base = mem, txPos = wrap\<rparr> (length s) of
                (Inl e, b') \<Rightarrow> Some (e, b') | (Inr _, b') \<Rightarrow> Some (DPS_OK, b')))
      else case CBOR_ReserveBytes \<lparr>tx_base = tx_base b2, txPos = wrap\<rparr> (length s) of
             (Inl e, b') \<Rightarrow> Some (e, b') | (Inr _, b') \<Rightarrow> Some (DPS_OK, b'))"
    unfolding CBOR_EndWrapBytes_def Let_def rx(1) rx(2) prod.case sum.case act
      len32_small [OF ls(1), symmetric] length_0_conv tx_rewind DPS_TxBuffer.simps by simp
  have dmax: "DPS_TxBufferSpace (b2\<lparr>txPos := wrap + ?need\<rparr>) = length ?base - (wrap + ?need)"
    using p len2 by (simp add: DPS_TxBufferSpace_def)
  have move: "memmove_s (tx_base b2) (wrap + (?had + 1) + ?need - ?had)
      (length ?base - (wrap + ?need)) (wrap + (?had + 1)) (length s) =
      (if wrap + ?need + 1 + length s \<le> length ?base
       then Some (True, overwrite (wrap + ?need + 1) s (tx_base b2)) else None)"
    using pay len2 by (auto simp: memmove_s_def mem_write_def)
  have "wrap + ?need + 1 + length s \<le> length ?base" if "\<not> (?need \<noteq> ?had \<and> s \<noteq> [])"
    using that fit by (auto simp: len32_def Requires_def)
  with fin len2 show ?thesis
    unfolding b2_def [symmetric] unf dmax move by (auto simp: hdr_bytes_def)
qed


lemma wrap_fits:
  assumes wf: "tx_wf b" and st: "CBOR_StartWrapBytes b hint = (Inr wrap, b1)"
    and s: "length s \<le> DPS_TxBufferSpace b1"
    and room: "txPos b + length (hdr_bytes CBOR_BYTES s) \<le> length (tx_base b)"
  obtains b3 where "CBOR_EndWrapBytes (tx_put b1 s) wrap = Some (DPS_OK, b3)"
    "tx_wf b3" "tx_out b3 = tx_out b @ hdr_bytes CBOR_BYTES s" "length (tx_base b3) = length (tx_base b)"
proof -
  let ?h' = "uint_bytes (len32 (length s)) CBOR_BYTES" and ?h = "uint_bytes (len32 hint) CBOR_BYTES"
  note D = StartWrap_D [OF wf st]
  define base2 where "base2 = tx_base (tx_put b1 s)"
  have sp: "length (?h @ s) \<le> DPS_TxBufferSpace b"
    using s D wf tx_space_put [OF wf, of ?h] by (simp add: D(2))
  have b2: "base2 = overwrite wrap (?h @ s) (tx_base b)"
    using tx_put_put [OF wf sp] D by (simp add: base2_def) (simp add: tx_put_def)
  have len2: "length base2 = length (tx_base b)" and pre2: "take wrap base2 = tx_out b"
    using sp wf D by (simp_all add: b2 tx_wf_def tx_out_def take_overwrite_before)
  have "take (wrap + length (?h' @ s)) (overwrite wrap ?h' (overwrite (wrap + length ?h') s base2))
      = tx_out b @ ?h' @ s"
    using room len2 pre2 D(1) length_tx_out [OF wf] by (simp add: overwrite_def hdr_bytes_def)
  moreover have "take (wrap + length (?h' @ s)) (overwrite wrap ?h' base2) = tx_out b @ ?h' @ s"
    if "\<not> (Requires (len32 (length s)) \<noteq> Requires (len32 hint) \<and> s \<noteq> [])"
  proof -
    have "drop (wrap + length ?h') base2 = s @ drop (wrap + length (?h' @ s)) (tx_base b)" if "s \<noteq> []"
      using sp wf D(1) that \<open>\<not> (_ \<and> _)\<close> by (simp add: b2 overwrite_def tx_wf_def)
    then show ?thesis using that room len2 pre2 D(1) length_tx_out [OF wf]
      by (cases "s = []") (simp_all add: overwrite_def hdr_bytes_def)
  qed
  ultimately show ?thesis
    using wrap_outcome [OF wf st s] room D(1) len2 wf that
    by (simp add: base2_def [symmetric] tx_wf_def tx_out_def hdr_bytes_def split: if_splits)
qed

section \<open>Properties of the encoder and decoder\<close>

text \<open>C19: every \<open>int64_t\<close> that \<open>CBOR_EncodeInt\<close> writes is read back by \<open>CBOR_DecodeInt\<close>, from wherever
  the written bytes are found in the received data; the reader stops exactly behind them.\<close>

theorem cbor_int_roundtrip:
  assumes "tx_wf b" "CBOR_EncodeInt b i = (DPS_OK, b')"
    and "rx_wf r" "rx_rem r = drop (txPos b) (tx_out b') @ rest"
  shows "CBOR_DecodeInt r = (Inr i, rx_advance r (txPos b' - txPos b))"
  using int.roundtrip_at [OF assms(1) TrueI assms(2-4)] .

theorem cbor_int_roundtrip_witness:
  "CBOR_DecodeInt \<lparr>rx_base = [0x39, 0x01, 0x2B, 7], rxPos = 0\<rparr>
   = (Inr (-300), \<lparr>rx_base = [0x39, 0x01, 0x2B, 7], rxPos = 3\<rparr>)"
proof -
  let ?b = "\<lparr>tx_base = [0, 0, 0, 0], txPos = 0\<rparr>"
  let ?b' = "\<lparr>tx_base = [0x39, 0x01, 0x2B, 0], txPos = 3\<rparr>"
  let ?r = "\<lparr>rx_base = [0x39, 0x01, 0x2B, 7], rxPos = 0\<rparr>"
  have "CBOR_EncodeInt ?b (-300) = (DPS_OK, ?b')"
    by (simp add: CBOR_EncodeInt_def EncodeUint_def Requires_def uint_bytes_def byte_at_def
        DPS_TxBufferSpace_def tx_put_def overwrite_def cbor_consts)
  from cbor_int_roundtrip [OF _ this, of ?r "[7]"] show ?thesis
    by (simp add: tx_wf_def rx_wf_def rx_rem_def tx_out_def rx_advance_def)
qed

text \<open>C20: an array of text strings (as topics are sent): if the header and all strings were
  written, decoding the header and then that many strings gives back the list.\<close>

theorem cbor_string_array_roundtrip:
  assumes "tx_wf b" "txPos b = 0" "length ss < 2 ^ 32" "\<forall>s \<in> set ss. length s \<le> CBOR_MAX_STRING_LEN"
    and "ok_then (CBOR_EncodeArray b (length ss)) (\<lambda>b. enc_all (\<lambda>b s. CBOR_EncodeString b (Some s)) b ss)
         = (DPS_OK, b')"
  shows "fst (and_then (CBOR_DecodeArray (DPS_TxBufferToRx b')) (\<lambda>n r. dec_all CBOR_DecodeString n r)) = Inr ss"
proof -
  obtain b1 where b1: "CBOR_EncodeArray b (length ss) = (DPS_OK, b1)"
      "enc_all (\<lambda>b s. CBOR_EncodeString b (Some s)) b1 ss = (DPS_OK, b')"
    using assms(5) by (auto simp: ok_then_OK_iff)
  let ?h = "uint_bytes (len32 (length ss)) CBOR_ARRAY" and ?r = "DPS_TxBufferToRx b'"
  have "tx_wf b1" "tx_out b1 = ?h"
    using array.enc_OK_D [OF assms(1,3) b1(1)] assms(2) by (auto simp: tx_out_def)
  with str.enc_all_OK_D [OF _ assms(4) b1(2)] have b': "tx_wf b'"
    "tx_out b' = ?h @ concat (map (hdr_bytes CBOR_STRING) ss)" by auto
  then have r: "rx_wf ?r" "rx_rem ?r = ?h @ concat (map (hdr_bytes CBOR_STRING) ss)"
    using rx_of_tx by auto
  then have "CBOR_DecodeArray ?r = (Inr (length ss), rx_advance ?r (length ?h))"
    by (intro array.dec_img [OF _ assms(3)])
  moreover have "fst (dec_all CBOR_DecodeString (length ss) (rx_advance ?r (length ?h))) = Inr ss"
    using str.dec_all_img [OF rx_wf_advance assms(4), of ?r "length ?h" "[]"] r by simp
  ultimately show ?thesis by simp
qed



lemma CBOR_SIZEOF_LEN_eq: "CBOR_SIZEOF_LEN n = Requires n + 1"
  by (simp add: CBOR_SIZEOF_LEN_def Requires_def)

text \<open>C22: the size macros are exact: an integer or a string (within the length limit) is written
  if and only if the buffer has as many bytes left as \<open>CBOR_SIZEOF_INT\<close> or \<open>CBOR_SIZEOF_STRING\<close>
  computes, and then takes exactly that many.\<close>

theorem cbor_size_exact:
  assumes "tx_wf b" "length s \<le> CBOR_MAX_STRING_LEN"
  shows "(fst (CBOR_EncodeInt b i) = DPS_OK \<longleftrightarrow> CBOR_SizeOfInt i \<le> DPS_TxBufferSpace b) \<and>
    (fst (CBOR_EncodeInt b i) = DPS_OK \<longrightarrow> txPos (snd (CBOR_EncodeInt b i)) = txPos b + CBOR_SizeOfInt i) \<and>
    (fst (CBOR_EncodeString b (Some s)) = DPS_OK \<longleftrightarrow> CBOR_SizeOfString (Some s) \<le> DPS_TxBufferSpace b) \<and>
    (fst (CBOR_EncodeString b (Some s)) = DPS_OK \<longrightarrow>
       txPos (snd (CBOR_EncodeString b (Some s))) = txPos b + CBOR_SizeOfString (Some s))"
proof -
  have i: "length (int_bytes i) = CBOR_SizeOfInt i"
    by (simp add: int_bytes_def CBOR_SizeOfInt_def CBOR_SIZEOF_LEN_eq)
  have "len32 (length s) = word_of_nat (length s)"
    using assms(2) by (simp add: len32_def CBOR_MAX_STRING_LEN_def)
  then have s: "length (hdr_bytes CBOR_STRING s) = CBOR_SizeOfString (Some s)"
    using assms(2) by (simp add: hdr_bytes_def CBOR_SizeOfString_def CBOR_SIZEOF_LEN_eq strnlen_s_def Let_def)
  show ?thesis
    using int.enc_OK_iff [OF assms(1) TrueI, of i] int.enc_fits [OF assms(1) TrueI, of i]
      str.enc_OK_iff [OF assms] str.enc_fits [OF assms] i s
    by (auto simp: tx_put_def simp del: tx_space)
qed

theorem cbor_size_exact_witness:
  "txPos (snd (CBOR_EncodeInt \<lparr>tx_base = [0, 0, 0, 0], txPos = 1\<rparr> 200)) = 3"
proof -
  have "tx_wf \<lparr>tx_base = [0, 0, 0, 0], txPos = 1\<rparr>" by (simp add: tx_wf_def)
  from cbor_size_exact [OF this, of "[]" 200] show ?thesis
    by (simp add: CBOR_SizeOfInt_def CBOR_SIZEOF_LEN_def DPS_TxBufferSpace_def)
qed

text \<open>C23: the wrap protocol: starting a wrapped byte string with a length hint, writing the
  payload, and ending the wrap leaves exactly the byte string of the payload behind what was
  written before, and nothing outside the storage is touched, whenever the final header and
  payload fit.\<close>

theorem cbor_wrap_correct:
  assumes "tx_wf b" "CBOR_StartWrapBytes b hint = (Inr wrap, b1)"
    and "length s \<le> DPS_TxBufferSpace b1"
    and "txPos b + length (hdr_bytes CBOR_BYTES s) \<le> length (tx_base b)"
  shows "\<exists>b3. CBOR_EndWrapBytes (tx_put b1 s) wrap = Some (DPS_OK, b3) \<and>
           tx_out b3 = tx_out b @ hdr_bytes CBOR_BYTES s"
  using wrap_fits [OF assms] by metis

text \<open>C24: when the payload outgrew the hint so far that the moved payload does not fit, the size
  passed to \<open>memmove_s\<close> is one byte too large: \<open>CBOR_EndWrapBytes\<close> writes past the end of the
  storage instead of returning an error.\<close>

theorem cbor_wrap_overrun:
  assumes "tx_wf b" "CBOR_StartWrapBytes b hint = (Inr wrap, b1)"
    and "length s \<le> DPS_TxBufferSpace b1"
    and "length (tx_base b) < txPos b + length (hdr_bytes CBOR_BYTES s)"
  shows "CBOR_EndWrapBytes (tx_put b1 s) wrap = None"
  using wrap_outcome [OF assms(1-3)] StartWrap_D(1) [OF assms(1,2)] assms(4) by simp

theorem cbor_string_array_roundtrip_witness:
  "fst (and_then (CBOR_DecodeArray (DPS_TxBufferToRx \<lparr>tx_base = [0x81, 0x62, 97, 98], txPos = 4\<rparr>))
     (\<lambda>n r. dec_all CBOR_DecodeString n r)) = Inr [[97, 98]]"
proof -
  let ?b = "\<lparr>tx_base = [0, 0, 0, 0], txPos = 0\<rparr>"
  have "ok_then (CBOR_EncodeArray ?b (length [[97, 98]]))
      (\<lambda>b. enc_all (\<lambda>b s. CBOR_EncodeString b (Some s)) b [[97, 98]])
      = (DPS_OK, \<lparr>tx_base = [0x81, 0x62, 97, 98], txPos = 4\<rparr>)"
    by (simp add: CBOR_EncodeArray_def CBOR_EncodeString_def CBOR_Copy_def memcpy_s_def EncodeUint_def
        Requires_def uint_bytes_def byte_at_def len32_def DPS_TxBufferSpace_def tx_put_def overwrite_def
        strnlen_s_def CBOR_MAX_STRING_LEN_def cbor_consts)
  from cbor_string_array_roundtrip [OF _ _ _ _ this] show ?thesis
    by (simp add: tx_wf_def CBOR_MAX_STRING_LEN_def)
qed

theorem cbor_wrap_correct_witness:
  "\<exists>b1 b3. CBOR_StartWrapBytes \<lparr>tx_base = 0 # 0 # replicate 28 0, txPos = 2\<rparr> 10 = (Inr 2, b1) \<and>
     CBOR_EndWrapBytes (tx_put b1 [1, 2, 3]) 2 = Some (DPS_OK, b3) \<and> tx_out b3 = [0, 0, 0x43, 1, 2, 3]"
proof -
  let ?b = "\<lparr>tx_base = 0 # 0 # replicate 28 0, txPos = 2\<rparr>"
  let ?b1 = "tx_put ?b (uint_bytes (len32 10) CBOR_BYTES)"
  have s: "CBOR_StartWrapBytes ?b 10 = (Inr 2, ?b1)"
    by (simp add: CBOR_StartWrapBytes_def CBOR_ReserveBytes_def EncodeUint_def Requires_def len32_def
        DPS_TxBufferSpace_def uint_bytes_def byte_at_def tx_put_def overwrite_def)
  have "\<exists>b3. CBOR_EndWrapBytes (tx_put ?b1 [1, 2, 3]) 2 = Some (DPS_OK, b3) \<and>
           tx_out b3 = tx_out ?b @ hdr_bytes CBOR_BYTES [1, 2, 3]"
    by (rule cbor_wrap_correct [OF _ s])
      (simp_all add: tx_wf_def DPS_TxBufferSpace_def tx_put_def overwrite_def hdr_bytes_def len32_def Requires_def)
  moreover have "tx_out ?b @ hdr_bytes CBOR_BYTES [1, 2, 3] = [0, 0, 0x43, 1, 2, 3]"
    by (simp add: tx_out_def hdr_bytes_def uint_bytes_def len32_def Requires_def byte_at_def cbor_consts)
  ultimately show ?thesis using s by auto
qed

theorem cbor_wrap_overrun_witness:
  "\<exists>b1. CBOR_StartWrapBytes \<lparr>tx_base = replicate 25 0, txPos = 0\<rparr> 0 = (Inr 0, b1) \<and>
     length (replicate 24 (7 :: u8)) \<le> DPS_TxBufferSpace b1 \<and>
     CBOR_EndWrapBytes (tx_put b1 (replicate 24 7)) 0 = None"
proof -
  let ?b = "\<lparr>tx_base = replicate 25 0, txPos = 0\<rparr>"
  let ?b1 = "tx_put ?b (uint_bytes (len32 0) CBOR_BYTES)"
  have s: "CBOR_StartWrapBytes ?b 0 = (Inr 0, ?b1)"
    by (simp add: CBOR_StartWrapBytes_def CBOR_ReserveBytes_def EncodeUint_def Requires_def len32_def
        DPS_TxBufferSpace_def uint_bytes_def byte_at_def tx_put_def overwrite_def)
  have l: "length (replicate 24 (7 :: u8)) \<le> DPS_TxBufferSpace ?b1"
    by (simp add: DPS_TxBufferSpace_def tx_put_def overwrite_def len32_def Requires_def)
  have "CBOR_EndWrapBytes (tx_put ?b1 (replicate 24 7)) 0 = None"
    by (rule cbor_wrap_overrun [OF _ s l])
      (simp_all add: tx_wf_def hdr_bytes_def len32_def Requires_def)
  then show ?thesis using s l by blast
qed

text \<open>the check for negative integers below the range of \<open>int64_t\<close> misses one value: the
  encoding of -2^64 is accepted and decoded as 0.\<close>

theorem cbor_decode_int_wraps:
  "CBOR_DecodeInt \<lparr>rx_base = uint_bytes 0xFFFFFFFFFFFFFFFF CBOR_NEG, rxPos = 0\<rparr> =
   (Inr 0, \<lparr>rx_base = uint_bytes 0xFFFFFFFFFFFFFFFF CBOR_NEG, rxPos = 9\<rparr>)"
proof -
  have "PeekUint \<lparr>rx_base = uint_bytes 0xFFFFFFFFFFFFFFFF CBOR_NEG, rxPos = 0\<rparr> = Inr (0xFFFFFFFFFFFFFFFF, CBOR_NEG, Requires 0xFFFFFFFFFFFFFFFF + 1)"
    by (rule PeekUint_uint_bytes [where rest = "[]"]) (simp_all add: rx_wf_def rx_rem_def Requires_def)
  then show ?thesis by (simp add: CBOR_DecodeInt_def rx_advance_def Requires_def)
qed

end
