(* ===== verification/Cbor_Skip.thy ===== *)
theory Cbor_Skip
  imports Cbor
begin

text \<open>
  \<^verbatim>\<open>CBOR_Skip\<close> and the map parser of \<^verbatim>\<open>src/cbor.c\<close>. The recursion
  of \<open>CBOR_Skip\<close> is bounded by fuel, one unit per nesting level; every level consumes the
  initial byte of an item, so one more unit than there are bytes left is enough, which
  \<open>skip_fuel_enough\<close> proves for arbitrary input.
\<close>

section \<open>CBOR_Skip\<close>

text \<open>\<open>None\<close> is exhausted fuel; the loop is
  \<^verbatim>\<open>while ((ret == DPS_OK) && len--) ret = f(buffer)\<close>.\<close>

primrec skip_loop ::
  "('s \<Rightarrow> (DPS_Status \<times> 's) option) \<Rightarrow> nat \<Rightarrow> 's \<Rightarrow> (DPS_Status \<times> 's) option" where
  "skip_loop f 0 b = Some (DPS_OK, b)"
| "skip_loop f (Suc n) b =
     (case f b of
        None \<Rightarrow> None
      | Some (ret, b') \<Rightarrow> if ret = DPS_OK then skip_loop f n b' else Some (ret, b'))"

definition skip_pair ::
  "('s \<Rightarrow> (DPS_Status \<times> 's) option) \<Rightarrow> 's \<Rightarrow> (DPS_Status \<times> 's) option" where
  "skip_pair f b =
     (case f b of
        None \<Rightarrow> None
      | Some (ret, b') \<Rightarrow> if ret = DPS_OK then f b' else Some (ret, b'))"

definition status_of :: "'a res \<Rightarrow> DPS_Status" where
  "status_of r = (case r of Inl e \<Rightarrow> e | Inr _ \<Rightarrow> DPS_OK)"

text \<open>For the info values 26 and 27 the initial byte is \<open>CBOR_FLOAT\<close> or \<open>CBOR_DOUBLE\<close>, so the
  float decoders take their direct path (\<open>CBOR_DecodeFloat_direct\<close>).\<close>

primrec skip_fuel :: "nat \<Rightarrow> DPS_RxBuffer \<Rightarrow> (DPS_Status \<times> DPS_RxBuffer) option" where
  "skip_fuel 0 buffer = None"
| "skip_fuel (Suc fuel) buffer =
     (let avail = DPS_RxBufferAvail buffer in
      if avail < 1 then Some (DPS_ERR_EOD, buffer)
      else let maj = rx_byte buffer 0 AND 0xE0; info = rx_byte buffer 0 AND 0x1F in
        if maj = CBOR_UINT \<or> maj = CBOR_NEG \<or> maj = CBOR_TAG then
          (let len = IntLengths ! unat info in
           if len = 0 then Some (DPS_ERR_INVALID, buffer)
           else if avail < len then Some (DPS_ERR_EOD, buffer)
           else Some (DPS_OK, rx_advance buffer len))
        else if maj = CBOR_BYTES then
          (case CBOR_DecodeBytes buffer of (r, b) \<Rightarrow> Some (status_of r, b))
        else if maj = CBOR_STRING then
          (case CBOR_DecodeString buffer of (r, b) \<Rightarrow> Some (status_of r, b))
        else if maj = CBOR_ARRAY then
          (case DecodeUint buffer maj of
             (Inl e, b) \<Rightarrow> Some (e, b)
           | (Inr len, b) \<Rightarrow> skip_loop (skip_fuel fuel) (unat len) b)
        else if maj = CBOR_MAP then
          (case DecodeUint buffer maj of
             (Inl e, b) \<Rightarrow> Some (e, b)
           | (Inr len, b) \<Rightarrow> skip_loop (skip_pair (skip_fuel fuel)) (unat len) b)
        else if maj = CBOR_OTHER then
          (if 20 \<le> info \<and> info \<le> 22 then Some (DPS_OK, rx_advance buffer 1)
           else if info = 26 then (case float_payload buffer of ((r, _), b) \<Rightarrow> Some (r, b))
           else if info = 27 then (case double_payload buffer of ((r, _), b) \<Rightarrow> Some (r, b))
           else Some (DPS_ERR_INVALID, buffer))
        else Some (DPS_ERR_INVALID, buffer))"

text \<open>The outputs \<open>majOut\<close> and \<open>skipped\<close> are written unless the buffer is empty.\<close>

definition CBOR_Skip ::
  "DPS_RxBuffer \<Rightarrow> DPS_Status \<times> DPS_RxBuffer \<times> (u8 \<times> nat) option" where
  "CBOR_Skip buffer =
     (case the (skip_fuel (Suc (length (rx_rem buffer))) buffer) of
        (ret, b) \<Rightarrow>
          (ret, b,
           if DPS_RxBufferAvail buffer < 1 then None
           else Some (rx_byte buffer 0 AND 0xE0, rxPos b - rxPos buffer)))"

section \<open>Termination and memory safety of the skipper on arbitrary input\<close>

text \<open>A good outcome: the skipper returned, stayed inside the data, and consumed at least one byte
  if it succeeded. \<open>skips_ok n f\<close>: \<open>f\<close> is good on every buffer with fewer than \<open>n\<close> bytes left.\<close>

definition skip_good :: "DPS_RxBuffer \<Rightarrow> (DPS_Status \<times> DPS_RxBuffer) option \<Rightarrow> bool" where
  "skip_good b x \<longleftrightarrow>
     (\<exists>r b'. x = Some (r, b') \<and> rx_follows b b' \<and> (r = DPS_OK \<longrightarrow> rxPos b < rxPos b'))"

definition skips_ok :: "nat \<Rightarrow> (DPS_RxBuffer \<Rightarrow> (DPS_Status \<times> DPS_RxBuffer) option) \<Rightarrow> bool" where
  "skips_ok n f \<longleftrightarrow> (\<forall>b. rx_wf b \<longrightarrow> length (rx_rem b) < n \<longrightarrow> skip_good b (f b))"

lemma skips_okD:
  "skips_ok n f \<Longrightarrow> rx_wf b \<Longrightarrow> length (rx_rem b) < n \<Longrightarrow>
   \<exists>r b'. f b = Some (r, b') \<and> rx_follows b b' \<and> (r = DPS_OK \<longrightarrow> rxPos b < rxPos b')"
  by (simp add: skips_ok_def skip_good_def)

lemma rx_follows_length: "rx_follows b b' \<Longrightarrow> length (rx_rem b') \<le> length (rx_rem b)"
  by (auto simp: rx_follows_def rx_rem_def)

lemma skip_pair_ok:
  assumes f: "skips_ok n f"
  shows "skips_ok n (skip_pair f)"
  unfolding skips_ok_def
proof (intro allI impI)
  fix b assume wf: "rx_wf b" and len: "length (rx_rem b) < n"
  obtain r b' where 1: "f b = Some (r, b')" "rx_follows b b'" "r = DPS_OK \<longrightarrow> rxPos b < rxPos b'"
    using skips_okD [OF f wf len] by blast
  have "rx_wf b'" "length (rx_rem b') < n"
    using wf len rx_follows_wf [OF 1(2)] rx_follows_length [OF 1(2)] by auto
  then obtain r2 b2 where 2: "f b' = Some (r2, b2)" "rx_follows b' b2" "r2 = DPS_OK \<longrightarrow> rxPos b' < rxPos b2"
    using skips_okD [OF f] by blast
  show "skip_good b (skip_pair f b)"
    using 1 2 rx_follows_trans [OF 1(2) 2(2)] by (auto simp: skip_pair_def skip_good_def)
qed

lemma skip_loop_ok:
  assumes "skips_ok n f" "rx_wf b" "length (rx_rem b) < n"
  shows "\<exists>r b'. skip_loop f k b = Some (r, b') \<and> rx_follows b b'"
  using assms(2,3)
proof (induction k arbitrary: b)
  case (Suc k)
  obtain r b' where 1: "f b = Some (r, b')" "rx_follows b b'"
    using skips_okD [OF assms(1) Suc.prems] by blast
  have "\<exists>r b2. skip_loop f k b' = Some (r, b2) \<and> rx_follows b' b2"
    using Suc.prems 1 rx_follows_wf [OF 1(2)] rx_follows_length [OF 1(2)] by (intro Suc.IH) auto
  with 1 show ?case by (auto dest: rx_follows_trans)
qed simp

lemma DecodeUint_advance:
  assumes "rx_wf b" "DecodeUint b m = (Inr n, b')"
  shows "rxPos b < rxPos b'" "rx_follows b b'"
  using PeekUint_len [of b] DecodeUint_follows [OF assms(1), of m] assms(2)
  by (auto simp: DecodeUint_def split: sum.splits if_splits)

lemma string_progress:
  "rx_wf b \<Longrightarrow> CBOR_DecodeBytes b = (Inr s, b') \<Longrightarrow> rxPos b < rxPos b'"
  "rx_wf b \<Longrightarrow> CBOR_DecodeString b = (Inr s, b') \<Longrightarrow> rxPos b < rxPos b'"
  using DecodeUint_advance
  by (fastforce simp: CBOR_DecodeBytes_def CBOR_DecodeString_def and_then_Inr_iff split: if_splits)+

lemma skip_good_advance:
  "rx_wf b \<Longrightarrow> 0 < n \<Longrightarrow> n \<le> length (rx_rem b) \<Longrightarrow> skip_good b (Some (r, rx_advance b n))"
  by (simp add: skip_good_def rx_follows_advance)

lemma skip_good_err: "rx_wf b \<Longrightarrow> r \<noteq> DPS_OK \<Longrightarrow> skip_good b (Some (r, b))"
  by (simp add: skip_good_def)

lemma skip_good_payload:
  assumes "rx_wf b"
  shows "skip_good b (case float_payload b of ((r, _), b) \<Rightarrow> Some (r, b))"
    "skip_good b (case double_payload b of ((r, _), b) \<Rightarrow> Some (r, b))"
  using assms by (auto simp: float_payload_def double_payload_def skip_good_err skip_good_advance)

lemma DecodeUint_err: "DecodeUint b m = (Inl e, b') \<Longrightarrow> e \<noteq> DPS_OK"
  by (auto simp: DecodeUint_def PeekUint_def Let_def split: if_splits)

lemma string_err:
  "CBOR_DecodeBytes b = (Inl e, b') \<Longrightarrow> e \<noteq> DPS_OK"
  "CBOR_DecodeString b = (Inl e, b') \<Longrightarrow> e \<noteq> DPS_OK"
  by (auto simp: CBOR_DecodeBytes_def CBOR_DecodeString_def and_then_def dest: DecodeUint_err
      split: prod.splits sum.splits if_splits)

lemma skip_good_string:
  assumes "rx_wf b"
  shows "skip_good b (case CBOR_DecodeBytes b of (r, b) \<Rightarrow> Some (status_of r, b))"
    "skip_good b (case CBOR_DecodeString b of (r, b) \<Rightarrow> Some (status_of r, b))"
  using decode_follows(8,9) [OF assms] string_progress [OF assms] string_err
  by (auto simp: skip_good_def status_of_def split: sum.splits prod.splits)

lemma skip_good_nested:
  assumes "skips_ok fuel f" "rx_wf b" "length (rx_rem b) < Suc fuel"
  shows "skip_good b (case DecodeUint b m of (Inl e, b) \<Rightarrow> Some (e, b)
             | (Inr len, b) \<Rightarrow> skip_loop f (unat len) b)"
proof (cases "DecodeUint b m")
  case (Pair r b1)
  have f: "rx_follows b b1" using DecodeUint_follows [OF assms(2), of m] Pair by simp
  show ?thesis
  proof (cases r)
    case (Inl e)
    then show ?thesis using Pair f DecodeUint_err [of b m e b1] by (simp add: skip_good_def)
  next
    case (Inr len)
    have p: "rxPos b < rxPos b1" using DecodeUint_advance(1) [OF assms(2)] Pair Inr by simp
    have "length (rx_rem b1) < fuel" using p f assms(3) by (auto simp: rx_follows_def rx_rem_def)
    then obtain r' b' where "skip_loop f (unat len) b1 = Some (r', b')" "rx_follows b1 b'"
      using skip_loop_ok [OF assms(1) rx_follows_wf [OF f assms(2)]] by blast
    then show ?thesis using Pair Inr p f by (auto simp: rx_follows_def skip_good_def)
  qed
qed

lemma skip_fuel_enough: "skips_ok fuel (skip_fuel fuel)"
proof (induction fuel)
  case 0
  show ?case by (simp add: skips_ok_def)
next
  case (Suc fuel)
  show ?case unfolding skips_ok_def
  proof (intro allI impI)
    fix b assume wf: "rx_wf b" and len: "length (rx_rem b) < Suc fuel"
    note nested = skip_good_nested [OF Suc.IH wf len] skip_good_nested [OF skip_pair_ok [OF Suc.IH] wf len]
    show "skip_good b (skip_fuel (Suc fuel) b)"
      using wf nested by (simp add: Let_def skip_good_err skip_good_advance skip_good_string
          skip_good_payload not_less Suc_le_eq)
  qed
qed

section \<open>Skipping well-formed items\<close>

text \<open>The data items of RFC 7049 that carry no tag, and their canonical encoding.\<close>

datatype item =
    UInt u64 | NegInt u64 | Bytes "u8 list" | Text "u8 list"
  | Arr "item list" | Map "(item \<times> item) list"
  | Bool bool | Null | Float32 u32 | Float64 u64

fun item_bytes :: "item \<Rightarrow> u8 list" where
  "item_bytes (UInt n) = uint_bytes n CBOR_UINT"
| "item_bytes (NegInt n) = uint_bytes n CBOR_NEG"
| "item_bytes (Bytes s) = hdr_bytes CBOR_BYTES s"
| "item_bytes (Text s) = hdr_bytes CBOR_STRING s"
| "item_bytes (Arr xs) = uint_bytes (len32 (length xs)) CBOR_ARRAY @ concat (map item_bytes xs)"
| "item_bytes (Map kvs) = uint_bytes (len32 (length kvs)) CBOR_MAP @
     concat (map (\<lambda>(k, v). item_bytes k @ item_bytes v) kvs)"
| "item_bytes (Bool i) = [if i then CBOR_TRUE else CBOR_FALSE]"
| "item_bytes Null = [CBOR_NULL]"
| "item_bytes (Float32 f) =
     [CBOR_FLOAT, ucast (drop_bit 24 f), ucast (drop_bit 16 f), ucast (drop_bit 8 f), ucast f]"
| "item_bytes (Float64 d) =
     [CBOR_DOUBLE, byte_at d 56, byte_at d 48, byte_at d 40, byte_at d 32,
      byte_at d 24, byte_at d 16, byte_at d 8, byte_at d 0]"

lemma item_bytes_nonempty: "item_bytes it \<noteq> []"
  by (cases it) (auto simp: hdr_bytes_def simp flip: length_0_conv)

text \<open>\<open>skips f bs\<close>: \<open>f\<close> steps over the bytes \<open>bs\<close> wherever they stand.\<close>

definition skips :: "(DPS_RxBuffer \<Rightarrow> (DPS_Status \<times> DPS_RxBuffer) option) \<Rightarrow> u8 list \<Rightarrow> bool" where
  "skips f bs \<longleftrightarrow>
     (\<forall>b rest. rx_wf b \<longrightarrow> rx_rem b = bs @ rest \<longrightarrow> f b = Some (DPS_OK, rx_advance b (length bs)))"

lemma skipsI:
  "(\<And>b rest. rx_wf b \<Longrightarrow> rx_rem b = bs @ rest \<Longrightarrow> f b = Some (DPS_OK, rx_advance b (length bs))) \<Longrightarrow>
   skips f bs"
  by (simp add: skips_def)

lemma skipsD:
  "skips f bs \<Longrightarrow> rx_wf b \<Longrightarrow> rx_rem b = bs @ rest \<Longrightarrow> f b = Some (DPS_OK, rx_advance b (length bs))"
  by (simp add: skips_def)

lemma skips_pair:
  assumes "skips f as" "skips f bs"
  shows "skips (skip_pair f) (as @ bs)"
proof (rule skipsI)
  fix b rest assume b: "rx_wf b" "rx_rem b = (as @ bs) @ rest"
  then have "f b = Some (DPS_OK, rx_advance b (length as))"
    using skipsD [OF assms(1)] by simp
  moreover have "f (rx_advance b (length as)) = Some (DPS_OK, rx_advance b (length (as @ bs)))"
    using skipsD [OF assms(2), of "rx_advance b (length as)" rest] b
    by (simp add: rx_wf_advance)
  ultimately show "skip_pair f b = Some (DPS_OK, rx_advance b (length (as @ bs)))"
    by (simp add: skip_pair_def)
qed

lemma skips_loop:
  assumes "\<forall>x \<in> set xs. skips f (enc x)"
  shows "skips (skip_loop f (length xs)) (concat (map enc xs))"
  using assms
proof (induction xs)
  case (Cons x xs)
  show ?case
  proof (rule skipsI)
    fix b rest assume b: "rx_wf b" "rx_rem b = concat (map enc (x # xs)) @ rest"
    then have "f b = Some (DPS_OK, rx_advance b (length (enc x)))"
      using Cons.prems skipsD [of f "enc x" b] by simp
    moreover have "skip_loop f (length xs) (rx_advance b (length (enc x))) =
        Some (DPS_OK, rx_advance b (length (concat (map enc (x # xs)))))"
      using skipsD [OF Cons.IH, of "rx_advance b (length (enc x))" rest] Cons.prems b
      by (simp add: rx_wf_advance)
    ultimately show "skip_loop f (length (x # xs)) b =
        Some (DPS_OK, rx_advance b (length (concat (map enc (x # xs)))))"
      by simp
  qed
qed (simp add: skips_def)

lemma PeekUint_shape:
  "PeekUint b = Inr (n, maj, len) \<Longrightarrow>
   maj = rx_byte b 0 AND 0xE0 \<and> len = IntLengths ! unat (rx_byte b 0 AND 0x1F)"
  by (auto simp: PeekUint_def Let_def split: if_splits)

text \<open>The header of an item decides the branch of the skipper.\<close>

lemma header_bytes:
  assumes "rx_wf b" "rx_rem b = uint_bytes n maj @ rest" "is_major maj"
  shows "rx_byte b 0 AND 0xE0 = maj" "IntLengths ! unat (rx_byte b 0 AND 0x1F) = Requires n + 1"
  using PeekUint_shape [OF PeekUint_uint_bytes [OF assms]] by auto

lemma majors_neq [simp]:
  "CBOR_BYTES \<noteq> CBOR_UINT" "CBOR_BYTES \<noteq> CBOR_NEG" "CBOR_BYTES \<noteq> CBOR_TAG"
  "CBOR_STRING \<noteq> CBOR_UINT" "CBOR_STRING \<noteq> CBOR_NEG" "CBOR_STRING \<noteq> CBOR_TAG" "CBOR_STRING \<noteq> CBOR_BYTES"
  "CBOR_ARRAY \<noteq> CBOR_UINT" "CBOR_ARRAY \<noteq> CBOR_NEG" "CBOR_ARRAY \<noteq> CBOR_TAG" "CBOR_ARRAY \<noteq> CBOR_BYTES"
  "CBOR_ARRAY \<noteq> CBOR_STRING" "CBOR_MAP \<noteq> CBOR_UINT" "CBOR_MAP \<noteq> CBOR_NEG" "CBOR_MAP \<noteq> CBOR_TAG"
  "CBOR_MAP \<noteq> CBOR_BYTES" "CBOR_MAP \<noteq> CBOR_STRING" "CBOR_MAP \<noteq> CBOR_ARRAY"
  by (simp_all add: cbor_consts)

declare skip_fuel.simps [simp del]

lemma skip_branch:
  assumes "1 \<le> DPS_RxBufferAvail b" "rx_byte b 0 AND 0xE0 = m"
  shows "m = CBOR_ARRAY \<Longrightarrow> skip_fuel (Suc fuel) b =
      (case DecodeUint b m of (Inl e, b) \<Rightarrow> Some (e, b)
       | (Inr len, b) \<Rightarrow> skip_loop (skip_fuel fuel) (unat len) b)"
    "m = CBOR_MAP \<Longrightarrow> skip_fuel (Suc fuel) b =
      (case DecodeUint b m of (Inl e, b) \<Rightarrow> Some (e, b)
       | (Inr len, b) \<Rightarrow> skip_loop (skip_pair (skip_fuel fuel)) (unat len) b)"
    "m = CBOR_BYTES \<Longrightarrow> skip_fuel (Suc fuel) b =
      (case CBOR_DecodeBytes b of (r, b) \<Rightarrow> Some (status_of r, b))"
    "m = CBOR_STRING \<Longrightarrow> skip_fuel (Suc fuel) b =
      (case CBOR_DecodeString b of (r, b) \<Rightarrow> Some (status_of r, b))"
    "m = CBOR_UINT \<or> m = CBOR_NEG \<or> m = CBOR_TAG \<Longrightarrow> skip_fuel (Suc fuel) b =
      (let len = IntLengths ! unat (rx_byte b 0 AND 0x1F) in
       if len = 0 then Some (DPS_ERR_INVALID, b)
       else if DPS_RxBufferAvail b < len then Some (DPS_ERR_EOD, b)
       else Some (DPS_OK, rx_advance b len))"
  using assms by (simp_all add: skip_fuel.simps Let_def)

lemma skip_int:
  assumes "maj = CBOR_UINT \<or> maj = CBOR_NEG"
  shows "skips (skip_fuel (Suc fuel)) (uint_bytes n maj)"
proof (rule skipsI)
  fix b rest assume b: "rx_wf b" "rx_rem b = uint_bytes n maj @ rest"
  have "is_major maj" using assms by auto
  from header_bytes [OF b this] assms show
    "skip_fuel (Suc fuel) b = Some (DPS_OK, rx_advance b (length (uint_bytes n maj)))"
    using b skip_branch(5) [of b maj fuel] by (auto simp: Let_def)
qed

lemma skip_strings:
  "skips (skip_fuel (Suc fuel)) (hdr_bytes CBOR_BYTES s)"
  "skips (skip_fuel (Suc fuel)) (hdr_bytes CBOR_STRING s)"
proof -
  show "skips (skip_fuel (Suc fuel)) (hdr_bytes CBOR_BYTES s)"
  proof (rule skipsI)
    fix b rest assume b: "rx_wf b" "rx_rem b = hdr_bytes CBOR_BYTES s @ rest"
    have "rx_byte b 0 AND 0xE0 = CBOR_BYTES"
      using header_bytes(1) [OF b(1), of "len32 (length s)" CBOR_BYTES "s @ rest"] b by (simp add: hdr_bytes_def)
    then show "skip_fuel (Suc fuel) b = Some (DPS_OK, rx_advance b (length (hdr_bytes CBOR_BYTES s)))"
      using CBOR_DecodeBytes_hdr [OF b] b by (simp add: skip_branch(3) status_of_def hdr_bytes_def)
  qed
  show "skips (skip_fuel (Suc fuel)) (hdr_bytes CBOR_STRING s)"
  proof (rule skipsI)
    fix b rest assume b: "rx_wf b" "rx_rem b = hdr_bytes CBOR_STRING s @ rest"
    have "rx_byte b 0 AND 0xE0 = CBOR_STRING"
      using header_bytes(1) [OF b(1), of "len32 (length s)" CBOR_STRING "s @ rest"] b by (simp add: hdr_bytes_def)
    then show "skip_fuel (Suc fuel) b = Some (DPS_OK, rx_advance b (length (hdr_bytes CBOR_STRING s)))"
      using CBOR_DecodeString_hdr [OF b] b by (simp add: skip_branch(4) status_of_def hdr_bytes_def)
  qed
qed

lemma skip_nested:
  assumes "skips (skip_loop f k) body" "k < 2 ^ 32"
    and m: "m = CBOR_ARRAY \<and> f = skip_fuel fuel \<or> m = CBOR_MAP \<and> f = skip_pair (skip_fuel fuel)"
  shows "skips (skip_fuel (Suc fuel)) (uint_bytes (len32 k) m @ body)"
proof (rule skipsI)
  fix b rest assume b: "rx_wf b" "rx_rem b = (uint_bytes (len32 k) m @ body) @ rest"
  have maj: "is_major m" using m by auto
  have h: "rx_byte b 0 AND 0xE0 = m"
    using header_bytes(1) [OF b(1) _ maj, of "len32 k" "body @ rest"] b by simp
  have d: "DecodeUint b m = (Inr (len32 k), rx_advance b (Requires (len32 k) + 1))"
    using DecodeUint_uint_bytes [OF b(1) _ maj, of "len32 k" "body @ rest"] b by simp
  have l: "skip_loop f k (rx_advance b (Requires (len32 k) + 1)) =
      Some (DPS_OK, rx_advance b (length (uint_bytes (len32 k) m @ body)))"
    using skipsD [OF assms(1), of "rx_advance b (Requires (len32 k) + 1)" rest] b
    by (simp add: rx_wf_advance)
  show "skip_fuel (Suc fuel) b = Some (DPS_OK, rx_advance b (length (uint_bytes (len32 k) m @ body)))"
  proof -
    have u: "unat (len32 k) = k" using assms(2) by simp
    have a: "1 \<le> DPS_RxBufferAvail b" using b by simp
    from m show ?thesis
      using skip_branch(1,2) [OF a h, of fuel] d u l by auto
  qed
qed

lemma rx_byte_first: "rx_rem b = x # xs \<Longrightarrow> rx_byte b 0 = x"
  using rx_byte_append [of b "[x]" xs 0] by simp

lemma skip_simple:
  "skips (skip_fuel (Suc fuel)) (item_bytes (Bool i))"
  "skips (skip_fuel (Suc fuel)) (item_bytes Null)"
  "skips (skip_fuel (Suc fuel)) (item_bytes (Float32 f))"
  "skips (skip_fuel (Suc fuel)) (item_bytes (Float64 d))"
  by (auto simp: skips_def skip_fuel.simps Let_def rx_byte_first cbor_consts float_payload_def double_payload_def)


lemma length_concat_member: "x \<in> set xs \<Longrightarrow> length (f x) \<le> length (concat (map f xs))"
  by (induction xs) auto

lemma length_concat_ge: "\<forall>x \<in> set xs. f x \<noteq> [] \<Longrightarrow> length xs \<le> length (concat (map f xs))"
proof (induction xs)
  case (Cons x xs)
  then have "1 \<le> length (f x)" by (cases "f x") auto
  with Cons show ?case by simp
qed simp

text \<open>A list of \<open>2 ^ 32\<close> or more elements does not fit into a buffer.\<close>

lemma skips_nonempty: "(length bs < 2 ^ 32 \<Longrightarrow> skips f bs) \<Longrightarrow> skips f bs"
proof (rule skipsI)
  fix b rest
  assume *: "length bs < 2 ^ 32 \<Longrightarrow> skips f bs" and b: "rx_wf b" "rx_rem b = bs @ rest"
  have "length bs < 2 ^ 32" using rx_rem_bound [OF b(1)] b(2) by simp
  with * b show "f b = Some (DPS_OK, rx_advance b (length bs))" by (intro skipsD) auto
qed

lemma skip_item: "length (item_bytes it) < fuel \<Longrightarrow> skips (skip_fuel fuel) (item_bytes it)"
proof (induction it arbitrary: fuel)
  case (Arr xs)
  from Arr.prems obtain g where g: "fuel = Suc g" by (cases fuel) auto
  have "\<forall>x\<in>set xs. skips (skip_fuel g) (item_bytes x)"
    using Arr.prems g length_concat_member [of _ xs item_bytes]
    by (intro ballI Arr.IH) fastforce+
  note loop = skips_loop [OF this]
  show ?case unfolding g item_bytes.simps
  proof (rule skips_nonempty, rule skip_nested [OF loop])
    assume "length (uint_bytes (len32 (length xs)) CBOR_ARRAY @ concat (map item_bytes xs)) < 2 ^ 32"
    then show "length xs < 2 ^ 32"
      using length_concat_ge [of xs item_bytes] item_bytes_nonempty by simp
  qed simp
next
  case (Map kvs)
  let ?e = "\<lambda>(k, v). item_bytes k @ item_bytes v"
  from Map.prems obtain g where g: "fuel = Suc g" by (cases fuel) auto
  have "skips (skip_pair (skip_fuel g)) (?e kv)" if "kv \<in> set kvs" for kv
  proof -
    obtain k v where kv: "kv = (k, v)" by (cases kv)
    have "length (?e kv) < g"
      using Map.prems g length_concat_member [OF that, of ?e] by simp
    then show ?thesis
      using Map.IH [OF that, of k g] Map.IH [OF that, of v g] kv by (auto intro!: skips_pair)
  qed
  then have "\<forall>kv \<in> set kvs. skips (skip_pair (skip_fuel g)) (?e kv)" by blast
  note loop = skips_loop [OF this]
  have ne: "\<forall>kv \<in> set kvs. ?e kv \<noteq> []" using item_bytes_nonempty by auto
  show ?case unfolding g item_bytes.simps
  proof (rule skips_nonempty, rule skip_nested [OF loop])
    assume "length (uint_bytes (len32 (length kvs)) CBOR_MAP @ concat (map ?e kvs)) < 2 ^ 32"
    then show "length kvs < 2 ^ 32"
      using length_concat_ge [OF ne] by simp
  qed simp
next
  case (Bytes s)
  then show ?case by (cases fuel) (simp_all add: skip_strings)
next
  case (Text s)
  then show ?case by (cases fuel) (simp_all add: skip_strings)
next
  case (UInt n)
  then show ?case by (cases fuel) (simp_all add: skip_int)
next
  case (NegInt n)
  then show ?case by (cases fuel) (simp_all add: skip_int)
next
  case (Bool i)
  then show ?case by (cases fuel) (simp_all add: skip_simple del: item_bytes.simps)
next
  case Null
  then show ?case by (cases fuel) (simp_all add: skip_simple del: item_bytes.simps)
next
  case (Float32 f)
  then show ?case by (cases fuel) (simp_all add: skip_simple del: item_bytes.simps)
next
  case (Float64 d)
  then show ?case by (cases fuel) (simp_all add: skip_simple del: item_bytes.simps)
qed


lemma CBOR_Skip_item:
  assumes "rx_wf b" "rx_rem b = item_bytes it @ rest"
  shows "CBOR_Skip b =
    (DPS_OK, rx_advance b (length (item_bytes it)),
     Some (rx_byte b 0 AND 0xE0, length (item_bytes it)))"
proof -
  have "length (item_bytes it) < Suc (length (rx_rem b))" using assms(2) by simp
  from skipsD [OF skip_item [OF this] assms] have
    "skip_fuel (Suc (length (rx_rem b))) b = Some (DPS_OK, rx_advance b (length (item_bytes it)))" .
  then show ?thesis using assms item_bytes_nonempty [of it] by (simp add: CBOR_Skip_def)
qed

lemma CBOR_Skip_total:
  assumes "rx_wf b"
  obtains r b' where "skip_fuel (Suc (length (rx_rem b))) b = Some (r, b')" "fst (CBOR_Skip b) = r"
    "fst (snd (CBOR_Skip b)) = b'" "rx_follows b b'" "r = DPS_OK \<Longrightarrow> rxPos b < rxPos b'"
  using skips_okD [OF skip_fuel_enough assms, of "Suc (length (rx_rem b))"] that
  by (auto simp: CBOR_Skip_def)

section \<open>The map parser\<close>

text \<open>The key arrays with their counts are the lists of the keys that are still to be matched.\<close>

record CBOR_MapState =
  ms_buffer :: DPS_RxBuffer
  ms_needs :: "int list"
  ms_wants :: "int list"
  ms_entries :: nat
  ms_result :: DPS_Status

definition DPS_ParseMapInit ::
  "DPS_RxBuffer \<Rightarrow> int list \<Rightarrow> int list \<Rightarrow> CBOR_MapState" where
  "DPS_ParseMapInit buffer keys optKeys =
     (case CBOR_DecodeMap buffer of
        (Inl e, b) \<Rightarrow> \<lparr>ms_buffer = b, ms_needs = keys, ms_wants = optKeys, ms_entries = 0, ms_result = e\<rparr>
      | (Inr n, b) \<Rightarrow> \<lparr>ms_buffer = b, ms_needs = keys, ms_wants = optKeys, ms_entries = n, ms_result = DPS_OK\<rparr>)"

text \<open>
  The inner loop over the optional keys: keys below \<open>k\<close> are dropped; the flag tells whether \<open>k\<close>
  itself was found, in which case it is dropped too.
\<close>

fun match_wants :: "int \<Rightarrow> int list \<Rightarrow> bool \<times> int list" where
  "match_wants k [] = (False, [])"
| "match_wants k (w # ws) =
     (if k < w then (False, w # ws)
      else if k = w then (True, ws)
      else match_wants k ws)"

text \<open>
  The main loop, on the number of remaining entries. The second component is the key written to
  the output parameter, if one was.
\<close>

primrec parse_entries :: "nat \<Rightarrow> CBOR_MapState \<Rightarrow> CBOR_MapState \<times> int option" where
  "parse_entries 0 ms = (ms\<lparr>ms_entries := 0\<rparr>, None)"
| "parse_entries (Suc n) ms =
     (if ms_needs ms = [] \<and> ms_wants ms = [] then (ms\<lparr>ms_entries := Suc n\<rparr>, None)
      else case CBOR_DecodeInt32 (ms_buffer ms) of
          (Inl e, b) \<Rightarrow> (ms\<lparr>ms_entries := n, ms_buffer := b, ms_result := e\<rparr>, None)
        | (Inr kw, b) \<Rightarrow>
            let k = sint kw; ms = ms\<lparr>ms_entries := n, ms_buffer := b, ms_result := DPS_OK\<rparr> in
            if ms_needs ms \<noteq> [] \<and> k = hd (ms_needs ms) then
              (ms\<lparr>ms_needs := tl (ms_needs ms)\<rparr>, Some k)
            else if ms_needs ms \<noteq> [] \<and> k > hd (ms_needs ms) then
              (ms\<lparr>ms_result := DPS_ERR_MISSING\<rparr>, None)
            else case match_wants k (ms_wants ms) of
                (True, ws) \<Rightarrow> (ms\<lparr>ms_wants := ws\<rparr>, Some k)
              | (False, ws) \<Rightarrow>
                  let ms = ms\<lparr>ms_wants := ws\<rparr> in
                  (case CBOR_Skip (ms_buffer ms) of
                     (ret, b', _) \<Rightarrow>
                       let ms = ms\<lparr>ms_buffer := b', ms_result := ret\<rparr> in
                       if ret \<noteq> DPS_OK then (ms, None) else parse_entries n ms))"

definition DPS_ParseMapNext :: "CBOR_MapState \<Rightarrow> CBOR_MapState \<times> int option" where
  "DPS_ParseMapNext ms =
     (if ms_result ms \<noteq> DPS_OK then (ms, None)
      else case parse_entries (ms_entries ms) (ms\<lparr>ms_result := DPS_ERR_MISSING\<rparr>) of
          (ms', key) \<Rightarrow>
            if ms_result ms' \<noteq> DPS_OK then (ms', key)
            else if ms_needs ms' \<noteq> [] \<and> ms_entries ms' = 0
            then (ms'\<lparr>ms_result := DPS_ERR_MISSING\<rparr>, key)
            else (ms', key))"

primrec skip_entries :: "nat \<Rightarrow> CBOR_MapState \<Rightarrow> bool \<times> CBOR_MapState" where
  "skip_entries 0 ms = (True, ms\<lparr>ms_entries := 0\<rparr>)"
| "skip_entries (Suc n) ms =
     (case CBOR_DecodeInt32 (ms_buffer ms) of
        (Inl e, b) \<Rightarrow> (False, ms\<lparr>ms_entries := n, ms_buffer := b, ms_result := e\<rparr>)
      | (Inr k, b) \<Rightarrow>
          (case CBOR_Skip b of
             (ret, b', _) \<Rightarrow>
               let ms = ms\<lparr>ms_entries := n, ms_buffer := b', ms_result := ret\<rparr> in
               if ret \<noteq> DPS_OK then (False, ms) else skip_entries n ms))"

definition DPS_ParseMapDone :: "CBOR_MapState \<Rightarrow> bool \<times> CBOR_MapState" where
  "DPS_ParseMapDone ms =
     (if ms_needs ms \<noteq> [] then (False, ms)
      else if ms_wants ms \<noteq> [] \<and> ms_entries ms \<noteq> 0 then (False, ms)
      else skip_entries (ms_entries ms) ms)"

section \<open>Parsing ascending maps\<close>

text \<open>A map entry as it is encoded: a 32-bit key and an item.\<close>

definition entry_bytes :: "int \<times> item \<Rightarrow> u8 list" where
  "entry_bytes kv = int_bytes (word_of_int (fst kv)) @ item_bytes (snd kv)"

definition key32 :: "int \<Rightarrow> bool" where
  "key32 k \<longleftrightarrow> -(2 ^ 31) \<le> k \<and> k < 2 ^ 31"

lemma sint_key:
  assumes "key32 k"
  shows "sint (word_of_int k :: u64) = k" "sint (ucast (word_of_int k :: u64) :: u32) = k"
proof -
  have "(ucast (word_of_int k :: u64) :: u32) = word_of_int k"
    by transfer simp
  then show "sint (word_of_int k :: u64) = k" "sint (ucast (word_of_int k :: u64) :: u32) = k"
    using assms by (simp_all add: key32_def sint_sbintrunc' signed_take_bit_int_eq_self)
qed

lemma CBOR_DecodeInt32_key:
  assumes "rx_wf b" "rx_rem b = int_bytes (word_of_int k) @ rest" "key32 k"
  shows "CBOR_DecodeInt32 b = (Inr (ucast (word_of_int k :: u64)),
      rx_advance b (length (int_bytes (word_of_int k))))"
  using int.dec_img [OF assms(1) _ assms(2)] sint_key [OF assms(3)] assms(3)
  by (simp add: CBOR_DecodeInt32_def key32_def)

lemma match_wants_found:
  "sorted ws \<Longrightarrow> k \<in> set ws \<Longrightarrow>
   \<exists>us vs. ws = us @ k # vs \<and> match_wants k ws = (True, vs) \<and> (\<forall>u\<in>set us. u < k)"
proof (induction ws)
  case (Cons w ws)
  show ?case
  proof (cases "k = w")
    case False
    with Cons have "w < k" and "k \<in> set ws" by auto
    with Cons obtain us vs where "ws = us @ k # vs" "match_wants k ws = (True, vs)" "\<forall>u\<in>set us. u < k"
      by auto
    with \<open>w < k\<close> show ?thesis by (intro exI [of _ "w # us"] exI [of _ vs]) auto
  qed (use Cons in \<open>auto intro!: exI [of _ "[]"]\<close>)
qed simp

lemma match_wants_other:
  "sorted ws \<Longrightarrow> k \<notin> set ws \<Longrightarrow>
   \<exists>us vs. ws = us @ vs \<and> match_wants k ws = (False, vs) \<and> (\<forall>u\<in>set us. u < k)"
proof (induction ws)
  case (Cons w ws)
  show ?case
  proof (cases "k < w")
    case False
    with Cons obtain us vs where "ws = us @ vs" "match_wants k ws = (False, vs)" "\<forall>u\<in>set us. u < k"
      by auto
    with False Cons.prems show ?thesis by (intro exI [of _ "w # us"] exI [of _ vs]) auto
  qed (auto intro!: exI [of _ "[]"])
qed simp


text \<open>One entry whose key is neither needed nor wanted is skipped.\<close>

lemma parse_entries_skip:
  assumes "rx_wf (ms_buffer ms)" "rx_rem (ms_buffer ms) = entry_bytes (k, v) @ rest" "key32 k"
    and "\<forall>n \<in> set (ms_needs ms). k < n" "match_wants k (ms_wants ms) = (False, vs)"
    and "ms_needs ms \<noteq> [] \<or> ms_wants ms \<noteq> []"
  shows "parse_entries (Suc n) ms = parse_entries n
    (ms\<lparr>ms_buffer := rx_advance (ms_buffer ms) (length (entry_bytes (k, v))),
        ms_wants := vs, ms_result := DPS_OK, ms_entries := n\<rparr>)"
proof -
  let ?b = "rx_advance (ms_buffer ms) (length (int_bytes (word_of_int k)))"
  have d: "CBOR_DecodeInt32 (ms_buffer ms) = (Inr (ucast (word_of_int k :: u64)), ?b)"
    using assms(1-3) by (intro CBOR_DecodeInt32_key [where rest = "item_bytes v @ rest"])
      (auto simp: entry_bytes_def)
  have "rx_wf ?b" "rx_rem ?b = item_bytes v @ rest"
    using assms(1,2) by (auto simp: entry_bytes_def intro!: rx_wf_advance)
  from CBOR_Skip_item [OF this] have "CBOR_Skip ?b =
      (DPS_OK, rx_advance (ms_buffer ms) (length (entry_bytes (k, v))),
       Some (rx_byte ?b 0 AND 0xE0, length (item_bytes v)))"
    by (simp add: entry_bytes_def)
  moreover have "ms_needs ms \<noteq> [] \<Longrightarrow> k < hd (ms_needs ms)"
    using assms(4) by simp
  ultimately show ?thesis using d assms(5,6) sint_key [OF assms(3)] by (cases ms) (auto simp: Let_def)
qed

lemma parse_entries_hit:
  assumes "rx_wf (ms_buffer ms)" "rx_rem (ms_buffer ms) = entry_bytes (k, v) @ rest" "key32 k"
    and "sorted (ms_needs ms)" "sorted (ms_wants ms)" "\<forall>n \<in> set (ms_needs ms). k \<le> n"
    and "k \<in> set (ms_needs ms) \<union> set (ms_wants ms)"
  shows "\<exists>us vs. ms_wants ms = us @ vs \<and> (\<forall>u \<in> set us. u \<le> k) \<and>
    parse_entries (Suc n) ms =
      (ms\<lparr>ms_buffer := rx_advance (ms_buffer ms) (length (int_bytes (word_of_int k))),
          ms_needs := (if k \<in> set (ms_needs ms) then tl (ms_needs ms) else ms_needs ms),
          ms_wants := vs, ms_result := DPS_OK, ms_entries := n\<rparr>, Some k)"
proof -
  have d: "CBOR_DecodeInt32 (ms_buffer ms) =
      (Inr (ucast (word_of_int k :: u64)), rx_advance (ms_buffer ms) (length (int_bytes (word_of_int k))))"
    using assms(1-3) by (intro CBOR_DecodeInt32_key [where rest = "item_bytes v @ rest"])
      (auto simp: entry_bytes_def)
  show ?thesis
  proof (cases "k \<in> set (ms_needs ms)")
    case True
    then obtain ns where "ms_needs ms = k # ns"
      using assms(4,6) by (cases "ms_needs ms") force+
    then show ?thesis using d sint_key [OF assms(3)]
      by (intro exI [of _ "[]"] exI [of _ "ms_wants ms"]) (cases ms; simp add: Let_def)
  next
    case False
    then have "k \<in> set (ms_wants ms)" using assms(7) by simp
    then obtain us vs where w: "ms_wants ms = us @ k # vs" "match_wants k (ms_wants ms) = (True, vs)"
      "\<forall>u\<in>set us. u < k" using match_wants_found [OF assms(5)] by blast
    have "ms_needs ms \<noteq> [] \<Longrightarrow> k < hd (ms_needs ms)"
      using assms(6) False by (metis hd_in_set le_neq_trans)
    then show ?thesis using d w False sint_key [OF assms(3)]
      by (intro exI [of _ "us @ [k]"] exI [of _ vs]) (cases ms; auto simp: Let_def)
  qed
qed

declare parse_entries.simps [simp del]

text \<open>The parser stops at the first entry that is needed or wanted, right before its value.\<close>

lemma parse_entries_find:
  assumes "rx_wf (ms_buffer ms)"
    and "rx_rem (ms_buffer ms) = concat (map entry_bytes pre) @ entry_bytes (k, v) @ rest"
    and "sorted (ms_needs ms)" "sorted (ms_wants ms)" "\<forall>n \<in> set (ms_needs ms). k \<le> n"
    and "k \<in> set (ms_needs ms) \<union> set (ms_wants ms)" "key32 k"
    and "\<forall>(k', v') \<in> set pre. key32 k' \<and> k' < k \<and> k' \<notin> set (ms_wants ms)"
  shows "\<exists>us vs. ms_wants ms = us @ vs \<and> (\<forall>u \<in> set us. u \<le> k) \<and>
    parse_entries (length pre + Suc n) ms =
      (ms\<lparr>ms_buffer := rx_advance (ms_buffer ms)
             (length (concat (map entry_bytes pre)) + length (int_bytes (word_of_int k))),
          ms_needs := (if k \<in> set (ms_needs ms) then tl (ms_needs ms) else ms_needs ms),
          ms_wants := vs, ms_result := DPS_OK, ms_entries := n\<rparr>, Some k)"
  using assms
proof (induction pre arbitrary: ms)
  case Nil
  then show ?case using parse_entries_hit [of ms k v rest n] by simp
next
  case (Cons kv pre)
  obtain k' v' where kv: "kv = (k', v')" by (cases kv)
  have k': "key32 k'" "k' < k" "k' \<notin> set (ms_wants ms)" using Cons.prems(8) kv by auto
  obtain us vs where w: "ms_wants ms = us @ vs" "match_wants k' (ms_wants ms) = (False, vs)"
    "\<forall>u\<in>set us. u < k'" using match_wants_other [OF Cons.prems(4) k'(3)] by blast
  let ?ms = "ms\<lparr>ms_buffer := rx_advance (ms_buffer ms) (length (entry_bytes (k', v'))),
        ms_wants := vs, ms_result := DPS_OK, ms_entries := length pre + Suc n\<rparr>"
  have step: "parse_entries (Suc (length pre + Suc n)) ms = parse_entries (length pre + Suc n) ?ms"
    using Cons.prems kv k' w(2)
    by (intro parse_entries_skip [where rest = "concat (map entry_bytes pre) @ entry_bytes (k, v) @ rest"])
      (force, simp, simp, force, simp, force)
  have "rx_wf (ms_buffer ?ms)"
    using Cons.prems(1,2) kv by (auto intro!: rx_wf_advance)
  moreover have "rx_rem (ms_buffer ?ms) = concat (map entry_bytes pre) @ entry_bytes (k, v) @ rest"
    using Cons.prems(2) kv by simp
  moreover have "sorted (ms_needs ?ms)" "sorted (ms_wants ?ms)"
    using Cons.prems(3,4) w(1) by (simp_all add: sorted_append)
  moreover have "\<forall>n \<in> set (ms_needs ?ms). k \<le> n" using Cons.prems(5) by simp
  moreover have "k \<in> set (ms_needs ?ms) \<union> set (ms_wants ?ms)" using Cons.prems(6) w k' by auto
  moreover have "\<forall>(k', v') \<in> set pre. key32 k' \<and> k' < k \<and> k' \<notin> set (ms_wants ?ms)"
    using Cons.prems(8) w(1) by auto
  ultimately have "\<exists>us' vs'. ms_wants ?ms = us' @ vs' \<and> (\<forall>u \<in> set us'. u \<le> k) \<and>
    parse_entries (length pre + Suc n) ?ms =
      (?ms\<lparr>ms_buffer := rx_advance (ms_buffer ?ms)
             (length (concat (map entry_bytes pre)) + length (int_bytes (word_of_int k))),
          ms_needs := (if k \<in> set (ms_needs ?ms) then tl (ms_needs ?ms) else ms_needs ?ms),
          ms_wants := vs', ms_result := DPS_OK, ms_entries := n\<rparr>, Some k)"
    using Cons.prems(7) by (intro Cons.IH)
  then obtain us' vs' where v': "ms_wants ?ms = us' @ vs'" "\<forall>u \<in> set us'. u \<le> k" and
    fin: "parse_entries (length pre + Suc n) ?ms =
      (?ms\<lparr>ms_buffer := rx_advance (ms_buffer ?ms)
             (length (concat (map entry_bytes pre)) + length (int_bytes (word_of_int k))),
          ms_needs := (if k \<in> set (ms_needs ?ms) then tl (ms_needs ?ms) else ms_needs ?ms),
          ms_wants := vs', ms_result := DPS_OK, ms_entries := n\<rparr>, Some k)"
    by blast
  have "\<forall>u \<in> set (us @ us'). u \<le> k" using v'(2) w(3) k' by auto
  moreover have "parse_entries (length (kv # pre) + Suc n) ms =
      (ms\<lparr>ms_buffer := rx_advance (ms_buffer ms)
             (length (concat (map entry_bytes (kv # pre))) + length (int_bytes (word_of_int k))),
          ms_needs := (if k \<in> set (ms_needs ms) then tl (ms_needs ms) else ms_needs ms),
          ms_wants := vs', ms_result := DPS_OK, ms_entries := n\<rparr>, Some k)"
    using step fin kv by (cases ms) (simp add: add.assoc)
  ultimately show ?case using w(1) v'(1) by (intro exI [of _ "us @ us'"] exI [of _ vs']) simp
qed

section \<open>Properties of the skipper and the map parser\<close>



text \<open>C26: on arbitrary input \<open>CBOR_Skip\<close> returns: one unit of fuel more than there are bytes left
  is enough for its recursion. It never moves outside the received data, and consumes at least
  one byte when it succeeds.\<close>

theorem cbor_skip_terminates:
  assumes "rx_wf b"
  shows "\<exists>r b'. skip_fuel (Suc (length (rx_rem b))) b = Some (r, b') \<and>
    fst (CBOR_Skip b) = r \<and> fst (snd (CBOR_Skip b)) = b' \<and>
    rx_follows b b' \<and> (r = DPS_OK \<longrightarrow> rxPos b < rxPos b')"
  using CBOR_Skip_total [OF assms] by metis

theorem cbor_skip_terminates_witness:
  "\<exists>r b'. skip_fuel 3 \<lparr>rx_base = [0x9B, 0x81], rxPos = 0\<rparr> = Some (r, b') \<and>
     rx_follows \<lparr>rx_base = [0x9B, 0x81], rxPos = 0\<rparr> b'"
proof -
  have "rx_wf \<lparr>rx_base = [0x9B, 0x81], rxPos = 0\<rparr>" by (simp add: rx_wf_def)
  from cbor_skip_terminates [OF this] show ?thesis by (auto simp: rx_rem_def numeral_3_eq_3)
qed

text \<open>a tag and the item it tags are one item, but \<open>CBOR_Skip\<close> steps over the tag alone: on any
  tagged item it reports success and leaves the buffer in front of the tagged content.\<close>

theorem cbor_skip_stops_at_tag:
  assumes "rx_wf b" "rx_rem b = uint_bytes n CBOR_TAG @ item_bytes it @ rest"
  shows "fst (CBOR_Skip b) = DPS_OK \<and> rx_rem (fst (snd (CBOR_Skip b))) = item_bytes it @ rest"
proof -
  let ?f = "length (rx_rem b)"
  have "DPS_RxBufferAvail b \<ge> 1" using assms by simp
  note h = header_bytes [OF assms is_major_consts(7)]
  have "skip_fuel (Suc ?f) b = Some (DPS_OK, rx_advance b (Requires n + 1))"
    using skip_branch(5) [OF \<open>DPS_RxBufferAvail b \<ge> 1\<close> h(1), of ?f] h(2) assms by (simp add: Let_def)
  then show ?thesis using assms by (simp add: CBOR_Skip_def)
qed

theorem cbor_skip_stops_at_tag_witness:
  "fst (CBOR_Skip \<lparr>rx_base = [0xC1, 0x05], rxPos = 0\<rparr>) = DPS_OK \<and>
   rx_rem (fst (snd (CBOR_Skip \<lparr>rx_base = [0xC1, 0x05], rxPos = 0\<rparr>))) = [0x05]"
proof -
  let ?r = "\<lparr>rx_base = [0xC1, 0x05], rxPos = 0\<rparr> :: DPS_RxBuffer"
  have i: "item_bytes (UInt 5) = [5]" "uint_bytes 1 CBOR_TAG = [0xC1]"
    by (simp_all add: uint_bytes_def Requires_def byte_at_def cbor_consts)
  show ?thesis
    using cbor_skip_stops_at_tag [of ?r 1 "UInt 5" "[]"] unfolding i by (simp add: rx_wf_def rx_rem_def)
qed




text \<open>with only optional keys left, \<open>DPS_ParseMapNext\<close> can return \<open>DPS_OK\<close> without having found a
  key and without writing the output parameter, although it is documented to return \<open>DPS_OK\<close>
  when a key was matched: this happens when the last entry has a key that is not asked for.\<close>

theorem parse_map_next_no_key:
  assumes "ms_result ms = DPS_OK" "rx_wf (ms_buffer ms)" "ms_entries ms = 1"
    and "rx_rem (ms_buffer ms) = entry_bytes (k, v) @ rest" "key32 k"
    and "ms_needs ms = []" "ms_wants ms \<noteq> []" "sorted (ms_wants ms)" "k \<notin> set (ms_wants ms)"
  shows "\<exists>ms'. DPS_ParseMapNext ms = (ms', None) \<and> ms_result ms' = DPS_OK"
proof -
  obtain vs where "match_wants k (ms_wants ms) = (False, vs)"
    using match_wants_other [OF assms(8,9)] by blast
  then have "parse_entries (Suc 0) (ms\<lparr>ms_result := DPS_ERR_MISSING\<rparr>) = parse_entries 0
    (ms\<lparr>ms_result := DPS_ERR_MISSING,
        ms_buffer := rx_advance (ms_buffer ms) (length (entry_bytes (k, v))),
        ms_wants := vs, ms_result := DPS_OK, ms_entries := 0\<rparr>)"
    using parse_entries_skip [of "ms\<lparr>ms_result := DPS_ERR_MISSING\<rparr>" k v rest vs 0] assms by simp
  then show ?thesis using assms by (simp add: DPS_ParseMapNext_def parse_entries.simps(1))
qed

theorem parse_map_next_no_key_witness:
  "\<exists>ms'. DPS_ParseMapNext \<lparr>ms_buffer = \<lparr>rx_base = [1, 0x20], rxPos = 0\<rparr>,
       ms_needs = [], ms_wants = [2], ms_entries = 1, ms_result = DPS_OK\<rparr> = (ms', None) \<and>
     ms_result ms' = DPS_OK"
  by (rule parse_map_next_no_key [where k = 1 and v = "NegInt 0" and rest = "[]"])
    (simp_all add: rx_wf_def rx_rem_def key32_def entry_bytes_def int_bytes_def uint_bytes_def
      Requires_def byte_at_def cbor_consts)

end
