(* ===== verification/Bit_Vector.thy ===== *)
theory Bit_Vector
  imports Complex_Main Cbor
begin

text \<open>
  The bit vectors (Bloom filters) of \<^verbatim>\<open>src/bitvec.c\<close>: configuration, allocation,
  Bloom insertion and test, comparison, and the bitwise operations, with the cached population
  count (\<open>-1\<close> when it is not known). A vector is abstracted to the set of its bit positions;
  every operation is shown to compute the set operation it stands for and to keep the invariant
  \<open>bv_wf\<close>, and the interface \<open>bit_set\<close> collects these laws for the users of bit vectors.
\<close>

section \<open>Data\<close>

record Configuration =
  bitLen :: nat
  numHashes :: nat

record DPS_BitVector =
  popCount :: int
  bv_len :: nat
  bits :: "u64 list"

definition MIN_HASHES :: nat where "MIN_HASHES = 1"
definition MAX_HASHES :: nat where "MAX_HASHES = 8"
definition FH_BITVECTOR_LEN :: nat where "FH_BITVECTOR_LEN = 4 * 64"

text \<open>\<^verbatim>\<open>SET_BIT\<close> and \<^verbatim>\<open>TEST_BIT\<close> on an array of 64-bit chunks\<close>

definition SET_BIT :: "u64 list \<Rightarrow> nat \<Rightarrow> u64 list" where
  "SET_BIT a b = a[b div 64 := (a ! (b div 64)) OR push_bit (b mod 64) 1]"

definition TEST_BIT :: "u64 list \<Rightarrow> nat \<Rightarrow> bool" where
  "TEST_BIT a b = ((a ! (b div 64)) AND push_bit (b mod 64) 1 \<noteq> 0)"

definition ROTL64 :: "u64 \<Rightarrow> nat \<Rightarrow> u64" where
  "ROTL64 n r = push_bit r n OR drop_bit (64 - r) n"

definition POPCOUNT :: "u64 \<Rightarrow> nat" where
  "POPCOUNT n = length (filter (bit n) [0..<64])"

section \<open>Operations\<close>

definition DPS_Configure :: "Configuration \<Rightarrow> nat \<Rightarrow> nat \<Rightarrow> DPS_Status \<times> Configuration" where
  "DPS_Configure config bitLen' numHashes' =
     (if bitLen' mod 64 \<noteq> 0 then (DPS_ERR_ARGS, config)
      else if numHashes' < MIN_HASHES \<or> numHashes' > MAX_HASHES then (DPS_ERR_ARGS, config)
      else (DPS_OK, \<lparr>bitLen = bitLen', numHashes = numHashes'\<rparr>))"

text \<open>\<open>mem\<close> tells whether the allocation succeeds.\<close>

definition AllocBV :: "bool \<Rightarrow> nat \<Rightarrow> DPS_BitVector option" where
  "AllocBV mem sz =
     (if mem then Some \<lparr>popCount = -1, bv_len = sz, bits = replicate (sz div 64) 0\<rparr> else None)"

definition DPS_BitVectorAlloc :: "bool \<Rightarrow> Configuration \<Rightarrow> DPS_BitVector option" where
  "DPS_BitVectorAlloc mem config = AllocBV mem (bitLen config)"

definition DPS_BitVectorAllocFH :: "bool \<Rightarrow> DPS_BitVector option" where
  "DPS_BitVectorAllocFH mem = AllocBV mem FH_BITVECTOR_LEN"

definition DPS_BitVectorIsClear :: "DPS_BitVector \<Rightarrow> bool \<times> DPS_BitVector" where
  "DPS_BitVectorIsClear bv =
     (if popCount bv < 0 then
        (if \<exists>c \<in> set (bits bv). c \<noteq> 0 then (False, bv) else (True, bv\<lparr>popCount := 0\<rparr>))
      else (popCount bv = 0, bv))"

text \<open>The sum is a \<open>uint32_t\<close>, stored in an \<open>int32_t\<close> and returned as \<open>size_t\<close>.\<close>

definition DPS_BitVectorPopCount :: "DPS_BitVector \<Rightarrow> nat \<times> DPS_BitVector" where
  "DPS_BitVectorPopCount bv =
     (let bv' = (if popCount bv < 0
                 then bv\<lparr>popCount := sint (word_of_nat (sum_list (map POPCOUNT (bits bv))) :: u32)\<rparr>
                 else bv)
      in (nat (popCount bv' mod 2 ^ 64), bv'))"

definition DPS_BitVectorDup :: "DPS_BitVector \<Rightarrow> DPS_BitVector \<Rightarrow> DPS_BitVector" where
  "DPS_BitVectorDup dst src = dst\<lparr>bits := bits src, popCount := popCount src\<rparr>"

definition DPS_BitVectorClone :: "bool \<Rightarrow> DPS_BitVector \<Rightarrow> DPS_BitVector option" where
  "DPS_BitVectorClone mem bv = (if mem then Some bv else None)"

text \<open>
  The SHA-256 digest of mbed TLS, called by \<open>DPS_Sha2\<close>, is the parameter \<open>sha2\<close>: 32 bytes for any
  input, read as 8 little-endian 32-bit words.
\<close>

definition hash_word :: "u8 list \<Rightarrow> nat \<Rightarrow> nat" where
  "hash_word digest h =
     unat (digest ! (4 * h)) + 2 ^ 8 * unat (digest ! (4 * h + 1)) +
     2 ^ 16 * unat (digest ! (4 * h + 2)) + 2 ^ 24 * unat (digest ! (4 * h + 3))"

definition bloom_index :: "(u8 list \<Rightarrow> u8 list) \<Rightarrow> DPS_BitVector \<Rightarrow> u8 list \<Rightarrow> nat \<Rightarrow> nat" where
  "bloom_index sha2 bv data h = hash_word (sha2 data) h mod bv_len bv"

definition DPS_BitVectorBloomInsert ::
  "(u8 list \<Rightarrow> u8 list) \<Rightarrow> Configuration \<Rightarrow> DPS_BitVector \<Rightarrow> u8 list \<Rightarrow> DPS_BitVector" where
  "DPS_BitVectorBloomInsert sha2 config bv data =
     bv\<lparr>bits := foldl SET_BIT (bits bv) (map (bloom_index sha2 bv data) [0..<numHashes config]),
        popCount := -1\<rparr>"

definition DPS_BitVectorBloomTest ::
  "(u8 list \<Rightarrow> u8 list) \<Rightarrow> Configuration \<Rightarrow> DPS_BitVector \<Rightarrow> u8 list \<Rightarrow> bool" where
  "DPS_BitVectorBloomTest sha2 config bv data =
     list_all (\<lambda>h. TEST_BIT (bits bv) (bloom_index sha2 bv data h)) [0..<numHashes config]"

text \<open>
  The load factor in percent, as an exact fraction: rounding it to a \<open>float\<close> does not change the
  comparisons with 30 and 70 for vectors shorter than \<open>2 ^ 18\<close> bits, where the fraction is either one
  of these numbers or further from it than half a unit in the last place of a \<open>float\<close>.
\<close>

definition DPS_BitVectorLoadFactor :: "DPS_BitVector \<Rightarrow> rat \<times> DPS_BitVector" where
  "DPS_BitVectorLoadFactor bv =
     (case DPS_BitVectorPopCount bv of
        (n, bv') \<Rightarrow> ((100 * of_nat n + 1) / of_nat (bv_len bv'), bv'))"

definition DPS_BitVectorEquals :: "DPS_BitVector option \<Rightarrow> DPS_BitVector option \<Rightarrow> bool" where
  "DPS_BitVectorEquals bv1 bv2 =
     (case (bv1, bv2) of
        (Some b1, Some b2) \<Rightarrow>
          if bv_len b1 \<noteq> bv_len b2 then False else list_all2 (=) (bits b1) (bits b2)
      | _ \<Rightarrow> False)"

fun includes_loop :: "u64 list \<Rightarrow> u64 list \<Rightarrow> u64 \<Rightarrow> bool" where
  "includes_loop (b1 # b1s) (b2 # b2s) b1un =
     (if b1 AND b2 \<noteq> b2 then False else includes_loop b1s b2s (b1un OR b1))"
| "includes_loop _ _ b1un = (b1un \<noteq> 0)"

definition DPS_BitVectorIncludes :: "DPS_BitVector option \<Rightarrow> DPS_BitVector option \<Rightarrow> bool" where
  "DPS_BitVectorIncludes bv1 bv2 =
     (case (bv1, bv2) of
        (Some b1, Some b2) \<Rightarrow>
          if popCount b1 = 0 then False else includes_loop (bits b1) (bits b2) 0
      | _ \<Rightarrow> False)"

definition DPS_BitVectorFill :: "DPS_BitVector option \<Rightarrow> DPS_BitVector option" where
  "DPS_BitVectorFill bvp =
     (case bvp of
        None \<Rightarrow> None
      | Some bv \<Rightarrow> Some (bv\<lparr>bits := replicate (bv_len bv div 64) (-1),
                             popCount := sint (word_of_nat (bv_len bv) :: u32)\<rparr>))"

definition DPS_BitVectorClear :: "DPS_BitVector \<Rightarrow> DPS_BitVector" where
  "DPS_BitVectorClear bv =
     (if popCount bv \<noteq> 0 then bv\<lparr>bits := replicate (bv_len bv div 64) 0, popCount := 0\<rparr> else bv)"

text \<open>The new count \<^verbatim>\<open>(uint32_t)bv->len - bv->popCount\<close> is computed modulo \<open>2 ^ 32\<close> and stored
  in an \<open>int32_t\<close>.\<close>

definition DPS_BitVectorComplement :: "DPS_BitVector \<Rightarrow> DPS_BitVector" where
  "DPS_BitVectorComplement bv =
     (let bv' = bv\<lparr>bits := map (\<lambda>c. NOT c) (bits bv)\<rparr> in
      if popCount bv \<noteq> 0
      then bv'\<lparr>popCount := sint (word_of_int (int (bv_len bv) - popCount bv) :: u32)\<rparr> else bv')"

text \<open>The results are the updated \<open>hash\<close> and the updated \<open>bv\<close>, whose count is computed on the way.\<close>

definition DPS_BitVectorFuzzyHash ::
  "DPS_BitVector option \<Rightarrow> DPS_BitVector option \<Rightarrow>
   DPS_Status \<times> DPS_BitVector option \<times> DPS_BitVector option" where
  "DPS_BitVectorFuzzyHash hash bv =
     (case (hash, bv) of
        (Some hv, Some v) \<Rightarrow>
          let s = (if popCount v \<noteq> 0 then fold (OR) (bits v) 0 else 0);
              pc = (if popCount v \<noteq> 0 then sum_list (map POPCOUNT (bits v)) mod 2 ^ 32 else 0);
              v' = (if popCount v \<noteq> 0 then v\<lparr>popCount := sint (word_of_nat pc :: u32)\<rparr> else v)
          in if pc = 0 then (DPS_OK, Some (DPS_BitVectorClear hv), Some v')
             else
               let p0 = s OR ROTL64 s 7; p0 = p0 OR ROTL64 p0 31;
                   p1 = s OR ROTL64 s 11; p1 = p1 OR ROTL64 p1 29; p1 = p1 OR ROTL64 p1 37;
                   p2 = s OR ROTL64 s 13; p2 = p2 OR ROTL64 p2 17; p2 = p2 OR ROTL64 p2 19;
                   p2 = p2 OR ROTL64 p2 41;
                   p3 = (if pc > 62 then -1 else push_bit pc 1 - 1)
               in (DPS_OK,
                   Some (hv\<lparr>bits := (bits hv)[0 := p0, 1 := p1, 2 := p2, 3 := p3], popCount := -1\<rparr>),
                   Some v')
      | _ \<Rightarrow> (DPS_ERR_NULL, hash, bv))"

definition DPS_BitVectorUnion ::
  "DPS_BitVector option \<Rightarrow> DPS_BitVector option \<Rightarrow> DPS_Status \<times> DPS_BitVector option" where
  "DPS_BitVectorUnion bvOut bv =
     (case (bvOut, bv) of
        (Some v, Some w) \<Rightarrow>
          (DPS_OK, Some (v\<lparr>bits := map2 (OR) (bits v) (bits w), popCount := -1\<rparr>))
      | _ \<Rightarrow> (DPS_ERR_NULL, bvOut))"

definition DPS_BitVectorIntersection ::
  "DPS_BitVector option \<Rightarrow> DPS_BitVector option \<Rightarrow> DPS_BitVector option \<Rightarrow>
   DPS_Status \<times> DPS_BitVector option" where
  "DPS_BitVectorIntersection bvOut bv1 bv2 =
     (case (bvOut, bv1, bv2) of
        (Some v, Some v1, Some v2) \<Rightarrow>
          if popCount v1 \<noteq> 0 \<and> popCount v2 \<noteq> 0 then
            (let r = map2 (AND) (bits v1) (bits v2); nz = list_ex (\<lambda>c. c \<noteq> 0) r in
             (DPS_OK, Some (v\<lparr>bits := r, popCount := if nz then -1 else 0\<rparr>)))
          else (DPS_OK, Some (DPS_BitVectorClear v))
      | _ \<Rightarrow> (DPS_ERR_NULL, bvOut))"

text \<open>
  \<open>equal\<close> is the value behind the optional output pointer before the call (\<open>None\<close> for NULL); the
  results are the updated \<open>bvOut\<close>, the operands (their counts may be computed on the way) and the
  value behind the pointer after the call.
\<close>

definition DPS_BitVectorXor ::
  "DPS_BitVector option \<Rightarrow> DPS_BitVector option \<Rightarrow> DPS_BitVector option \<Rightarrow> bool option \<Rightarrow>
   DPS_Status \<times> DPS_BitVector option \<times> DPS_BitVector option \<times> DPS_BitVector option \<times> bool option" where
  "DPS_BitVectorXor bvOut bv1 bv2 equal =
     (case (bvOut, bv1, bv2) of
        (Some v, Some v1, Some v2) \<Rightarrow>
          if popCount v1 = 0 then
            (case equal of
               None \<Rightarrow> (DPS_OK, Some (DPS_BitVectorDup v v2), bv1, bv2, None)
             | Some eq \<Rightarrow>
                 (case DPS_BitVectorPopCount v2 of
                    (n, v2') \<Rightarrow> (DPS_OK, Some (DPS_BitVectorDup v v2'), bv1, Some v2',
                                 Some (if n = 0 then True else eq))))
          else if popCount v2 = 0 then
            (case equal of
               None \<Rightarrow> (DPS_OK, Some (DPS_BitVectorDup v v1), bv1, bv2, None)
             | Some eq \<Rightarrow>
                 (case DPS_BitVectorPopCount v1 of
                    (n, v1') \<Rightarrow> (DPS_OK, Some (DPS_BitVectorDup v v1'), Some v1', bv2,
                                 Some (if n = 0 then True else eq))))
          else
            (let r = map2 (XOR) (bits v1) (bits v2); diff = list_ex (\<lambda>c. c \<noteq> 0) r in
             (DPS_OK, Some (v\<lparr>bits := r, popCount := -1\<rparr>), bv1, bv2, map_option (\<lambda>_. \<not> diff) equal))
      | _ \<Rightarrow> (DPS_ERR_NULL, bvOut, bv1, bv2, equal))"

section \<open>The bytes of a vector\<close>

text \<open>The chunks are stored little-endian: \<^verbatim>\<open>(uint8_t*)bv->bits\<close>.\<close>

definition chunk_bytes :: "u64 \<Rightarrow> u8 list" where
  "chunk_bytes c = map (byte_at c) [0, 8, 16, 24, 32, 40, 48, 56]"

definition bytes_of_chunks :: "u64 list \<Rightarrow> u8 list" where
  "bytes_of_chunks cs = concat (map chunk_bytes cs)"

fun chunks_of_bytes :: "u8 list \<Rightarrow> u64 list" where
  "chunks_of_bytes (a # b # c # d # e # f # g # h # rest) =
     (ucast a OR push_bit 8 (ucast b) OR push_bit 16 (ucast c) OR push_bit 24 (ucast d)
      OR push_bit 32 (ucast e) OR push_bit 40 (ucast f) OR push_bit 48 (ucast g)
      OR push_bit 56 (ucast h)) # chunks_of_bytes rest"
| "chunks_of_bytes _ = []"

definition DPS_BitVectorSet :: "DPS_BitVector \<Rightarrow> u8 list \<Rightarrow> nat \<Rightarrow> DPS_Status \<times> DPS_BitVector" where
  "DPS_BitVectorSet bv data len =
     (if len \<noteq> bv_len bv div 8 then (DPS_ERR_ARGS, bv)
      else (DPS_OK, bv\<lparr>bits := chunks_of_bytes (take len data), popCount := -1\<rparr>))"

definition DPS_BitVectorSerializeFH :: "DPS_BitVector \<Rightarrow> DPS_TxBuffer \<Rightarrow> DPS_Status \<times> DPS_TxBuffer" where
  "DPS_BitVectorSerializeFH bv buffer =
     CBOR_EncodeBytes buffer (Some (bytes_of_chunks (bits bv))) (bv_len bv div 8)"

definition DPS_BitVectorDeserializeFH ::
  "DPS_BitVector \<Rightarrow> DPS_RxBuffer \<Rightarrow> DPS_Status \<times> DPS_BitVector \<times> DPS_RxBuffer" where
  "DPS_BitVectorDeserializeFH bv buffer =
     (case CBOR_DecodeBytes buffer of
        (Inl e, b) \<Rightarrow> (e, bv, b)
      | (Inr data, b) \<Rightarrow>
          if length data = bv_len bv div 8 then (DPS_OK, bv\<lparr>bits := chunks_of_bytes data\<rparr>, b)
          else (DPS_ERR_INVALID, bv, b))"

section \<open>A vector as a set of bit positions\<close>

definition bit_at :: "u64 list \<Rightarrow> nat \<Rightarrow> bool" where
  "bit_at cs i \<longleftrightarrow> i div 64 < length cs \<and> bit (cs ! (i div 64)) (i mod 64)"

definition positions :: "u64 list \<Rightarrow> nat set" where
  "positions cs = {i. bit_at cs i}"

definition bv_set :: "DPS_BitVector \<Rightarrow> nat set" where
  "bv_set bv = positions (bits bv)"

text \<open>
  The invariant: the chunks cover the length, which fits an \<open>int32_t\<close>, and a population count that
  is known is the number of set bits.
\<close>

definition bv_wf :: "DPS_BitVector \<Rightarrow> bool" where
  "bv_wf bv \<longleftrightarrow> 64 * length (bits bv) = bv_len bv \<and> bv_len bv < 2 ^ 31 \<and>
     (popCount bv < 0 \<or> popCount bv = int (sum_list (map POPCOUNT (bits bv))))"

lemma word_and_push_bit_1:
  fixes w :: "'a::len word"
  shows "n < LENGTH('a) \<Longrightarrow> w AND push_bit n 1 \<noteq> 0 \<longleftrightarrow> bit w n"
  by (metis and.commute bit_push_bit_iff bit_and_iff bit_0_eq bit_1_iff diff_self_eq_0 le_refl
      push_bit_of_1 and_exp_eq_0_iff_not_bit)

lemma TEST_BIT_iff: "b div 64 < length cs \<Longrightarrow> TEST_BIT cs b \<longleftrightarrow> bit_at cs b"
  unfolding TEST_BIT_def bit_at_def by (subst word_and_push_bit_1) auto

lemma length_SET_BIT [simp]: "length (SET_BIT cs b) = length cs"
  by (simp add: SET_BIT_def)

lemma bit_at_SET_BIT:
  "b div 64 < length cs \<Longrightarrow> bit_at (SET_BIT cs b) i \<longleftrightarrow> bit_at cs i \<or> i = b"
proof -
  assume b: "b div 64 < length cs"
  have idx: "i = b \<longleftrightarrow> i div 64 = b div 64 \<and> i mod 64 = b mod 64"
    by (metis div_mult_mod_eq)
  show ?thesis
    using b unfolding bit_at_def SET_BIT_def idx
    by (cases "i div 64 = b div 64") (auto simp: bit_or_iff bit_exp_iff)
qed

lemma length_foldl_SET_BIT [simp]: "length (foldl SET_BIT cs is) = length cs"
  by (induction "is" arbitrary: cs) auto

lemma bit_at_foldl_SET_BIT:
  "\<forall>b \<in> set is. b div 64 < length cs \<Longrightarrow> bit_at (foldl SET_BIT cs is) i \<longleftrightarrow> bit_at cs i \<or> i \<in> set is"
  by (induction "is" arbitrary: cs) (auto simp: bit_at_SET_BIT)

lemma bit_at_map2:
  assumes "length as = length bs" "\<And>(a::u64) b k. k < 64 \<Longrightarrow> bit (f a b) k = g (bit a k) (bit b k)"
    "\<not> g False False"
  shows "bit_at (map2 f as bs) i \<longleftrightarrow> g (bit_at as i) (bit_at bs i)"
  using assms unfolding bit_at_def by (cases "i div 64 < length as") auto

lemma positions_or:
  "length as = length bs \<Longrightarrow> positions (map2 (OR) as bs) = positions as \<union> positions bs"
  by (auto simp: positions_def bit_at_map2[where g="(\<or>)"] bit_or_iff)

lemma positions_and:
  "length as = length bs \<Longrightarrow> positions (map2 (AND) as bs) = positions as \<inter> positions bs"
  by (auto simp: positions_def bit_at_map2[where g="(\<and>)"] bit_and_iff)

lemma positions_xor:
  "length as = length bs \<Longrightarrow> positions (map2 (XOR) as bs) = sym_diff (positions as) (positions bs)"
  by (auto simp: positions_def bit_at_map2[where g="(\<noteq>)"] bit_xor_iff)

lemma positions_not:
  "positions (map (\<lambda>c. NOT c) cs) = {0..<64 * length cs} - positions cs"
  by (auto simp: positions_def bit_at_def bit_not_iff less_mult_imp_div_less)

lemma positions_replicate_0 [simp]: "positions (replicate n 0) = {}"
  by (auto simp: positions_def bit_at_def)

lemma positions_replicate_minus_1 [simp]: "positions (replicate n (-1)) = {0..<64 * n}"
  by (auto simp: positions_def bit_at_def less_mult_imp_div_less)

lemma positions_Nil [simp]: "positions [] = {}"
  by (simp add: positions_def bit_at_def)

lemma positions_Cons:
  "positions (c # cs) = {k. k < 64 \<and> bit c k} \<union> (\<lambda>i. i + 64) ` positions cs"
proof (intro set_eqI)
  fix i
  show "i \<in> positions (c # cs) \<longleftrightarrow> i \<in> {k. k < 64 \<and> bit c k} \<union> (\<lambda>i. i + 64) ` positions cs"
  proof (cases "i < 64")
    case True
    then show ?thesis by (auto simp: positions_def bit_at_def)
  next
    case False
    then obtain j where "i = j + 64" by (metis add.commute le_add_diff_inverse linorder_not_less)
    then show ?thesis by (auto simp: positions_def bit_at_def)
  qed
qed

lemma finite_positions [simp, intro]: "finite (positions cs)"
  by (rule finite_subset[of _ "{0..<64 * length cs}"])
    (auto simp: positions_def bit_at_def less_mult_imp_div_less div_less_iff_less_mult)

lemma positions_bound: "positions cs \<subseteq> {0..<64 * length cs}"
  by (auto simp: positions_def bit_at_def div_less_iff_less_mult)

lemma POPCOUNT_card: "POPCOUNT c = card {k. k < 64 \<and> bit c k}"
  unfolding POPCOUNT_def
  by (subst distinct_card[symmetric]) (auto intro!: arg_cong[where f=card])

lemma card_positions: "card (positions cs) = sum_list (map POPCOUNT cs)"
proof (induction cs)
  case (Cons c cs)
  have "card (positions (c # cs)) = card {k. k < 64 \<and> bit c k} + card ((\<lambda>i. i + 64) ` positions cs)"
    unfolding positions_Cons by (rule card_Un_disjoint) auto
  then show ?case using Cons by (simp add: POPCOUNT_card card_image)
qed simp

lemma positions_eq_iff:
  "length as = length bs \<Longrightarrow> positions as = positions bs \<longleftrightarrow> as = bs"
proof (induction as bs rule: list_induct2)
  case (Cons a as b bs)
  have *: "positions (c # cs) \<inter> {0..<64} = {k. k < 64 \<and> bit c k}"
          "(\<lambda>i. i + 64) -` positions (c # cs) = positions cs" for c cs
    by (auto simp: positions_Cons)
  show ?case
  proof
    assume eq: "positions (a # as) = positions (b # bs)"
    have "{k. k < 64 \<and> bit a k} = {k. k < 64 \<and> bit b k}"
      using arg_cong[OF eq, of "\<lambda>A. A \<inter> {0..<64}"] unfolding * .
    then have "a = b" by (intro bit_word_eqI) auto
    moreover have "positions as = positions bs"
      using arg_cong[OF eq, of "\<lambda>A. (\<lambda>i. i + 64) -` A"] unfolding * .
    ultimately show "a # as = b # bs"
      using Cons by simp
  qed auto
qed simp

lemma positions_subset_iff:
  "length as = length bs \<Longrightarrow> positions bs \<subseteq> positions as \<longleftrightarrow> list_all2 (\<lambda>a b. a AND b = b) as bs"
proof -
  assume l: "length as = length bs"
  have "positions bs \<subseteq> positions as \<longleftrightarrow> positions (map2 (AND) as bs) = positions bs"
    using l by (auto simp: positions_and)
  also have "\<dots> \<longleftrightarrow> map2 (AND) as bs = bs"
    by (rule positions_eq_iff) (simp add: l)
  also have "\<dots> \<longleftrightarrow> list_all2 (\<lambda>a b. a AND b = b) as bs"
    using l by (induction as bs rule: list_induct2) auto
  finally show ?thesis .
qed

lemma positions_empty_iff: "positions cs = {} \<longleftrightarrow> (\<forall>c \<in> set cs. c = 0)"
proof -
  have "positions cs = {} \<longleftrightarrow> cs = replicate (length cs) 0"
    using positions_eq_iff[of cs "replicate (length cs) 0"] by simp
  also have "\<dots> \<longleftrightarrow> (\<forall>c \<in> set cs. c = 0)"
    by (induction cs) auto
  finally show ?thesis .
qed

section \<open>Every operation computes its set operation and keeps the invariant\<close>

lemma bv_wfD:
  assumes "bv_wf bv"
  shows "64 * length (bits bv) = bv_len bv" "bv_len bv < 2 ^ 31" "bv_len bv div 64 = length (bits bv)"
    "popCount bv < 0 \<or> popCount bv = int (card (bv_set bv))" "bv_set bv \<subseteq> {0..<bv_len bv}"
  using assms positions_bound[of "bits bv"] by (auto simp: bv_wf_def card_positions bv_set_def)

lemma bv_wf_iff:
  "bv_wf bv \<longleftrightarrow> 64 * length (bits bv) = bv_len bv \<and> bv_len bv < 2 ^ 31 \<and>
     (popCount bv < 0 \<or> popCount bv = int (card (bv_set bv)))"
  by (simp add: bv_wf_def card_positions bv_set_def)

lemma finite_bv_set [simp, intro]: "finite (bv_set bv)"
  by (simp add: bv_set_def)

lemma card_bv_set_le: "bv_wf bv \<Longrightarrow> card (bv_set bv) \<le> bv_len bv"
  using bv_wfD(5)[of bv] card_mono[of "{0..<bv_len bv}" "bv_set bv"] by simp

lemma bv_set_update [simp]:
  "bv_set (bv\<lparr>popCount := n\<rparr>) = bv_set bv"
  "bv_set (bv\<lparr>bits := cs\<rparr>) = positions cs"
  by (simp_all add: bv_set_def)

lemma bv_count_0: "bv_wf bv \<Longrightarrow> popCount bv = 0 \<Longrightarrow> bv_set bv = {}"
  using bv_wfD(4)[of bv] by auto

lemma bv_set_eq_iff:
  "bv_wf v \<Longrightarrow> bv_wf w \<Longrightarrow> bv_len v = bv_len w \<Longrightarrow> bv_set v = bv_set w \<longleftrightarrow> bits v = bits w"
  unfolding bv_set_def by (rule positions_eq_iff) (metis bv_wfD(3))

lemma sint_u32_small: "n < 2 ^ 31 \<Longrightarrow> sint (word_of_nat n :: u32) = int n"
  by (simp add: signed_of_nat signed_take_bit_int_eq_self)

lemma AllocBV_ok:
  "AllocBV True (64 * n) = Some v \<Longrightarrow> 64 * n < 2 ^ 31 \<Longrightarrow>
   bv_wf v \<and> bv_len v = 64 * n \<and> bv_set v = {}"
  by (auto simp: AllocBV_def bv_wf_def bv_set_def)

lemma IsClear_ok:
  assumes "bv_wf bv"
  shows "fst (DPS_BitVectorIsClear bv) \<longleftrightarrow> bv_set bv = {}"
    and "bv_wf (snd (DPS_BitVectorIsClear bv))" and "bits (snd (DPS_BitVectorIsClear bv)) = bits bv"
    and "bv_len (snd (DPS_BitVectorIsClear bv)) = bv_len bv"
proof -
  have e: "(\<exists>c \<in> set (bits bv). c \<noteq> 0) \<longleftrightarrow> bv_set bv \<noteq> {}"
    by (simp add: bv_set_def positions_empty_iff)
  show "fst (DPS_BitVectorIsClear bv) \<longleftrightarrow> bv_set bv = {}"
    using bv_wfD(4)[OF assms] by (auto simp: DPS_BitVectorIsClear_def e)
  show "bv_wf (snd (DPS_BitVectorIsClear bv))"
    using assms by (auto simp: DPS_BitVectorIsClear_def e bv_wf_iff)
qed (auto simp: DPS_BitVectorIsClear_def)

lemma PopCount_ok:
  assumes "bv_wf bv"
  shows "DPS_BitVectorPopCount bv = (card (bv_set bv), bv\<lparr>popCount := int (card (bv_set bv))\<rparr>)"
proof -
  have le: "card (bv_set bv) < 2 ^ 31"
    using card_bv_set_le[OF assms] bv_wfD(2)[OF assms] by simp
  have s: "sum_list (map POPCOUNT (bits bv)) = card (bv_set bv)"
    by (simp add: bv_set_def card_positions)
  have m: "int (card (bv_set bv)) mod 2 ^ 64 = int (card (bv_set bv))"
    using le by (intro mod_pos_pos_trivial) auto
  show ?thesis
  proof (cases "popCount bv < 0")
    case True
    then show ?thesis using le m by (simp add: DPS_BitVectorPopCount_def s sint_u32_small)
  next
    case False
    then have pc: "popCount bv = int (card (bv_set bv))" using bv_wfD(4)[OF assms] by simp
    then have "bv\<lparr>popCount := int (card (bv_set bv))\<rparr> = bv" by (cases bv) simp
    then show ?thesis using False m by (simp add: DPS_BitVectorPopCount_def pc)
  qed
qed

lemma bv_wf_set_count: "bv_wf bv \<Longrightarrow> bv_wf (bv\<lparr>popCount := int (card (bv_set bv))\<rparr>)"
  by (simp add: bv_wf_iff)

lemma Clear_ok:
  assumes "bv_wf bv"
  shows "bv_wf (DPS_BitVectorClear bv)" "bv_set (DPS_BitVectorClear bv) = {}"
    "bv_len (DPS_BitVectorClear bv) = bv_len bv"
  using assms bv_count_0[OF assms] bv_wfD[OF assms]
  by (auto simp: DPS_BitVectorClear_def bv_wf_iff)

lemma Fill_ok:
  assumes "bv_wf bv" "DPS_BitVectorFill (Some bv) = Some v"
  shows "bv_wf v" "bv_set v = {0..<bv_len bv}" "bv_len v = bv_len bv"
  using assms bv_wfD[OF assms(1)] by (auto simp: DPS_BitVectorFill_def bv_wf_iff sint_u32_small)

lemma Dup_ok:
  assumes "bv_wf dst" "bv_wf src" "bv_len dst = bv_len src"
  shows "bv_wf (DPS_BitVectorDup dst src)" "bv_set (DPS_BitVectorDup dst src) = bv_set src"
    "bv_len (DPS_BitVectorDup dst src) = bv_len dst"
  using assms by (auto simp: DPS_BitVectorDup_def bv_wf_iff bv_set_def)

lemma Equals_ok:
  assumes "bv_wf v" "bv_wf w"
  shows "DPS_BitVectorEquals (Some v) (Some w) \<longleftrightarrow> bv_len v = bv_len w \<and> bv_set v = bv_set w"
  using bv_set_eq_iff[OF assms] by (auto simp: DPS_BitVectorEquals_def list.rel_eq)

lemma includes_loop_iff:
  "length as = length bs \<Longrightarrow>
   includes_loop as bs u \<longleftrightarrow> list_all2 (\<lambda>a b. a AND b = b) as bs \<and> (u \<noteq> 0 \<or> (\<exists>a \<in> set as. a \<noteq> 0))"
  by (induction as bs arbitrary: u rule: list_induct2) (auto simp: or_eq_0_iff)

lemma Includes_ok:
  assumes "bv_wf v" "bv_wf w" "bv_len v = bv_len w"
  shows "DPS_BitVectorIncludes (Some v) (Some w) \<longleftrightarrow> bv_set w \<subseteq> bv_set v \<and> bv_set v \<noteq> {}"
proof -
  have l: "length (bits v) = length (bits w)"
    using assms bv_wfD(3) by metis
  show ?thesis
    using bv_count_0[OF assms(1)] positions_subset_iff[OF l] positions_empty_iff[of "bits v"]
    by (auto simp: DPS_BitVectorIncludes_def includes_loop_iff[OF l] bv_set_def)
qed

lemma Union_ok:
  assumes "bv_wf v" "bv_wf w" "bv_len v = bv_len w"
  shows "\<exists>u. DPS_BitVectorUnion (Some v) (Some w) = (DPS_OK, Some u) \<and>
             bv_wf u \<and> bv_len u = bv_len v \<and> bv_set u = bv_set v \<union> bv_set w"
  using assms bv_wfD(3)[OF assms(1)] bv_wfD(3)[OF assms(2)]
  by (auto simp: DPS_BitVectorUnion_def bv_wf_def positions_or bv_set_def)

lemma Intersection_ok:
  assumes "bv_wf x" "bv_wf v" "bv_wf w" "bv_len x = bv_len v" "bv_len x = bv_len w"
  shows "\<exists>u. DPS_BitVectorIntersection (Some x) (Some v) (Some w) = (DPS_OK, Some u) \<and>
             bv_wf u \<and> bv_len u = bv_len x \<and> bv_set u = bv_set v \<inter> bv_set w"
proof (cases "popCount v \<noteq> 0 \<and> popCount w \<noteq> 0")
  case True
  let ?r = "map2 (AND) (bits v) (bits w)"
  have l: "length (bits v) = length (bits w)" "length (bits x) = length ?r"
    using assms bv_wfD(3)[OF assms(1)] bv_wfD(3)[OF assms(2)] bv_wfD(3)[OF assms(3)] by auto
  have "list_ex (\<lambda>c. c \<noteq> 0) ?r \<longleftrightarrow> positions ?r \<noteq> {}"
    by (auto simp: positions_empty_iff list_ex_iff)
  then show ?thesis
    using True assms(1) l
    by (auto simp: DPS_BitVectorIntersection_def Let_def bv_wf_iff positions_and bv_set_def)
next
  case False
  then show ?thesis
    using Clear_ok[OF assms(1)] bv_count_0[OF assms(2)] bv_count_0[OF assms(3)]
    by (auto simp: DPS_BitVectorIntersection_def)
qed

lemma Complement_ok:
  assumes "bv_wf bv"
  shows "bv_set (DPS_BitVectorComplement bv) = {0..<bv_len bv} - bv_set bv"
    and "popCount bv > 0 \<Longrightarrow> bv_wf (DPS_BitVectorComplement bv)"
proof -
  let ?n = "bv_len bv" and ?c = "card (bv_set bv)"
  show *: "bv_set (DPS_BitVectorComplement bv) = {0..<?n} - bv_set bv"
    using bv_wfD[OF assms] by (auto simp: DPS_BitVectorComplement_def Let_def positions_not bv_set_def)
  assume p: "popCount bv > 0"
  then have c: "popCount bv = int ?c" using bv_wfD(4)[OF assms] by auto
  have le: "?c \<le> ?n" by (rule card_bv_set_le[OF assms])
  have card: "card ({0..<?n} - bv_set bv) = ?n - ?c"
    using bv_wfD(5)[OF assms] by (simp add: card_Diff_subset)
  have "word_of_int (int ?n - int ?c) = (word_of_nat (?n - ?c) :: u32)"
    using le by (simp add: of_nat_diff)
  then have s: "sint (word_of_int (int ?n - int ?c) :: u32) = int (?n - ?c)"
    using bv_wfD(2)[OF assms] by (simp only: sint_u32_small)
  show "bv_wf (DPS_BitVectorComplement bv)"
    unfolding bv_wf_iff * card using p c s bv_wfD[OF assms]
    by (auto simp add: DPS_BitVectorComplement_def Let_def)
qed

subsection \<open>Exclusive or\<close>

lemma xor_value_ok:
  assumes "bv_wf x" "bv_wf v" "bv_wf w" "bv_len x = bv_len v" "bv_len x = bv_len w"
  shows "bv_wf (x\<lparr>bits := map2 (XOR) (bits v) (bits w), popCount := -1\<rparr>)"
    and "positions (map2 (XOR) (bits v) (bits w)) = sym_diff (bv_set v) (bv_set w)"
proof -
  have l: "length (bits v) = length (bits w)" "length (bits x) = length (bits v)"
    using assms bv_wfD(3)[OF assms(1)] bv_wfD(3)[OF assms(2)] bv_wfD(3)[OF assms(3)] by auto
  show "bv_wf (x\<lparr>bits := map2 (XOR) (bits v) (bits w), popCount := -1\<rparr>)"
    using l assms(1) by (simp add: bv_wf_def)
  show "positions (map2 (XOR) (bits v) (bits w)) = sym_diff (bv_set v) (bv_set w)"
    using l by (simp add: positions_xor bv_set_def)
qed

text \<open>The value \<open>*equal\<close> is only ever set to true on the paths with a known empty operand.\<close>

lemma Xor_ok:
  assumes "bv_wf x" "bv_wf v" "bv_wf w" "bv_len x = bv_len v" "bv_len x = bv_len w"
  obtains u v' w' where
    "DPS_BitVectorXor (Some x) (Some v) (Some w) eq =
       (DPS_OK, Some u, Some v', Some w',
        map_option (\<lambda>e. bv_set v = bv_set w \<or> e \<and> (popCount v = 0 \<or> popCount w = 0)) eq)"
    "bv_wf u" "bv_len u = bv_len x" "bv_set u = sym_diff (bv_set v) (bv_set w)"
    "bv_wf v'" "bits v' = bits v" "bv_len v' = bv_len v"
    "bv_wf w'" "bits w' = bits w" "bv_len w' = bv_len w"
proof -
  note c = PopCount_ok[OF assms(2)] PopCount_ok[OF assms(3)]
    bv_wf_set_count[OF assms(2)] bv_wf_set_count[OF assms(3)]
  consider (v0) "popCount v = 0" | (w0) "popCount v \<noteq> 0" "popCount w = 0"
    | (both) "popCount v \<noteq> 0" "popCount w \<noteq> 0" by auto
  then show thesis
  proof cases
    case v0
    note e = bv_count_0[OF assms(2) v0]
    show thesis
    proof (cases eq)
      case None
      with v0 show thesis
        using Dup_ok[OF assms(1,3,5)] e assms by (intro that[of "DPS_BitVectorDup x w" v w]) (auto simp: DPS_BitVectorXor_def)
    next
      case (Some b)
      with v0 show thesis
        using Dup_ok[OF assms(1) c(4)] e assms c
        by (intro that[of "DPS_BitVectorDup x (w\<lparr>popCount := int (card (bv_set w))\<rparr>)" v
              "w\<lparr>popCount := int (card (bv_set w))\<rparr>"]) (auto simp: DPS_BitVectorXor_def)
    qed
  next
    case w0
    note e = bv_count_0[OF assms(3) w0(2)]
    show thesis
    proof (cases eq)
      case None
      with w0 show thesis
        using Dup_ok[OF assms(1,2,4)] e assms by (intro that[of "DPS_BitVectorDup x v" v w]) (auto simp: DPS_BitVectorXor_def)
    next
      case (Some b)
      with w0 show thesis
        using Dup_ok[OF assms(1) c(3)] e assms c
        by (intro that[of "DPS_BitVectorDup x (v\<lparr>popCount := int (card (bv_set v))\<rparr>)"
              "v\<lparr>popCount := int (card (bv_set v))\<rparr>" w]) (auto simp: DPS_BitVectorXor_def)
    qed
  next
    case both
    let ?r = "map2 (XOR) (bits v) (bits w)"
    have "(\<not> list_ex (\<lambda>c. c \<noteq> 0) ?r) = (positions ?r = {})"
      by (auto simp: positions_empty_iff list_ex_iff)
    then have "(\<not> list_ex (\<lambda>c. c \<noteq> 0) ?r) \<longleftrightarrow> bv_set v = bv_set w"
      unfolding xor_value_ok(2)[OF assms] by auto
    then show thesis
      using both assms xor_value_ok[OF assms]
      by (intro that[of "x\<lparr>bits := ?r, popCount := -1\<rparr>" v w])
        (auto simp: DPS_BitVectorXor_def Let_def option.map_comp cong: map_option_cong)
  qed
qed

section \<open>Bloom filters\<close>

definition bloom_set :: "(u8 list \<Rightarrow> u8 list) \<Rightarrow> Configuration \<Rightarrow> nat \<Rightarrow> u8 list \<Rightarrow> nat set" where
  "bloom_set sha2 config n data = (\<lambda>h. hash_word (sha2 data) h mod n) ` {0..<numHashes config}"

lemma bloom_index_div:
  "bv_wf bv \<Longrightarrow> 0 < bv_len bv \<Longrightarrow> bloom_index sha2 bv data h div 64 < length (bits bv)"
  by (simp add: bloom_index_def bv_wfD div_less_iff_less_mult bv_wf_def mult.commute[of 64])

lemma BloomInsert_ok:
  assumes "bv_wf bv" "0 < bv_len bv"
  shows "bv_wf (DPS_BitVectorBloomInsert sha2 config bv data)"
    "bv_len (DPS_BitVectorBloomInsert sha2 config bv data) = bv_len bv"
    "bv_set (DPS_BitVectorBloomInsert sha2 config bv data) =
       bv_set bv \<union> bloom_set sha2 config (bv_len bv) data"
  using assms bloom_index_div[OF assms, of sha2 data]
  by (auto simp: DPS_BitVectorBloomInsert_def bv_wf_def positions_def bv_set_def
      bit_at_foldl_SET_BIT bloom_set_def bloom_index_def)

lemma BloomTest_ok:
  assumes "bv_wf bv" "0 < bv_len bv"
  shows "DPS_BitVectorBloomTest sha2 config bv data \<longleftrightarrow> bloom_set sha2 config (bv_len bv) data \<subseteq> bv_set bv"
  using bloom_index_div[OF assms, of sha2 data]
  by (auto simp: DPS_BitVectorBloomTest_def list_all_iff TEST_BIT_iff bloom_set_def bloom_index_def
      bv_set_def positions_def)

definition bloom_insert_all ::
  "(u8 list \<Rightarrow> u8 list) \<Rightarrow> Configuration \<Rightarrow> DPS_BitVector \<Rightarrow> u8 list list \<Rightarrow> DPS_BitVector" where
  "bloom_insert_all sha2 config = foldl (DPS_BitVectorBloomInsert sha2 config)"

lemma bloom_insert_all_ok:
  assumes "bv_wf bv" "0 < bv_len bv"
  shows "bv_wf (bloom_insert_all sha2 config bv ds) \<and>
    bv_len (bloom_insert_all sha2 config bv ds) = bv_len bv \<and>
    bv_set (bloom_insert_all sha2 config bv ds) =
      bv_set bv \<union> (\<Union>d \<in> set ds. bloom_set sha2 config (bv_len bv) d)"
  using assms
proof (induction ds arbitrary: bv)
  case (Cons d ds)
  note b = BloomInsert_ok[OF Cons.prems, of sha2 config d]
  have "0 < bv_len (DPS_BitVectorBloomInsert sha2 config bv d)" using b(2) Cons.prems by simp
  from Cons.IH[OF b(1) this] show ?case
    unfolding bloom_insert_all_def by (simp add: b Un_assoc)
qed (simp add: bloom_insert_all_def)

section \<open>The fuzzy hash is monotone\<close>

definition word_sub :: "u64 \<Rightarrow> u64 \<Rightarrow> bool" where
  "word_sub a b \<longleftrightarrow> (\<forall>k. bit a k \<longrightarrow> bit b k)"

lemma word_sub_intros [intro]:
  "word_sub a a" "word_sub 0 b" "word_sub a (-1)"
  "word_sub a c \<Longrightarrow> word_sub b d \<Longrightarrow> word_sub (a OR b) (c OR d)"
  by (auto simp: word_sub_def bit_or_iff dest: bit_imp_le_length)

lemma word_sub_ROTL64 [intro]: "word_sub a b \<Longrightarrow> word_sub (ROTL64 a r) (ROTL64 b r)"
  by (auto simp: word_sub_def ROTL64_def bit_or_iff bit_push_bit_iff bit_drop_bit_eq)

lemma word_sub_mask: "m \<le> n \<Longrightarrow> word_sub (push_bit m 1 - 1) (push_bit n 1 - 1)"
  unfolding push_bit_of_1 mask_eq_exp_minus_1[symmetric] word_sub_def by (auto simp: bit_mask_iff)

lemma bit_fold_or: "bit (fold (OR) cs (a::u64)) k \<longleftrightarrow> bit a k \<or> (\<exists>c \<in> set cs. bit c k)"
  by (induction cs arbitrary: a) (auto simp: bit_or_iff)

lemma word_sub_fold_or:
  assumes "list_all2 (\<lambda>a b. a AND b = b) bs as"
  shows "word_sub (fold (OR) as 0) (fold (OR) bs 0)"
proof -
  have "\<exists>b \<in> set bs. bit b k" if "a \<in> set as" "bit a k" for a k
  proof -
    from that(1) obtain i where i: "i < length as" "as ! i = a" by (meson in_set_conv_nth)
    with assms have "bs ! i AND a = a" "i < length bs"
      by (auto simp: list_all2_conv_all_nth)
    with that(2) show ?thesis by (metis bit_and_iff nth_mem)
  qed
  then show ?thesis by (auto simp: word_sub_def bit_fold_or)
qed

text \<open>The four chunks of a hash, from the squashed vector and the count of its bits\<close>

definition fh_chunks :: "u64 \<Rightarrow> nat \<Rightarrow> u64 list" where
  "fh_chunks s pc =
     (let p0 = s OR ROTL64 s 7; p0 = p0 OR ROTL64 p0 31;
          p1 = s OR ROTL64 s 11; p1 = p1 OR ROTL64 p1 29; p1 = p1 OR ROTL64 p1 37;
          p2 = s OR ROTL64 s 13; p2 = p2 OR ROTL64 p2 17; p2 = p2 OR ROTL64 p2 19;
          p2 = p2 OR ROTL64 p2 41
      in [p0, p1, p2, if pc > 62 then -1 else push_bit pc 1 - 1])"

lemma fh_chunks_mono:
  "word_sub s t \<Longrightarrow> m \<le> n \<Longrightarrow> list_all2 word_sub (fh_chunks s m) (fh_chunks t n)"
  unfolding fh_chunks_def Let_def
  by (simp, intro conjI impI word_sub_intros word_sub_ROTL64 word_sub_mask[unfolded push_bit_of_1])

lemma list_all2_word_sub_positions:
  assumes "list_all2 word_sub as bs"
  shows "positions as \<subseteq> positions bs"
  using assms by (auto simp: positions_def bit_at_def word_sub_def list_all2_conv_all_nth)

definition fh_set :: "DPS_BitVector \<Rightarrow> nat set" where
  "fh_set v = (if bv_set v = {} then {}
               else positions (fh_chunks (fold (OR) (bits v) 0) (card (bv_set v))))"

lemma length_4_cases:
  "length xs = 4 \<Longrightarrow> \<exists>a b c d. xs = [a, b, c, d]"
  by (auto simp: length_Suc_conv numeral_eq_Suc)

lemma list_update_4:
  "[a, b, c, d][0 := w, 1 := x, 2 := y, 3 := z] = [w, x, y, z]"
  by (simp add: numeral_2_eq_2 numeral_3_eq_3)

lemma FuzzyHash_ok:
  assumes "bv_wf hv" "bv_len hv = FH_BITVECTOR_LEN" "bv_wf v"
  shows "\<exists>h v'. DPS_BitVectorFuzzyHash (Some hv) (Some v) = (DPS_OK, Some h, Some v') \<and>
           bv_wf h \<and> bv_len h = FH_BITVECTOR_LEN \<and> bv_set h = fh_set v \<and>
           bv_wf v' \<and> bits v' = bits v \<and> bv_len v' = bv_len v"
proof (cases "bv_set v = {}")
  case True
  then have s: "sum_list (map POPCOUNT (bits v)) = 0"
    by (simp add: card_positions[symmetric] bv_set_def)
  have "bv_wf (v\<lparr>popCount := 0\<rparr>)"
    using assms(3) True by (simp add: bv_wf_iff)
  moreover have "popCount v = 0 \<Longrightarrow> v\<lparr>popCount := 0\<rparr> = v" by (cases v) simp
  then have "DPS_BitVectorFuzzyHash (Some hv) (Some v) =
    (DPS_OK, Some (DPS_BitVectorClear hv), Some (v\<lparr>popCount := 0\<rparr>))"
    by (cases "popCount v = 0") (simp_all add: DPS_BitVectorFuzzyHash_def s)
  ultimately show ?thesis
    using True Clear_ok[OF assms(1)] assms(2) by (simp add: fh_set_def)
next
  case False
  define n where "n = card (bv_set v)"
  have s: "sum_list (map POPCOUNT (bits v)) = n"
    by (simp add: n_def card_positions[symmetric] bv_set_def)
  have n: "n < 2 ^ 31" "n \<noteq> 0"
    using card_bv_set_le[OF assms(3)] bv_wfD(2)[OF assms(3)] False by (auto simp: n_def)
  have p: "popCount v \<noteq> 0" using bv_count_0[OF assms(3)] False by auto
  from assms(1,2) have "length (bits hv) = 4" by (simp add: bv_wf_def FH_BITVECTOR_LEN_def)
  then obtain a b c d where h: "bits hv = [a, b, c, d]" using length_4_cases by blast
  let ?ch = "fh_chunks (fold (OR) (bits v) 0) n"
  have "DPS_BitVectorFuzzyHash (Some hv) (Some v) =
    (DPS_OK, Some (hv\<lparr>bits := ?ch, popCount := -1\<rparr>), Some (v\<lparr>popCount := int n\<rparr>))"
    using n p unfolding DPS_BitVectorFuzzyHash_def fh_chunks_def s h Let_def list_update_4
    by (simp add: s h list_update_4 sint_u32_small)
  moreover have "length ?ch = 4" by (simp add: fh_chunks_def Let_def)
  ultimately show ?thesis
    using assms False n_def by (auto simp: bv_wf_iff fh_set_def FH_BITVECTOR_LEN_def)
qed

lemma fh_set_nonempty: "bv_set v \<noteq> {} \<Longrightarrow> fh_set v \<noteq> {}"
proof -
  assume ne: "bv_set v \<noteq> {}"
  then have "0 < card (bv_set v)" by (simp add: card_gt_0_iff)
  then have "bit_at (fh_chunks s (card (bv_set v))) 192" for s
    by (auto simp: bit_at_def fh_chunks_def Let_def bit_mask_iff nth_Cons'
        simp flip: mask_eq_exp_minus_1)
  then show ?thesis using ne by (auto simp: fh_set_def positions_def)
qed

lemma fh_set_mono:
  assumes "length (bits v) = length (bits w)" "bv_set v \<subseteq> bv_set w"
  shows "fh_set v \<subseteq> fh_set w"
proof (cases "bv_set v = {}")
  case False
  have "word_sub (fold (OR) (bits v) 0) (fold (OR) (bits w) 0)"
    using assms by (intro word_sub_fold_or) (simp add: positions_subset_iff[symmetric] bv_set_def)
  moreover have "card (bv_set v) \<le> card (bv_set w)" using assms(2) by (simp add: card_mono)
  ultimately show ?thesis
    using False assms(2) list_all2_word_sub_positions[OF fh_chunks_mono] by (auto simp: fh_set_def)
qed (simp add: fh_set_def)

section \<open>Interfaces\<close>

text \<open>
  What the exchange of interests relies on: an exclusive or of vectors of one size. A sender that
  always transmits the difference between its old and its new vector keeps the receiver, which adds
  each difference to what it holds, in step (\<open>delta_sync\<close>).
\<close>

locale delta_vectors =
  fixes valid :: "'v \<Rightarrow> bool" and elems :: "'v \<Rightarrow> nat set" and xor :: "'v \<Rightarrow> 'v \<Rightarrow> 'v \<Rightarrow> 'v"
  assumes xor_valid: "valid x \<Longrightarrow> valid a \<Longrightarrow> valid b \<Longrightarrow> valid (xor x a b)"
    and xor_elems: "valid x \<Longrightarrow> valid a \<Longrightarrow> valid b \<Longrightarrow> elems (xor x a b) = sym_diff (elems a) (elems b)"
begin

lemma xor_undo:
  assumes "valid x" "valid y" "valid a" "valid b"
  shows "elems (xor y (xor x a b) a) = elems b"
  using assms by (auto simp: xor_elems xor_valid)

lemma delta_sync:
  assumes "valid x" "valid r" "valid s" "elems r = elems s" "list_all valid ns"
  shows "elems (foldl (\<lambda>r d. xor d d r) r (map2 (xor x) (s # ns) ns)) = elems (last (s # ns))"
  using assms
proof (induction ns arbitrary: r s)
  case (Cons n ns)
  let ?d = "xor x s n"
  have v: "valid ?d" "valid (xor ?d ?d r)" using Cons.prems by (auto simp: xor_valid)
  have "elems (xor ?d ?d r) = elems n"
    using Cons.prems v by (auto simp: xor_elems xor_valid)
  then show ?case using Cons v by simp
qed simp

end

text \<open>
  What the routing of publications relies on: intersection, a monotone fuzzy hash that is not empty
  on a vector that is not empty, and the inclusion test of the hashes.
\<close>

locale routing_vectors =
  fixes valid :: "'v \<Rightarrow> bool" and elems :: "'v \<Rightarrow> nat set"
    and hvalid :: "'h \<Rightarrow> bool" and helems :: "'h \<Rightarrow> nat set"
    and inter :: "'v \<Rightarrow> 'v \<Rightarrow> 'v \<Rightarrow> 'v" and hash :: "'h \<Rightarrow> 'v \<Rightarrow> 'h" and incl :: "'h \<Rightarrow> 'h \<Rightarrow> bool"
  assumes inter_valid: "valid x \<Longrightarrow> valid a \<Longrightarrow> valid b \<Longrightarrow> valid (inter x a b)"
    and inter_elems: "valid x \<Longrightarrow> valid a \<Longrightarrow> valid b \<Longrightarrow> elems (inter x a b) = elems a \<inter> elems b"
    and hash_valid: "hvalid h \<Longrightarrow> valid a \<Longrightarrow> hvalid (hash h a)"
    and hash_mono: "hvalid h \<Longrightarrow> hvalid k \<Longrightarrow> valid a \<Longrightarrow> valid b \<Longrightarrow> elems a \<subseteq> elems b \<Longrightarrow>
                    helems (hash h a) \<subseteq> helems (hash k b)"
    and hash_nonempty: "hvalid h \<Longrightarrow> valid a \<Longrightarrow> elems a \<noteq> {} \<Longrightarrow> helems (hash h a) \<noteq> {}"
    and incl_iff: "hvalid h \<Longrightarrow> hvalid k \<Longrightarrow>
                       incl h k \<longleftrightarrow> helems k \<subseteq> helems h \<and> helems h \<noteq> {}"
begin

text \<open>A publication is not withheld from a neighbour that has a matching subscription.\<close>

lemma no_lost_route:
  assumes "valid x" "hvalid h" "hvalid k" "hvalid needs" "valid pub" "valid interests" "valid sub"
    and match: "elems sub \<subseteq> elems pub" "elems sub \<noteq> {}"
    and announced: "elems sub \<subseteq> elems interests" "helems needs \<subseteq> helems (hash k sub)"
  shows "incl (hash h (inter x pub interests)) needs"
proof -
  let ?i = "inter x pub interests"
  have v: "valid ?i" and e: "elems ?i = elems pub \<inter> elems interests"
    using assms by (simp_all add: inter_valid inter_elems)
  then have "elems sub \<subseteq> elems ?i" using match announced by simp
  then have "helems (hash k sub) \<subseteq> helems (hash h ?i)" using assms v by (intro hash_mono)
  moreover have "helems (hash k sub) \<noteq> {}" using assms by (intro hash_nonempty)
  ultimately show ?thesis using assms v announced by (auto simp: incl_iff hash_valid)
qed

end

text \<open>The vectors of \<^verbatim>\<open>bitvec.c\<close> provide both interfaces.\<close>

definition bv_xor :: "DPS_BitVector \<Rightarrow> DPS_BitVector \<Rightarrow> DPS_BitVector \<Rightarrow> DPS_BitVector" where
  "bv_xor x a b = the (fst (snd (DPS_BitVectorXor (Some x) (Some a) (Some b) None)))"

definition bv_inter :: "DPS_BitVector \<Rightarrow> DPS_BitVector \<Rightarrow> DPS_BitVector \<Rightarrow> DPS_BitVector" where
  "bv_inter x a b = the (snd (DPS_BitVectorIntersection (Some x) (Some a) (Some b)))"

definition bv_hash :: "DPS_BitVector \<Rightarrow> DPS_BitVector \<Rightarrow> DPS_BitVector" where
  "bv_hash h a = the (fst (snd (DPS_BitVectorFuzzyHash (Some h) (Some a))))"

definition bv_ok :: "nat \<Rightarrow> DPS_BitVector \<Rightarrow> bool" where
  "bv_ok n v \<longleftrightarrow> bv_wf v \<and> bv_len v = n"

lemma bv_xor_ok:
  "bv_ok n x \<Longrightarrow> bv_ok n a \<Longrightarrow> bv_ok n b \<Longrightarrow>
   bv_ok n (bv_xor x a b) \<and> bv_set (bv_xor x a b) = sym_diff (bv_set a) (bv_set b)"
  unfolding bv_ok_def bv_xor_def by (rule Xor_ok[of x a b None]) auto

lemma bv_inter_ok:
  "bv_ok n x \<Longrightarrow> bv_ok n a \<Longrightarrow> bv_ok n b \<Longrightarrow>
   bv_ok n (bv_inter x a b) \<and> bv_set (bv_inter x a b) = bv_set a \<inter> bv_set b"
  unfolding bv_ok_def bv_inter_def using Intersection_ok[of x a b] by fastforce

lemma bv_hash_ok:
  "bv_ok FH_BITVECTOR_LEN h \<Longrightarrow> bv_ok n a \<Longrightarrow>
   bv_ok FH_BITVECTOR_LEN (bv_hash h a) \<and> bv_set (bv_hash h a) = fh_set a"
  unfolding bv_ok_def bv_hash_def using FuzzyHash_ok[of h a] by fastforce

interpretation bvx: delta_vectors "bv_ok n" bv_set bv_xor for n
  by unfold_locales (use bv_xor_ok in blast)+

interpretation bvr: routing_vectors "bv_ok n" bv_set "bv_ok FH_BITVECTOR_LEN" bv_set bv_inter bv_hash
  "\<lambda>h k. DPS_BitVectorIncludes (Some h) (Some k)" for n
proof (unfold_locales, goal_cases)
  case (4 h k a b)
  then have "length (bits a) = length (bits b)" by (metis bv_ok_def bv_wfD(3))
  with 4 show ?case using bv_hash_ok by (metis fh_set_mono)
next
  case (5 h a)
  then show ?case using bv_hash_ok fh_set_nonempty by metis
next
  case (6 h k)
  then show ?case by (auto simp: bv_ok_def Includes_ok)
qed (use bv_inter_ok bv_hash_ok in blast)+

section \<open>The bytes of a vector and back\<close>

lemma chunk_bytes_inverse: "chunks_of_bytes (chunk_bytes c @ rest) = c # chunks_of_bytes rest"
  using byte_splits(4)[of c] by (simp add: chunk_bytes_def or.left_commute or.commute)

lemma bytes_chunks_inverse: "chunks_of_bytes (bytes_of_chunks cs) = cs"
  by (induction cs) (auto simp: bytes_of_chunks_def chunk_bytes_inverse)

lemma length_bytes_of_chunks [simp]: "length (bytes_of_chunks cs) = 8 * length cs"
  by (induction cs) (auto simp: bytes_of_chunks_def chunk_bytes_def)

lemma length_chunks_of_bytes: "length (chunks_of_bytes bs) = length bs div 8"
  by (induction bs rule: chunks_of_bytes.induct) auto

section \<open>Properties\<close>

lemma bloom_set_mono: "ts \<subseteq> us \<Longrightarrow> (\<Union>d \<in> ts. bloom_set sha2 config n d) \<subseteq> (\<Union>d \<in> us. bloom_set sha2 config n d)"
  by blast

text \<open>C16: Whatever strings are inserted into a Bloom filter, each of them tests as present
  afterwards, also in the union with any other filter of the same length: a Bloom filter has no
  false negatives, whatever the digest function computes.\<close>

theorem bloom_no_false_negative:
  assumes "bv_wf bv" "bv_wf other" "bv_len other = bv_len bv" "0 < bv_len bv" "d \<in> set ds"
  shows "DPS_BitVectorBloomTest sha2 config (bloom_insert_all sha2 config bv ds) d \<and>
    (\<exists>u. DPS_BitVectorUnion (Some other) (Some (bloom_insert_all sha2 config bv ds)) = (DPS_OK, Some u) \<and>
         DPS_BitVectorBloomTest sha2 config u d)"
proof -
  let ?v = "bloom_insert_all sha2 config bv ds"
  note v = bloom_insert_all_ok[OF assms(1,4), of sha2 config ds]
  obtain u where u: "DPS_BitVectorUnion (Some other) (Some ?v) = (DPS_OK, Some u)"
    "bv_wf u" "bv_len u = bv_len bv" "bv_set u = bv_set other \<union> bv_set ?v"
    using Union_ok[of other ?v] v assms by auto
  have "bloom_set sha2 config (bv_len bv) d \<subseteq> bv_set ?v" using v assms by blast
  then show ?thesis using u v assms by (auto simp: BloomTest_ok)
qed

definition bv64 :: "u64 \<Rightarrow> DPS_BitVector" where
  "bv64 c = \<lparr>popCount = -1, bv_len = 64, bits = [c]\<rparr>"

lemma bv64_wf [simp]: "bv_wf (bv64 c)" "bv_len (bv64 c) = 64" "bv_ok 64 (bv64 c)"
  by (simp_all add: bv64_def bv_wf_def bv_ok_def)

lemma bv64_subset:
  "bv_set (bv64 a) \<subseteq> bv_set (bv64 b) \<longleftrightarrow> b AND a = a" "bv_set (bv64 a) = {} \<longleftrightarrow> a = 0"
  using positions_subset_iff[of "[b]" "[a]"] positions_empty_iff[of "[a]"]
  by (simp_all add: bv64_def bv_set_def)

theorem bloom_no_false_negative_witness:
  "DPS_BitVectorBloomTest (\<lambda>d. replicate 32 (hd d)) \<lparr>bitLen = 64, numHashes = 3\<rparr>
     (bloom_insert_all (\<lambda>d. replicate 32 (hd d)) \<lparr>bitLen = 64, numHashes = 3\<rparr> (bv64 0) [[7], [9]]) [9]"
  using bloom_no_false_negative[of "bv64 0" "bv64 5" "[9]" "[[7], [9]]"] by simp

text \<open>The inclusion test answers whether the second vector is a subset of the first, which must
  not be empty, and so a publication whose topics contain all topics of a subscription, not none,
  matches it in the Bloom filter test.\<close>

theorem subscription_topics_match:
  assumes "0 < bv_len e" "bv_wf e" "bv_set e = {}" "set subTopics \<subseteq> set pubTopics"
    "subTopics \<noteq> []" "0 < numHashes config"
  shows "DPS_BitVectorIncludes (Some (bloom_insert_all sha2 config e pubTopics))
           (Some (bloom_insert_all sha2 config e subTopics))"
proof -
  note p = bloom_insert_all_ok[OF assms(2,1), of sha2 config pubTopics]
    and s = bloom_insert_all_ok[OF assms(2,1), of sha2 config subTopics]
  have "bloom_set sha2 config (bv_len e) (hd pubTopics) \<noteq> {}"
    using assms(6) by (simp add: bloom_set_def)
  moreover have "hd pubTopics \<in> set pubTopics" using assms(4,5) by (cases pubTopics) auto
  ultimately have "bv_set (bloom_insert_all sha2 config e pubTopics) \<noteq> {}" using p by blast
  then show ?thesis
    using p s assms(3) bloom_set_mono[OF assms(4), of sha2 config "bv_len e"]
    by (simp add: Includes_ok)
qed

theorem subscription_topics_match_witness:
  "DPS_BitVectorIncludes
     (Some (bloom_insert_all (\<lambda>d. replicate 32 (hd d)) \<lparr>bitLen = 64, numHashes = 3\<rparr> (bv64 0) [[7], [9]]))
     (Some (bloom_insert_all (\<lambda>d. replicate 32 (hd d)) \<lparr>bitLen = 64, numHashes = 3\<rparr> (bv64 0) [[9]]))"
  using subscription_topics_match[of "bv64 0" "[[9]]" "[[7], [9]]" "\<lparr>bitLen = 64, numHashes = 3\<rparr>"]
  by (simp add: bv_set_def bv64_def positions_empty_iff bv_wf_def)

text \<open>C13: A publication is never withheld from a neighbour that announced a matching
  subscription: if the filter of the subscription is not empty and lies in that of the publication
  and in the neighbour's interests, and the neighbour's needs lie in the fuzzy hash of the
  subscription, then the fuzzy hash of the intersection of publication and interests includes the
  needs.\<close>

theorem matching_publication_not_withheld:
  assumes "bv_ok n x" "bv_ok n pub" "bv_ok n interests" "bv_ok n sub"
    and "bv_ok FH_BITVECTOR_LEN h" "bv_ok FH_BITVECTOR_LEN k" "bv_ok FH_BITVECTOR_LEN needs"
    and "bv_set sub \<subseteq> bv_set pub" "bv_set sub \<noteq> {}" "bv_set sub \<subseteq> bv_set interests"
    and "DPS_BitVectorFuzzyHash (Some k) (Some sub) = (DPS_OK, Some subNeeds, sub')"
    and "bv_set needs \<subseteq> bv_set subNeeds"
    and "DPS_BitVectorIntersection (Some x) (Some pub) (Some interests) = (DPS_OK, provides)"
    and "DPS_BitVectorFuzzyHash (Some h) provides = (DPS_OK, hash, provides')"
  shows "DPS_BitVectorIncludes hash (Some needs)"
proof -
  have p: "provides = Some (bv_inter x pub interests)"
    using assms(13) Intersection_ok[of x pub interests] assms(1-3)
    by (auto simp: bv_inter_def bv_ok_def)
  have h: "hash = Some (bv_hash h (bv_inter x pub interests))"
    using assms(14) FuzzyHash_ok[of h "bv_inter x pub interests"] bv_inter_ok[OF assms(1-3)] assms(5)
    by (auto simp: bv_hash_def bv_ok_def p)
  have "subNeeds = bv_hash k sub" using assms(11) by (simp add: bv_hash_def)
  then show ?thesis
    unfolding h using assms by (intro bvr.no_lost_route[where k=k and sub=sub]) auto
qed


theorem matching_publication_not_withheld_witness:
  "DPS_BitVectorIncludes
     (fst (snd (DPS_BitVectorFuzzyHash (DPS_BitVectorAllocFH True)
        (snd (DPS_BitVectorIntersection (Some (bv64 0)) (Some (bv64 7)) (Some (bv64 3)))))))
     (fst (snd (DPS_BitVectorFuzzyHash (DPS_BitVectorAllocFH True) (Some (bv64 2)))))"
proof -
  obtain e where e: "DPS_BitVectorAllocFH True = Some e" "bv_ok FH_BITVECTOR_LEN e"
    using AllocBV_ok[of 4] by (auto simp: DPS_BitVectorAllocFH_def FH_BITVECTOR_LEN_def AllocBV_def bv_ok_def)
  obtain sn s' where s: "DPS_BitVectorFuzzyHash (Some e) (Some (bv64 2)) = (DPS_OK, Some sn, s')"
    "bv_ok FH_BITVECTOR_LEN sn"
    using FuzzyHash_ok[of e "bv64 2"] e(2) by (auto simp: bv_ok_def)
  obtain p where p: "DPS_BitVectorIntersection (Some (bv64 0)) (Some (bv64 7)) (Some (bv64 3)) = (DPS_OK, Some p)"
    "bv_wf p"
    using Intersection_ok[of "bv64 0" "bv64 7" "bv64 3"] by auto
  obtain h p' where "DPS_BitVectorFuzzyHash (Some e) (Some p) = (DPS_OK, h, p')"
    using FuzzyHash_ok[of e p] e(2) p(2) by (auto simp: bv_ok_def)
  then show ?thesis
    using matching_publication_not_withheld[of 64 "bv64 0" "bv64 7" "bv64 3" "bv64 2" e e sn sn s'
        "Some p" h p'] s p(1) e by (simp add: bv64_subset)
qed

text \<open>C14: Two nodes that exchange interests as differences stay in step: when the receiver starts
  with the sender's vector and adds the received difference between the sender's old and new
  vector each time, it ends with the sender's last vector, whatever the sequence of vectors and
  whether or not their population counts are known.\<close>

theorem interest_delta_sync:
  assumes "bv_ok n x" "bv_ok n r" "bv_ok n s" "bv_set r = bv_set s" "list_all (bv_ok n) vs"
  shows "bv_set (foldl (\<lambda>r d. bv_xor d d r) r (map2 (bv_xor x) (s # vs) vs)) = bv_set (last (s # vs))"
  using assms by (rule bvx.delta_sync)

theorem interest_delta_sync_witness:
  "bv_set (foldl (\<lambda>r d. bv_xor d d r) (bv64 5)
     (map2 (bv_xor (bv64 0)) [bv64 5, bv64 6, bv64 1] [bv64 6, bv64 1])) = bv_set (bv64 1)"
  using interest_delta_sync[of 64 "bv64 0" "bv64 5" "bv64 5" "[bv64 6, bv64 1]"] by simp

text \<open>The exclusive or reports through \<open>equal\<close>, when it was false before the call, exactly
  whether the operands have the same bits.\<close>

theorem bitvector_xor_equal:
  assumes "bv_wf x" "bv_wf v" "bv_wf w" "bv_len x = bv_len v" "bv_len x = bv_len w"
  shows "\<exists>u v' w'. DPS_BitVectorXor (Some x) (Some v) (Some w) (Some False) =
           (DPS_OK, Some u, Some v', Some w', Some (DPS_BitVectorEquals (Some v) (Some w))) \<and>
         bv_wf u \<and> bv_set u = sym_diff (bv_set v) (bv_set w)"
  by (rule Xor_ok[OF assms, of "Some False"]) (use assms in \<open>simp add: Equals_ok\<close>)

theorem bitvector_xor_equal_witness:
  "\<exists>u v' w'. DPS_BitVectorXor (Some (bv64 9)) (Some (bv64 5)) (Some (bv64 5)) (Some False) =
     (DPS_OK, Some u, Some v', Some w', Some (DPS_BitVectorEquals (Some (bv64 5)) (Some (bv64 5)))) \<and>
   bv_wf u \<and> bv_set u = sym_diff (bv_set (bv64 5)) (bv_set (bv64 5))"
  using bitvector_xor_equal[of "bv64 9" "bv64 5" "bv64 5"] by simp

text \<open>Complementing a vector inverts its bits, but not always its count: with an unknown count
  the result claims one bit more than the vector has, and the invariant is lost.\<close>

theorem complement_unknown_count:
  assumes "bv_wf bv" "popCount bv = -1" "bv_len bv < 2 ^ 31 - 1"
  shows "bv_set (DPS_BitVectorComplement bv) = {0..<bv_len bv} - bv_set bv \<and>
    popCount (DPS_BitVectorComplement bv) = int (bv_len bv) + 1 \<and>
    \<not> bv_wf (DPS_BitVectorComplement bv)"
proof -
  have "word_of_int (int (bv_len bv) - -1) = (word_of_nat (bv_len bv + 1) :: u32)" by simp
  then have "sint (word_of_int (int (bv_len bv) - -1) :: u32) = int (bv_len bv + 1)"
    using assms(3) by (simp only: sint_u32_small)
  then have c: "popCount (DPS_BitVectorComplement bv) = int (bv_len bv) + 1"
    using assms(2) by (simp add: DPS_BitVectorComplement_def Let_def)
  moreover have "bv_len (DPS_BitVectorComplement bv) = bv_len bv"
    by (simp add: DPS_BitVectorComplement_def Let_def)
  ultimately have "\<not> bv_wf (DPS_BitVectorComplement bv)"
    using bv_wfD(4)[of "DPS_BitVectorComplement bv"] card_bv_set_le[of "DPS_BitVectorComplement bv"] by auto
  then show ?thesis using c Complement_ok(1)[OF assms(1)] by simp
qed

theorem complement_unknown_count_witness:
  "popCount (DPS_BitVectorComplement (bv64 3)) = 65 \<and> \<not> bv_wf (DPS_BitVectorComplement (bv64 3))"
proof -
  have "popCount (bv64 3) = -1" by (simp add: bv64_def)
  with complement_unknown_count[of "bv64 3"] show ?thesis by simp
qed

text \<open>A fuzzy hash that was serialized is read back as it was, by a node that holds any
  vector of that length, and the reader stops behind it.\<close>

theorem fuzzy_hash_roundtrip:
  assumes "tx_wf b" "bv_ok FH_BITVECTOR_LEN v" "bv_ok FH_BITVECTOR_LEN w"
    and "DPS_BitVectorSerializeFH v b = (DPS_OK, b')"
    and "rx_wf r" "rx_rem r = drop (length (tx_out b)) (tx_out b') @ rest"
  shows "\<exists>r' w'. DPS_BitVectorDeserializeFH w r = (DPS_OK, w', r') \<and>
    DPS_BitVectorEquals (Some w') (Some v) \<and> rx_rem r' = rest"
proof -
  let ?s = "bytes_of_chunks (bits v)"
  have l: "length ?s = 32" "length (bits v) = 4" "length (bits w) = 4"
    using assms(2,3) by (auto simp: bv_ok_def bv_wf_def FH_BITVECTOR_LEN_def)
  have enc: "CBOR_EncodeBytes b (Some ?s) (length ?s) = (DPS_OK, b')"
    using assms(2,4) l by (simp add: DPS_BitVectorSerializeFH_def bv_ok_def FH_BITVECTOR_LEN_def)
  have out: "tx_out b' = tx_out b @ hdr_bytes CBOR_BYTES ?s"
    using bytes.enc_OK_D[OF assms(1) TrueI enc] by blast
  have r: "rx_rem r = hdr_bytes CBOR_BYTES ?s @ rest" using assms(6) out by simp
  note d = bytes.dec_img[OF assms(5) _ r]
  have "rx_rem (rx_advance r (length (hdr_bytes CBOR_BYTES ?s))) = rest"
    using assms(5) r by (simp add: rx_rem_advance)
  with d l assms(2,3) show ?thesis
    by (auto simp: DPS_BitVectorDeserializeFH_def DPS_BitVectorEquals_def bv_ok_def
        FH_BITVECTOR_LEN_def bytes_chunks_inverse list.rel_eq)
qed


theorem fuzzy_hash_roundtrip_witness:
  "\<exists>b' r' w'. DPS_BitVectorSerializeFH \<lparr>popCount = -1, bv_len = 256, bits = [1, 2, 3, 4]\<rparr>
       \<lparr>tx_base = replicate 40 0, txPos = 0\<rparr> = (DPS_OK, b') \<and>
     DPS_BitVectorDeserializeFH \<lparr>popCount = -1, bv_len = 256, bits = [0, 0, 0, 0]\<rparr>
       (DPS_TxBufferToRx b') = (DPS_OK, w', r') \<and>
     DPS_BitVectorEquals (Some w') (Some \<lparr>popCount = -1, bv_len = 256, bits = [1, 2, 3, 4]\<rparr>)"
proof -
  let ?v = "\<lparr>popCount = -1, bv_len = 256, bits = [1, 2, 3, 4]\<rparr>"
  let ?w = "\<lparr>popCount = -1, bv_len = 256, bits = [0, 0, 0, 0]\<rparr>"
  let ?b = "\<lparr>tx_base = replicate 40 0, txPos = 0\<rparr>" and ?s = "bytes_of_chunks [1, 2, 3, 4]"
  have ok: "bv_ok FH_BITVECTOR_LEN ?v" "bv_ok FH_BITVECTOR_LEN ?w" and b: "tx_wf ?b" "tx_out ?b = []"
    by (simp_all add: bv_ok_def bv_wf_def FH_BITVECTOR_LEN_def tx_wf_def tx_out_def)
  have "length (hdr_bytes CBOR_BYTES ?s) \<le> DPS_TxBufferSpace ?b"
    by (simp add: hdr_bytes_def len32_def Requires_def DPS_TxBufferSpace_def)
  then have e: "DPS_BitVectorSerializeFH ?v ?b = (DPS_OK, tx_put ?b (hdr_bytes CBOR_BYTES ?s))" (is "_ = (_, ?b')")
    using bytes.enc_fits[OF b(1), of ?s] by (simp add: DPS_BitVectorSerializeFH_def)
  have "tx_wf ?b'" using bytes.enc_OK_D[OF b(1), of ?s ?b'] e by (simp add: DPS_BitVectorSerializeFH_def)
  then have "rx_wf (DPS_TxBufferToRx ?b')" "rx_rem (DPS_TxBufferToRx ?b') = tx_out ?b' @ []"
    using rx_of_tx by auto
  from fuzzy_hash_roundtrip[OF b(1) ok e this(1)] this(2) b(2) e show ?thesis by fastforce
qed

end
