(* ===== verification/Rle.thy ===== *)
theory Rle
  imports Bit_Vector
begin

text \<open>
  The run-length coding of bit vectors in \<^verbatim>\<open>src/bitvec.c\<close> and the serialization built on it. The
  encoder works bit by bit on the memory behind the write position of a buffer; a store outside that
  memory is the outcome \<open>None\<close>. The decoder keeps a 64-bit window on the packed bytes; a shift
  by 64 and a failed assertion are outcomes of their own. The reference is a code on lists of
  bits (\<open>code\<close>, \<open>codes\<close>): the encoder writes exactly these codes and the decoder
  inverts them.
\<close>

section \<open>Operations\<close>

definition FLAG_RLE_ENCODED :: u64 where "FLAG_RLE_ENCODED = 0x01"
definition FLAG_RLE_COMPLEMENT :: u64 where "FLAG_RLE_COMPLEMENT = 0x02"

definition SET_BIT8 :: "u8 list \<Rightarrow> nat \<Rightarrow> u8 list option" where
  "SET_BIT8 a b =
     (if b div 8 < length a then Some (a[b div 8 := (a ! (b div 8)) OR push_bit (b mod 8) 1]) else None)"

text \<open>The number of trailing zeroes of a chunk that is not zero\<close>

definition COUNT_TZ :: "u64 \<Rightarrow> nat" where
  "COUNT_TZ n = length (takeWhile (\<lambda>k. \<not> bit n k) [0..<64])"

definition Ceil_Log2 :: "u16 \<Rightarrow> nat" where
  "Ceil_Log2 n =
     (let (n, b) = (if n AND 0xFF00 \<noteq> 0 then (drop_bit 8 n, 8) else (n, 0));
          (n, b) = (if n AND 0x00F0 \<noteq> 0 then (drop_bit 4 n, b + 4) else (n, b));
          (n, b) = (if n AND 0x000C \<noteq> 0 then (drop_bit 2 n, b + 2) else (n, b))
      in if n AND 0x0002 \<noteq> 0 then b + 1 else b)"

fun write_len :: "u8 list \<Rightarrow> nat \<Rightarrow> u32 \<Rightarrow> nat \<Rightarrow> (u8 list \<times> nat) option" where
  "write_len packed rleSize val 0 = Some (packed, rleSize)"
| "write_len packed rleSize val (Suc sz) =
     (case (if val AND 1 \<noteq> 0 then SET_BIT8 packed rleSize else Some packed) of
        None \<Rightarrow> None
      | Some packed' \<Rightarrow> write_len packed' (rleSize + 1) (drop_bit 1 val) sz)"

text \<open>
  One run of \<open>num0\<close> zeroes and its one. \<open>Ceil_Log2\<close> takes a \<open>uint16_t\<close>: the argument is
  truncated.
\<close>

definition write_run :: "nat \<Rightarrow> nat \<Rightarrow> u8 list \<Rightarrow> nat \<Rightarrow> (DPS_Status \<times> u8 list \<times> nat) option" where
  "write_run len num0 packed rleSize =
     (let sz = Ceil_Log2 (word_of_nat (num0 + 1));
          val = word_of_nat num0 - (push_bit sz 1 - 1) :: u32
      in case SET_BIT8 packed (rleSize + sz) of
           None \<Rightarrow> None
         | Some p \<Rightarrow>
             (let r = rleSize + sz + 1 in
              if r + sz > len then Some (DPS_ERR_OVERFLOW, p, r)
              else map_option (\<lambda>(p, r). (DPS_OK, p, r)) (write_len p r val sz)))"

lemma COUNT_TZ_bit:
  assumes "n \<noteq> 0"
  shows "COUNT_TZ n < 64" "bit n (COUNT_TZ n)" "\<And>k. k < COUNT_TZ n \<Longrightarrow> \<not> bit n k"
proof -
  have "\<exists>k. bit n k" using assms bit_word_eqI[of n 0] by auto
  then obtain k where "bit n k" by blast
  then have "\<exists>k \<in> set [0..<64]. bit n k" using bit_imp_le_length[of n k] by auto
  then have "\<not> (\<forall>k \<in> set [0..<64]. \<not> bit n k)" by blast
  then have "COUNT_TZ n \<noteq> 64"
    unfolding COUNT_TZ_def
    by (metis takeWhile_eq_all_conv takeWhile_eq_take take_all length_upt diff_zero order_refl)
  moreover have "COUNT_TZ n \<le> 64" unfolding COUNT_TZ_def by (metis length_takeWhile_le length_upt diff_zero)
  ultimately show l: "COUNT_TZ n < 64" by simp
  then show "bit n (COUNT_TZ n)" unfolding COUNT_TZ_def
    using nth_length_takeWhile[of "\<lambda>k. \<not> bit n k" "[0..<64]"] by simp
  show "\<not> bit n k" if "k < COUNT_TZ n" for k
  proof -
    have "k < length (takeWhile (\<lambda>k. \<not> bit n k) [0..<64])" using that by (simp add: COUNT_TZ_def)
    then have "takeWhile (\<lambda>k. \<not> bit n k) [0..<64] ! k \<in> set (takeWhile (\<lambda>k. \<not> bit n k) [0..<64])" by simp
    moreover have "takeWhile (\<lambda>k. \<not> bit n k) [0..<64] ! k = k" using that l by (simp add: takeWhile_nth COUNT_TZ_def)
    ultimately show ?thesis by (metis set_takeWhileD)
  qed
qed

lemma drop_bit_less: "0 < k \<Longrightarrow> (n::u64) \<noteq> 0 \<Longrightarrow> unat (drop_bit k n) < unat n"
  unfolding unat_drop_bit_eq drop_bit_nat_def
  by (rule div_less_dividend) (auto simp: unat_gt_0 intro: one_less_power[of "2::nat", simplified])

text \<open>The runs of one chunk; the result has the number of zeroes left behind the last one.\<close>

function rle_chunk :: "nat \<Rightarrow> u64 \<Rightarrow> nat \<Rightarrow> nat \<Rightarrow> u8 list \<Rightarrow> nat \<Rightarrow> (DPS_Status \<times> u8 list \<times> nat \<times> nat) option" where
  "rle_chunk len chunk num0 rem0 packed rleSize =
     (if chunk = 0 then Some (DPS_OK, packed, rleSize, rem0)
      else
        (let tz = COUNT_TZ chunk in
         case write_run len ((num0 + tz) mod 2 ^ 32) packed rleSize of
           None \<Rightarrow> None
         | Some (ret, p, r) \<Rightarrow>
             if ret \<noteq> DPS_OK then Some (ret, p, r, rem0 - (tz + 1))
             else rle_chunk len (drop_bit 1 (drop_bit tz chunk)) 0 (rem0 - (tz + 1)) p r))"
  by pat_completeness auto

termination
proof (relation "measure (\<lambda>(len, chunk, num0, rem0, packed, rleSize). unat chunk)")
  fix len :: nat and chunk :: u64 and num0 rem0 rleSize r tz :: nat and packed p :: "u8 list"
    and a :: "DPS_Status \<times> u8 list \<times> nat" and ret :: DPS_Status and y
  assume "chunk \<noteq> 0"
  then have "unat (drop_bit (tz + 1) chunk) < unat chunk" by (intro drop_bit_less) auto
  then show "((len, drop_bit 1 (drop_bit tz chunk), 0, rem0 - (tz + 1), p, r), (len, chunk, num0, rem0, packed, rleSize))
    \<in> measure (\<lambda>(len, chunk, num0, rem0, packed, rleSize). unat chunk)" by (simp add: drop_bit_drop_bit add.commute)
qed simp

declare rle_chunk.simps [simp del]

fun rle_chunks :: "nat \<Rightarrow> u64 \<Rightarrow> u64 list \<Rightarrow> nat \<Rightarrow> u8 list \<Rightarrow> nat \<Rightarrow> (DPS_Status \<times> u8 list \<times> nat) option" where
  "rle_chunks len complement [] num0 packed rleSize = Some (DPS_OK, packed, rleSize)"
| "rle_chunks len complement (c # cs) num0 packed rleSize =
     (let chunk = c XOR complement in
      if chunk = 0 then rle_chunks len complement cs ((num0 + 64) mod 2 ^ 32) packed rleSize
      else (case rle_chunk len chunk num0 64 packed rleSize of
              None \<Rightarrow> None
            | Some (ret, p, r, rem0) \<Rightarrow>
                if ret \<noteq> DPS_OK then Some (ret, p, r) else rle_chunks len complement cs rem0 p r))"

definition RunLengthEncode :: "DPS_BitVector \<Rightarrow> DPS_TxBuffer \<Rightarrow> u64 \<Rightarrow> (DPS_Status \<times> DPS_TxBuffer) option" where
  "RunLengthEncode bv buffer flags =
     (let complement = (if flags AND FLAG_RLE_COMPLEMENT \<noteq> 0 then -1 else 0) in
      if popCount bv = 0 then Some (DPS_OK, buffer)
      else if DPS_TxBufferSpace buffer < bv_len bv div 8 then Some (DPS_ERR_OVERFLOW, buffer)
      else
        (let packed = replicate (bv_len bv div 8) 0 @ drop (txPos buffer + bv_len bv div 8) (tx_base buffer) in
         case rle_chunks (bv_len bv) complement (bits bv) 0 packed 0 of
           None \<Rightarrow> None
         | Some (ret, p, rleSize) \<Rightarrow>
             (let b = buffer\<lparr>tx_base := take (txPos buffer) (tx_base buffer) @ p\<rparr> in
              if ret \<noteq> DPS_OK then Some (ret, b)
              else if rleSize > bv_len bv then Some (DPS_ERR_OVERFLOW, b)
              else Some (DPS_OK, b\<lparr>txPos := txPos b + (rleSize + 7) div 8\<rparr>))))"

definition TOP_UP_THRESHOLD :: nat where "TOP_UP_THRESHOLD = 56"

fun top_up :: "u64 \<Rightarrow> nat \<Rightarrow> u8 list \<Rightarrow> u64 \<times> nat \<times> u8 list" where
  "top_up current currentBits [] = (current, currentBits, [])"
| "top_up current currentBits (b # packed) =
     (if currentBits \<le> TOP_UP_THRESHOLD
      then top_up (current OR push_bit currentBits (ucast b)) (currentBits + 8) packed
      else (current, currentBits, b # packed))"

text \<open>
  \<open>Shift_Undefined\<close>: a shift by the width of the type. \<open>Assertion_Failed\<close>: an \<open>assert\<close> that
  fails, in builds without \<open>NDEBUG\<close>. \<open>Out_Of_Fuel\<close>: the bound on the number of rounds is too
  small, which \<open>decode_enough\<close> excludes for the bound chosen below.
\<close>

datatype rle_outcome =
  Returned DPS_Status "u64 list" | Shift_Undefined | Assertion_Failed | Out_Of_Fuel

text \<open>The code at the front of the window: \<open>None\<close> is the undefined shift. The subtraction from
  \<open>currentBits\<close> wraps when the input is truncated.\<close>

definition next_run :: "u64 \<Rightarrow> nat \<Rightarrow> nat \<Rightarrow> (u64 \<times> nat \<times> nat) option" where
  "next_run current currentBits bitPos =
     (if current AND 1 \<noteq> 0 then Some (drop_bit 1 current, currentBits - 1, bitPos)
      else
        (let tz = COUNT_TZ current in
         if tz + 1 \<ge> 64 then None
         else
           (let current1 = drop_bit (tz + 1) current;
                val = unat (current1 AND (push_bit tz 1 - 1));
                num0 = val + (2 ^ tz - 1)
            in Some (drop_bit tz current1, (currentBits + 2 ^ 64 - (1 + tz * 2)) mod 2 ^ 64,
                     (bitPos + num0) mod 2 ^ 64))))"

fun rle_decode :: "bool \<Rightarrow> nat \<Rightarrow> nat \<Rightarrow> u64 \<Rightarrow> nat \<Rightarrow> u8 list \<Rightarrow> u64 list \<Rightarrow> nat \<Rightarrow> rle_outcome" where
  "rle_decode ndebug 0 len current currentBits packed bs bitPos = Out_Of_Fuel"
| "rle_decode ndebug (Suc fuel) len current currentBits packed bs bitPos =
     (if currentBits = 0 then Returned DPS_OK bs
      else
        (case top_up current currentBits packed of
           (cur, curBits, rest) \<Rightarrow>
             if cur = 0 then
               (if \<not> ndebug \<and> rest \<noteq> [] then Assertion_Failed else Returned DPS_OK bs)
             else
               (case next_run cur curBits bitPos of
                  None \<Rightarrow> Shift_Undefined
                | Some (cur', curBits', bitPos') \<Rightarrow>
                    if bitPos' \<ge> len then Returned DPS_ERR_INVALID bs
                    else rle_decode ndebug fuel len cur' curBits' rest (SET_BIT bs bitPos') (bitPos' + 1))))"

definition RunLengthDecode :: "bool \<Rightarrow> u8 list \<Rightarrow> nat \<Rightarrow> rle_outcome" where
  "RunLengthDecode ndebug packed len =
     (let bs = replicate (len div 64) 0 in
      case packed of
        [] \<Rightarrow> rle_decode ndebug (len + 2) len 0 0 [] bs 0
      | b # rest \<Rightarrow> rle_decode ndebug (len + 2) len (ucast b) 8 rest bs 0)"

section \<open>The reference code\<close>

text \<open>\<open>Ceil_Log2\<close> is the logarithm rounded down.\<close>

lemma high_bits_iff:
  fixes w :: u16
  assumes "unat w < 2 ^ (k + j)" "m = push_bit k (mask j)"
  shows "w AND m \<noteq> 0 \<longleftrightarrow> 2 ^ k \<le> unat w"
proof -
  have "w AND m = 0 \<longleftrightarrow> take_bit k w = w"
  proof
    assume z: "w AND m = 0"
    show "take_bit k w = w"
    proof (rule bit_word_eqI)
      fix i assume i: "i < LENGTH(16)"
      have "\<not> bit (w AND m) i" using z by simp
      then show "bit (take_bit k w) i = bit w i"
        using i word_bit_bounded[OF assms(1), of i]
        by (auto simp: bit_take_bit_iff bit_and_iff assms(2) bit_push_bit_iff bit_mask_iff)
    qed
  next
    assume t: "take_bit k w = w"
    show "w AND m = 0"
      by (rule bit_word_eqI, subst t[symmetric])
        (auto simp: bit_take_bit_iff bit_and_iff assms(2) bit_push_bit_iff)
  qed
  then show ?thesis using word_take_bit_eq_self_iff[of k w] by auto
qed

definition log_state :: "nat \<Rightarrow> u16 \<Rightarrow> nat \<Rightarrow> nat \<Rightarrow> bool" where
  "log_state N n b j \<longleftrightarrow> 0 < unat n \<and> unat n < 2 ^ j \<and> unat n = N div 2 ^ b"

lemma log_step:
  assumes "log_state N n b (k + k)" "m = push_bit k (mask k)"
  shows "log_state N (if n AND m \<noteq> 0 then drop_bit k n else n) (if n AND m \<noteq> 0 then b + k else b) k"
proof (cases "n AND m \<noteq> 0")
  case True
  then have "2 ^ k \<le> unat n" using assms high_bits_iff[of n k k m] by (simp add: log_state_def)
  moreover have "unat (drop_bit k n) = unat n div 2 ^ k" by (simp only: unat_drop_bit_eq drop_bit_nat_def)
  ultimately show ?thesis
    using True assms(1)
    by (auto simp: log_state_def div_greater_zero_iff power_add div_less_iff_less_mult div_mult2_eq)
next
  case False
  then show ?thesis using assms high_bits_iff[of n k k m] by (simp add: log_state_def)
qed

lemma Ceil_Log2_floor:
  assumes "0 < n" "n < 2 ^ 16"
  shows "2 ^ Ceil_Log2 (word_of_nat n) \<le> n \<and> n < 2 ^ (Ceil_Log2 (word_of_nat n) + 1)"
proof -
  let ?w = "word_of_nat n :: u16"
  have "log_state n ?w 0 (8 + 8)"
    using assms by (simp add: log_state_def unsigned_of_nat take_bit_nat_eq_self)
  note 1 = log_step[OF this, of "0xFF00"]
  define n1 b1 where "n1 = (if ?w AND 0xFF00 \<noteq> 0 then drop_bit 8 ?w else ?w)"
    and "b1 = (if ?w AND 0xFF00 \<noteq> 0 then 0 + 8 else 0::nat)"
  have l1: "log_state n n1 b1 (4 + 4)" using 1 by (simp add: n1_def b1_def mask_eq_exp_minus_1 split del: if_split)
  define n2 b2 where "n2 = (if n1 AND 0x00F0 \<noteq> 0 then drop_bit 4 n1 else n1)"
    and "b2 = (if n1 AND 0x00F0 \<noteq> 0 then b1 + 4 else b1)"
  have l2: "log_state n n2 b2 (2 + 2)"
    using log_step[OF l1, of "0x00F0"] by (simp add: n2_def b2_def mask_eq_exp_minus_1 split del: if_split)
  define n3 b3 where "n3 = (if n2 AND 0x000C \<noteq> 0 then drop_bit 2 n2 else n2)"
    and "b3 = (if n2 AND 0x000C \<noteq> 0 then b2 + 2 else b2)"
  have l3: "log_state n n3 b3 2"
    using log_step[OF l2, of "0x000C"] by (simp add: n3_def b3_def mask_eq_exp_minus_1 split del: if_split)
  define b4 where "b4 = (if n3 AND 0x0002 \<noteq> 0 then b3 + 1 else b3)"
  have l4: "n div 2 ^ b4 = 1"
    using log_step[of n n3 b3 1 "0x0002"] l3 by (simp add: b4_def mask_eq_exp_minus_1 log_state_def split del: if_split)
  have "Ceil_Log2 ?w = b4"
    by (simp add: Ceil_Log2_def n1_def b1_def n2_def b2_def n3_def b3_def b4_def)
  moreover have "2 ^ b4 \<le> n" using l4 by (metis div_less not_le zero_neq_one)
  moreover have "n < 2 ^ (b4 + 1)"
  proof -
    have "n < (n div 2 ^ b4 + 1) * 2 ^ b4" by (metis add.commute dividend_less_div_times mult.commute mult_Suc_right plus_1_eq_Suc zero_less_numeral zero_less_power)
    then show ?thesis using l4 by simp
  qed
  ultimately show ?thesis by simp
qed

definition clog :: "nat \<Rightarrow> nat" where
  "clog k = Ceil_Log2 (word_of_nat (k + 1))"

definition code :: "nat \<Rightarrow> bool list" where
  "code k = replicate (clog k) False @ True # map (bit (k - (2 ^ clog k - 1))) [0..<clog k]"

fun codes :: "nat \<Rightarrow> bool list \<Rightarrow> bool list" where
  "codes k [] = []"
| "codes k (True # bs) = code k @ codes 0 bs"
| "codes k (False # bs) = codes (k + 1) bs"

fun pend :: "nat \<Rightarrow> bool list \<Rightarrow> nat" where
  "pend k [] = k"
| "pend k (True # bs) = pend 0 bs"
| "pend k (False # bs) = pend (k + 1) bs"

lemma length_code [simp]: "length (code k) = 2 * clog k + 1"
  by (simp add: code_def)

lemma codes_append: "codes k (xs @ ys) = codes k xs @ codes (pend k xs) ys"
  by (induction k xs rule: codes.induct) auto

lemma codes_replicate_False [simp]: "codes k (replicate z False @ bs) = codes (k + z) bs"
  by (induction z arbitrary: k) auto

lemma pend_replicate_False [simp]: "pend k (replicate z False @ bs) = pend (k + z) bs"
  by (induction z arbitrary: k) auto

lemma codes_all_False [simp]: "codes k (replicate z False) = []" "pend k (replicate z False) = k + z"
  using codes_replicate_False[of k z "[]"] pend_replicate_False[of k z "[]"] by simp_all

lemma pend_le: "pend k bs \<le> k + length bs"
  by (induction k bs rule: pend.induct) auto

lemma clog_bounds:
  assumes "k + 1 < 2 ^ 16"
  shows "2 ^ clog k \<le> k + 1" "k + 1 < 2 ^ (clog k + 1)" "clog k < 16"
proof -
  show b: "2 ^ clog k \<le> k + 1" "k + 1 < 2 ^ (clog k + 1)"
    using Ceil_Log2_floor[of "k + 1"] assms unfolding clog_def by auto
  then have "2 ^ clog k < (2::nat) ^ 16" using assms by linarith
  then show "clog k < 16" by (metis one_less_numeral_iff power_less_imp_less_exp semiring_norm(76))
qed

section \<open>The encoder writes the reference code\<close>

text \<open>The first \<open>n\<close> bits of the memory are the bits written so far, followed by zeroes.\<close>

definition packs :: "nat \<Rightarrow> u8 list \<Rightarrow> bool list \<Rightarrow> bool" where
  "packs n p out \<longleftrightarrow> length out \<le> n \<and> n \<le> 8 * length p \<and>
     (\<forall>i < n. bit (p ! (i div 8)) (i mod 8) = (i < length out \<and> out ! i))"

lemma packs_zeroes: "packs n p out \<Longrightarrow> length out + z \<le> n \<Longrightarrow> packs n p (out @ replicate z False)"
  by (auto simp: packs_def nth_append)

lemma SET_BIT8_packs:
  assumes "packs n p out" "length out < n"
  shows "\<exists>p'. SET_BIT8 p (length out) = Some p' \<and> length p' = length p \<and> packs n p' (out @ [True])"
proof -
  let ?b = "length out"
  let ?p = "p[?b div 8 := (p ! (?b div 8)) OR push_bit (?b mod 8) 1]"
  have q: "?b div 8 < length p" using assms by (auto simp: packs_def div_less_iff_less_mult)
  have "bit (?p ! (i div 8)) (i mod 8) = (bit (p ! (i div 8)) (i mod 8) \<or> i = ?b)" if "i < n" for i
  proof -
    have "i = ?b \<longleftrightarrow> i div 8 = ?b div 8 \<and> i mod 8 = ?b mod 8" by (metis div_mult_mod_eq)
    moreover have "i div 8 < length p" using that assms by (auto simp: packs_def div_less_iff_less_mult)
    ultimately show ?thesis
      using q by (cases "i div 8 = ?b div 8") (auto simp: bit_or_iff bit_exp_iff)
  qed
  then have "packs n ?p (out @ [True])"
    using assms by (auto simp: packs_def nth_append less_Suc_eq)
  then show ?thesis using q by (simp add: SET_BIT8_def)
qed

lemma write_len_packs:
  "packs n p out \<Longrightarrow> length out + sz \<le> n \<Longrightarrow>
   \<exists>p'. write_len p (length out) v sz = Some (p', length out + sz) \<and> length p' = length p \<and>
        packs n p' (out @ map (bit v) [0..<sz])"
proof (induction sz arbitrary: p out v)
  case (Suc sz)
  have ev: "v AND 1 \<noteq> 0 \<longleftrightarrow> bit v 0" using word_and_push_bit_1[of 0 v] by simp
  obtain p1 where p1: "(if v AND 1 \<noteq> 0 then SET_BIT8 p (length out) else Some p) = Some p1"
    "length p1 = length p" "packs n p1 (out @ [bit v 0])"
    using SET_BIT8_packs[of n p out] packs_zeroes[of n p out 1] Suc.prems ev by auto
  obtain p2 where "write_len p1 (length out + 1) (drop_bit 1 v) sz = Some (p2, length out + 1 + sz)"
    "length p2 = length p1" "packs n p2 ((out @ [bit v 0]) @ map (bit (drop_bit 1 v)) [0..<sz])"
    using Suc.IH[OF p1(3), of "drop_bit 1 v"] Suc.prems by auto
  moreover have "map (bit v) [0..<Suc sz] = bit v 0 # map (bit (drop_bit 1 v)) [0..<sz]"
    by (simp add: upt_conv_Cons bit_drop_bit_eq map_Suc_upt[symmetric] comp_def del: upt_Suc)
  ultimately show ?case using p1 by simp
qed simp

definition writes :: "nat \<Rightarrow> u8 list \<Rightarrow> bool list \<Rightarrow> bool list \<Rightarrow> (DPS_Status \<times> u8 list \<times> nat) option \<Rightarrow> bool" where
  "writes n p out new r \<longleftrightarrow>
     (if length out + length new \<le> n
      then \<exists>p'. r = Some (DPS_OK, p', length out + length new) \<and> length p' = length p \<and> packs n p' (out @ new)
      else r = None \<or> (\<exists>p' q. r = Some (DPS_ERR_OVERFLOW, p', q) \<and> length p' = length p))"

lemma write_run_writes:
  assumes "packs n p out" "k + 1 < 2 ^ 16"
  shows "writes n p out (code k) (write_run n k p (length out))"
proof -
  let ?sz = "clog k" and ?v = "word_of_nat k - (push_bit (clog k) 1 - 1) :: u32"
  note c = clog_bounds[OF assms(2)]
  have "?v = word_of_nat (k - (2 ^ ?sz - 1))" using c(1) by (simp add: of_nat_diff)
  moreover have "bit (word_of_nat m :: u32) i = bit m i" if "i < 16" for m :: nat and i
    using that by (simp add: bit_word_of_nat)
  ultimately have v: "map (bit ?v) [0..<?sz] = map (bit (k - (2 ^ ?sz - 1))) [0..<?sz]"
    using c(3) by simp
  have sz: "Ceil_Log2 (word_of_nat (k + 1)) = ?sz" by (simp add: clog_def)
  show ?thesis
  proof (cases "length out + ?sz < n")
    case True
    obtain p1 where p1: "SET_BIT8 p (length out + ?sz) = Some p1" "length p1 = length p"
      "packs n p1 (out @ replicate ?sz False @ [True])"
      using SET_BIT8_packs[OF packs_zeroes[OF assms(1), of ?sz]] True by auto
    show ?thesis
    proof (cases "length out + length (code k) \<le> n")
      case fit: True
      obtain p2 where "write_len p1 (length out + ?sz + 1) ?v ?sz = Some (p2, length out + ?sz + 1 + ?sz)"
        "length p2 = length p1" "packs n p2 ((out @ replicate ?sz False @ [True]) @ map (bit ?v) [0..<?sz])"
        using write_len_packs[OF p1(3), of ?sz ?v] fit by auto
      then show ?thesis
        using p1 fit unfolding writes_def write_run_def sz Let_def v by (simp add: code_def)
    next
      case False
      then show ?thesis using p1 unfolding writes_def write_run_def sz Let_def by simp
    qed
  next
    case False
    have "length p' = length p" if "SET_BIT8 p (length out + ?sz) = Some p'" for p'
      using that by (auto simp: SET_BIT8_def split: if_splits)
    then show ?thesis
      using False unfolding writes_def write_run_def sz Let_def by (auto split: option.splits)
  qed
qed

abbreviation chunk_list :: "nat \<Rightarrow> u64 \<Rightarrow> bool list" where
  "chunk_list m c \<equiv> map (bit c) [0..<m]"

lemma chunk_list_zero: "chunk_list m 0 = replicate m False"
  by (rule nth_equalityI) auto

lemma chunk_split:
  assumes "c \<noteq> 0" "\<forall>k \<ge> m. \<not> bit c k"
  shows "COUNT_TZ c < m"
    "chunk_list m c = replicate (COUNT_TZ c) False @ True # chunk_list (m - (COUNT_TZ c + 1)) (drop_bit (COUNT_TZ c + 1) c)"
proof -
  note z = COUNT_TZ_bit[OF assms(1)]
  show l: "COUNT_TZ c < m" using assms(2) z(2) by (meson not_le)
  show "chunk_list m c = replicate (COUNT_TZ c) False @ True # chunk_list (m - (COUNT_TZ c + 1)) (drop_bit (COUNT_TZ c + 1) c)"
  proof (rule nth_equalityI)
    fix i assume i: "i < length (chunk_list m c)"
    show "chunk_list m c ! i = (replicate (COUNT_TZ c) False @ True # chunk_list (m - (COUNT_TZ c + 1)) (drop_bit (COUNT_TZ c + 1) c)) ! i"
    proof (cases "i \<le> COUNT_TZ c")
      case True
      then show ?thesis using i z by (cases "i = COUNT_TZ c") (auto simp: nth_append)
    next
      case False
      then obtain j where "i = Suc (COUNT_TZ c + j)" by (metis less_imp_Suc_add not_le)
      then show ?thesis using i by (simp add: nth_append bit_drop_bit_eq)
    qed
  qed (use l in simp)
qed

lemma writes_trans:
  assumes "writes n p' (out @ a) b s" "length p' = length p"
  shows "writes n p out (a @ b) s"
  using assms unfolding writes_def by (simp only: length_append append_assoc add.assoc)

lemma writes_fail:
  assumes "writes n p out a r" "\<not> length out + length a \<le> n"
    and "r = None \<Longrightarrow> s = None" "\<And>p' q. r = Some (DPS_ERR_OVERFLOW, p', q) \<Longrightarrow> s = Some (DPS_ERR_OVERFLOW, p', q)"
  shows "writes n p out (a @ b) s"
  using assms by (auto simp: writes_def)

definition drop_rem :: "(DPS_Status \<times> u8 list \<times> nat \<times> nat) option \<Rightarrow> (DPS_Status \<times> u8 list \<times> nat) option" where
  "drop_rem = map_option (\<lambda>(s, p, r, m). (s, p, r))"

lemma rle_chunk_writes:
  assumes "packs n p out" "\<forall>k \<ge> m. \<not> bit chunk k" "num0 + m < 2 ^ 16"
  shows "writes n p out (codes num0 (chunk_list m chunk)) (drop_rem (rle_chunk n chunk num0 m p (length out))) \<and>
    (\<forall>p' r m'. rle_chunk n chunk num0 m p (length out) = Some (DPS_OK, p', r, m') \<longrightarrow> chunk \<noteq> 0 \<or> num0 = 0 \<longrightarrow>
       m' = pend num0 (chunk_list m chunk))"
  using assms
proof (induction chunk arbitrary: num0 m p out rule: measure_induct_rule[of unat])
  case (less chunk)
  show ?case
  proof (cases "chunk = 0")
    case True
    show ?thesis
      unfolding True chunk_list_zero
      using less.prems by (simp add: rle_chunk.simps drop_rem_def writes_def packs_def)
  next
    case False
    let ?tz = "COUNT_TZ chunk" and ?c = "drop_bit (COUNT_TZ chunk + 1) chunk"
    let ?m = "m - (?tz + 1)" and ?k = "num0 + ?tz"
    note sp = chunk_split[OF False less.prems(2)]
    have cs: "codes num0 (chunk_list m chunk) = code ?k @ codes 0 (chunk_list ?m ?c)"
      and pe: "pend num0 (chunk_list m chunk) = pend 0 (chunk_list ?m ?c)"
      unfolding sp(2) by simp_all
    have k: "?k + 1 < 2 ^ 16" "?k mod 2 ^ 32 = ?k" using sp(1) less.prems(3) by auto
    let ?r = "write_run n ?k p (length out)"
    note w = write_run_writes[OF less.prems(1) k(1)]
    have dd: "drop_bit 1 (drop_bit ?tz chunk) = ?c" by (simp add: drop_bit_drop_bit add.commute)
    have eq: "rle_chunk n chunk num0 m p (length out) =
      (case ?r of None \<Rightarrow> None | Some (ret, p', r) \<Rightarrow>
         if ret \<noteq> DPS_OK then Some (ret, p', r, ?m) else rle_chunk n ?c 0 ?m p' r)"
      by (subst rle_chunk.simps) (simp only: Let_def k(2) dd False if_False)
    have hyp: "unat ?c < unat chunk" "\<forall>k \<ge> ?m. \<not> bit ?c k" "0 + ?m < 2 ^ 16"
      using drop_bit_less[of "?tz + 1" chunk] False less.prems(2,3) sp(1)
      by (auto simp: bit_drop_bit_eq)
    show ?thesis
    proof (cases "length out + length (code ?k) \<le> n")
      case True
      then obtain p' where p': "?r = Some (DPS_OK, p', length out + length (code ?k))"
        "length p' = length p" "packs n p' (out @ code ?k)"
        using w by (auto simp: writes_def)
      have e: "rle_chunk n chunk num0 m p (length out) = rle_chunk n ?c 0 ?m p' (length (out @ code ?k))"
        unfolding eq using p' by simp
      from less.IH[OF hyp(1) p'(3) hyp(2,3)] show ?thesis
        unfolding e cs pe using p'(2) by (auto intro: writes_trans)
    next
      case fail: False
      have "writes n p out (code ?k @ codes 0 (chunk_list ?m ?c)) (drop_rem (rle_chunk n chunk num0 m p (length out)))"
        by (rule writes_fail[OF w fail]) (simp_all add: eq drop_rem_def)
      moreover have "rle_chunk n chunk num0 m p (length out) \<noteq> Some (DPS_OK, p', r, m')" for p' r m'
        using w fail unfolding eq by (auto simp: writes_def)
      ultimately show ?thesis unfolding cs by blast
    qed
  qed
qed


lemma pend_le_length: "True \<in> set bs \<Longrightarrow> pend k bs \<le> length bs"
proof (induction k bs rule: pend.induct)
  case (2 k bs)
  then show ?case using pend_le[of 0 bs] by simp
qed auto

lemma pend_chunk:
  assumes "c \<noteq> 0" "\<forall>k \<ge> m. \<not> bit c k"
  shows "pend k (chunk_list m c) \<le> m"
  using pend_le_length[of "chunk_list m c" k] chunk_split[OF assms] COUNT_TZ_bit(2)[OF assms(1)] by auto

lemma rle_chunks_writes:
  assumes "packs n p out" "num0 + 64 * length cs < 2 ^ 16"
  shows "writes n p out (codes num0 (concat (map (\<lambda>c. chunk_list 64 (c XOR cpl)) cs)))
           (rle_chunks n cpl cs num0 p (length out))"
  using assms
proof (induction cs arbitrary: num0 p out)
  case Nil
  then show ?case by (simp add: writes_def packs_def)
next
  case (Cons c cs)
  let ?c = "c XOR cpl" and ?rest = "concat (map (\<lambda>c. chunk_list 64 (c XOR cpl)) cs)"
  show ?case
  proof (cases "?c = 0")
    case True
    have "(num0 + 64) mod 2 ^ 32 = num0 + 64" using Cons.prems(2) by simp
    then show ?thesis
      using Cons.IH[OF Cons.prems(1), of "num0 + 64"] Cons.prems(2)
      by (simp add: True chunk_list_zero[simplified] map_replicate_const del: upt_Suc)
  next
    case False
    let ?r = "rle_chunk n ?c num0 64 p (length out)" and ?new = "codes num0 (chunk_list 64 ?c)"
    have hb: "\<forall>k \<ge> 64. \<not> bit ?c k" using bit_imp_le_length[of ?c] by (auto simp: not_le[symmetric])
    have w: "writes n p out ?new (drop_rem ?r)"
      and m: "\<And>p' r m'. ?r = Some (DPS_OK, p', r, m') \<Longrightarrow> m' = pend num0 (chunk_list 64 ?c)"
      using rle_chunk_writes[OF Cons.prems(1) hb, of num0] Cons.prems(2) False by auto
    have split: "codes num0 (concat (map (\<lambda>c. chunk_list 64 (c XOR cpl)) (c # cs))) =
      ?new @ codes (pend num0 (chunk_list 64 ?c)) ?rest"
      by (simp only: list.map concat.simps codes_append)
    show ?thesis
    proof (cases "length out + length ?new \<le> n")
      case True
      then obtain p' m' where p': "?r = Some (DPS_OK, p', length out + length ?new, m')"
        "length p' = length p" "packs n p' (out @ ?new)"
        using w by (auto simp: writes_def drop_rem_def)
      have "pend num0 (chunk_list 64 ?c) \<le> 64"
        using pend_chunk[OF False hb] by simp
      then have "pend num0 (chunk_list 64 ?c) + 64 * length cs < 2 ^ 16" using Cons.prems(2) by simp
      from Cons.IH[OF p'(3) this] p' m[OF p'(1)] False show ?thesis
        unfolding split by (intro writes_trans[of n p']) (simp_all add: Let_def)
    next
      case fail: False
      show ?thesis unfolding split
        by (rule writes_fail[OF w fail]) (use False in \<open>auto simp: Let_def drop_rem_def\<close>)
    qed
  qed
qed

definition byte_bits :: "u8 list \<Rightarrow> bool list" where
  "byte_bits bs = concat (map (\<lambda>b. map (bit b) [0..<8]) bs)"

lemma byte_bits_simps [simp]:
  "byte_bits [] = []" "byte_bits (b # bs) = map (bit b) [0..<8] @ byte_bits bs"
  by (simp_all add: byte_bits_def)

lemma length_byte_bits [simp]: "length (byte_bits bs) = 8 * length bs"
  by (induction bs) auto

lemma nth_byte_bits: "i < 8 * length bs \<Longrightarrow> byte_bits bs ! i = bit (bs ! (i div 8)) (i mod 8)"
proof (induction bs arbitrary: i)
  case (Cons b bs)
  show ?case
  proof (cases "i < 8")
    case False
    then have "i div 8 = Suc ((i - 8) div 8)" "i mod 8 = (i - 8) mod 8"
      by (simp_all add: le_div_geq le_mod_geq)
    then show ?thesis using Cons False by (simp add: nth_append del: upt_Suc)
  qed (simp add: nth_append del: upt_Suc)
qed simp

lemma packs_byte_bits:
  assumes "packs n p out" "8 dvd n"
  defines "k \<equiv> (length out + 7) div 8"
  shows "k \<le> n div 8 \<and> byte_bits (take k p) = out @ replicate (8 * k - length out) False"
proof -
  have l: "length out \<le> n" "n \<le> 8 * length p" using assms(1) by (auto simp: packs_def)
  have k: "length out \<le> 8 * k" "8 * k \<le> n" using l(1) assms(2) by (auto simp: k_def)
  have kp: "k \<le> length p" using k l by simp
  have "byte_bits (take k p) ! i = (out @ replicate (8 * k - length out) False) ! i" if i: "i < 8 * k" for i
  proof -
    have "i div 8 < k" using i by (simp add: div_less_iff_less_mult)
    then have "byte_bits (take k p) ! i = bit (p ! (i div 8)) (i mod 8)"
      using i kp by (simp add: nth_byte_bits min_absorb2)
    also have "\<dots> = (i < length out \<and> out ! i)" using assms(1) i k by (simp add: packs_def)
    finally show ?thesis using i by (simp add: nth_append)
  qed
  then have "byte_bits (take k p) = out @ replicate (8 * k - length out) False"
    using k kp by (intro nth_equalityI) (auto simp: min_absorb2)
  then show ?thesis using k by auto
qed

definition bit_list :: "u64 list \<Rightarrow> bool list" where
  "bit_list cs = concat (map (chunk_list 64) cs)"

lemma length_bit_list [simp]: "length (bit_list cs) = 64 * length cs"
  by (induction cs) (auto simp: bit_list_def)

text \<open>The complement of a vector when the complement flag is set\<close>

definition cpl_chunks :: "u64 \<Rightarrow> u64 list \<Rightarrow> u64 list" where
  "cpl_chunks flags cs = (if flags AND FLAG_RLE_COMPLEMENT \<noteq> 0 then map (\<lambda>c. NOT c) cs else cs)"

lemma length_cpl_chunks [simp]: "length (cpl_chunks flags cs) = length cs"
  by (simp add: cpl_chunks_def)

lemma xor_cpl_chunks:
  "map (\<lambda>c. c XOR (if flags AND FLAG_RLE_COMPLEMENT \<noteq> 0 then -1 else 0)) cs = cpl_chunks flags cs"
  by (auto simp: cpl_chunks_def)

lemma RunLengthEncode_cases:
  fixes flags :: u64
  assumes v: "bv_wf v" "popCount v \<noteq> 0" "bv_len v < 2 ^ 16" and b: "tx_wf b" "bv_len v div 8 \<le> DPS_TxBufferSpace b"
  defines "S \<equiv> codes 0 (bit_list (cpl_chunks flags (bits v)))"
  shows "if length S \<le> bv_len v
    then \<exists>p. RunLengthEncode v b flags =
               Some (DPS_OK, \<lparr>tx_base = take (txPos b) (tx_base b) @ p, txPos = txPos b + (length S + 7) div 8\<rparr>) \<and>
             length p = length (tx_base b) - txPos b \<and> (length S + 7) div 8 \<le> bv_len v div 8 \<and>
             byte_bits (take ((length S + 7) div 8) p) = S @ replicate (8 * ((length S + 7) div 8) - length S) False
    else RunLengthEncode v b flags = None \<or> (\<exists>b'. RunLengthEncode v b flags = Some (DPS_ERR_OVERFLOW, b'))"
proof -
  let ?n = "bv_len v" and ?cpl = "if flags AND FLAG_RLE_COMPLEMENT \<noteq> 0 then - 1 else 0 :: u64"
  let ?p0 = "replicate (?n div 8) 0 @ drop (txPos b + ?n div 8) (tx_base b)"
  let ?r = "rle_chunks ?n ?cpl (bits v) 0 ?p0 0"
  have n: "64 * length (bits v) = ?n" using v(1) by (simp add: bv_wf_def)
  then have d: "8 dvd ?n" "8 * (?n div 8) = ?n" by presburger+
  have fits: "txPos b + ?n div 8 \<le> length (tx_base b)"
    using b tx_space[OF b(1)] by (auto simp: tx_wf_def le_diff_conv2 add.commute)
  then have lp: "length ?p0 = length (tx_base b) - txPos b" by simp
  have "packs ?n ?p0 []" using d by (auto simp: packs_def nth_append div_less_iff_less_mult)
  from rle_chunks_writes[OF this, of 0 "bits v" ?cpl] n v(3)
  have w: "writes ?n ?p0 [] S ?r"
    unfolding S_def bit_list_def xor_cpl_chunks[symmetric] by (simp add: comp_def del: upt_Suc)
  have eq: "RunLengthEncode v b flags =
    (case ?r of None \<Rightarrow> None | Some (ret, p, rleSize) \<Rightarrow>
       let b' = b\<lparr>tx_base := take (txPos b) (tx_base b) @ p\<rparr> in
       if ret \<noteq> DPS_OK then Some (ret, b')
       else if rleSize > ?n then Some (DPS_ERR_OVERFLOW, b')
       else Some (DPS_OK, b'\<lparr>txPos := txPos b' + (rleSize + 7) div 8\<rparr>))"
    using v(2) b(2) unfolding RunLengthEncode_def Let_def by simp
  show ?thesis
  proof (cases "length S \<le> ?n")
    case True
    then obtain p where p: "?r = Some (DPS_OK, p, length S)" "length p = length ?p0" "packs ?n p S"
      using w by (auto simp: writes_def)
    then show ?thesis
      using packs_byte_bits[OF p(3) d(1)] True lp unfolding eq
      by (auto simp: Let_def intro!: exI[of _ p])
  next
    case False
    then show ?thesis using w unfolding eq by (auto simp: writes_def Let_def)
  qed
qed

section \<open>The decoder inverts the reference code\<close>

definition window :: "u64 \<Rightarrow> nat \<Rightarrow> bool" where
  "window cur n \<longleftrightarrow> n \<le> 64 \<and> (\<forall>k \<ge> n. \<not> bit cur k)"

lemma top_up_stream:
  "window cur n \<Longrightarrow> \<exists>cur' n' rest. top_up cur n packed = (cur', n', rest) \<and> window cur' n' \<and> n \<le> n' \<and>
     chunk_list n' cur' @ byte_bits rest = chunk_list n cur @ byte_bits packed \<and> (rest = [] \<or> 56 < n')"
proof (induction packed arbitrary: cur n)
  case (Cons b packed)
  show ?case
  proof (cases "n \<le> 56")
    case True
    let ?c = "cur OR push_bit n (ucast b)"
    have w: "window ?c (n + 8)"
      using Cons.prems True bit_imp_le_length[of b]
      by (fastforce simp: window_def bit_or_iff bit_push_bit_iff bit_ucast_iff)
    have "chunk_list (n + 8) ?c = chunk_list n cur @ map (bit b) [0..<8]"
    proof (rule nth_equalityI)
      fix i assume "i < length (chunk_list (n + 8) ?c)"
      then show "chunk_list (n + 8) ?c ! i = (chunk_list n cur @ map (bit b) [0..<8]) ! i"
        using Cons.prems True
        by (auto simp: nth_append window_def bit_or_iff bit_push_bit_iff bit_ucast_iff simp del: upt_Suc)
    qed simp
    then show ?thesis
      using Cons.IH[OF w] True by (fastforce simp: TOP_UP_THRESHOLD_def)
  next
    case False
    then show ?thesis using Cons.prems by (simp add: TOP_UP_THRESHOLD_def)
  qed
qed auto

lemma nth_stream_bit:
  "chunk_list n cur = xs @ ys \<Longrightarrow> i < length xs \<Longrightarrow> bit cur i = xs ! i"
proof -
  assume a: "chunk_list n cur = xs @ ys" and i: "i < length xs"
  have "i < n" using i arg_cong[OF a, of length] by simp
  then have "bit cur i = chunk_list n cur ! i" by simp
  then show ?thesis using a i by (simp add: nth_append)
qed

lemma COUNT_TZ_eq:
  assumes "bit n k" "\<And>i. i < k \<Longrightarrow> \<not> bit n i"
  shows "COUNT_TZ n = k"
proof -
  have "n \<noteq> 0" using assms(1) by auto
  note z = COUNT_TZ_bit[OF this]
  show ?thesis using z assms by (metis linorder_neqE_nat)
qed

lemma chunk_list_drop:
  "chunk_list n cur = xs @ ys \<Longrightarrow> chunk_list (n - length xs) (drop_bit (length xs) cur) = ys"
proof -
  assume a: "chunk_list n cur = xs @ ys"
  have "ys = drop (length xs) (chunk_list n cur)" using a by simp
  also have "\<dots> = chunk_list (n - length xs) (drop_bit (length xs) cur)"
    by (rule nth_equalityI) (auto simp: bit_drop_bit_eq simp del: upt_Suc)
  finally show ?thesis by simp
qed

lemma window_drop: "window cur n \<Longrightarrow> window (drop_bit k cur) (n - k)"
  by (auto simp: window_def bit_drop_bit_eq)

lemma next_run_code:
  assumes w: "window cur n" and k: "k + 1 < 2 ^ 16" and c: "chunk_list n cur = code k @ ys" and pos: "pos < 2 ^ 31"
  shows "\<exists>cur' n'. next_run cur n pos = Some (cur', n', pos + k) \<and> window cur' n' \<and> chunk_list n' cur' = ys"
proof -
  let ?sz = "clog k"
  note b = clog_bounds[OF k]
  have n: "2 * ?sz + 1 \<le> n" "n \<le> 64" using arg_cong[OF c, of length] w by (auto simp: window_def)
  have bits: "bit cur i = code k ! i" if "i < 2 * ?sz + 1" for i using nth_stream_bit[OF c, of i] that by simp
  have one: "bit cur ?sz" and zero: "\<And>i. i < ?sz \<Longrightarrow> \<not> bit cur i"
    using bits[of ?sz] bits by (auto simp: code_def nth_append)
  have tz: "COUNT_TZ cur = ?sz" by (rule COUNT_TZ_eq[OF one zero])
  have dl: "chunk_list (n - (2 * ?sz + 1)) (drop_bit (2 * ?sz + 1) cur) = ys"
    using chunk_list_drop[OF c] by simp
  show ?thesis
  proof (cases "?sz = 0")
    case True
    then have "k = 0" using b(2) by simp
    moreover have "cur AND 1 \<noteq> 0" using one True word_and_push_bit_1[of 0 cur] by simp
    ultimately show ?thesis
      using dl True window_drop[OF w, of 1] by (simp add: next_run_def)
  next
    case False
    let ?v = "k - (2 ^ ?sz - 1)" and ?c1 = "drop_bit (?sz + 1) cur"
    have v: "?v < 2 ^ ?sz" using b by (simp add: less_diff_conv2)
    have ev: "cur AND 1 = 0" using zero[of 0] False word_and_push_bit_1[of 0 cur] by auto
    have "?c1 AND (push_bit ?sz 1 - 1) = word_of_nat ?v"
    proof (rule bit_word_eqI)
      fix i assume "i < LENGTH(64)"
      have "bit (word_of_nat ?v :: u64) i = bit ?v i"
        using \<open>i < LENGTH(64)\<close> by (rule bit_word_of_nat)
      moreover have "i \<ge> ?sz \<Longrightarrow> \<not> bit ?v i" using v by (metis bit_take_bit_iff not_le take_bit_nat_eq_self)
      moreover have "i < ?sz \<Longrightarrow> bit cur (?sz + 1 + i) = bit ?v i"
        using bits[of "?sz + 1 + i"] by (simp add: code_def nth_append)
      ultimately show "bit (?c1 AND (push_bit ?sz 1 - 1)) i = bit (word_of_nat ?v :: u64) i"
        using \<open>i < LENGTH(64)\<close> by (cases "i < ?sz") (auto simp: bit_and_iff bit_drop_bit_eq bit_mask_iff simp flip: mask_eq_exp_minus_1)
    qed
    moreover have "2 ^ ?sz < (2::nat) ^ 16" using b(1) k by linarith
    ultimately have val: "unat (?c1 AND (push_bit ?sz 1 - 1)) = ?v"
      using v by (simp add: unsigned_of_nat take_bit_nat_eq_self)
    have pk: "?v + (2 ^ ?sz - 1) = k" using b(1) by simp
    have e: "n + 2 ^ 64 - (1 + ?sz * 2) = n - (2 * ?sz + 1) + 2 ^ 64" using n(1) by simp
    have "(n + 2 ^ 64 - (1 + ?sz * 2)) mod 2 ^ 64 = n - (2 * ?sz + 1)"
      unfolding e mod_add_self2 using n(2) by (intro mod_less) simp
    moreover have "(pos + k) mod 2 ^ 64 = pos + k" using pos k by simp
    moreover have "drop_bit ?sz ?c1 = drop_bit (2 * ?sz + 1) cur" by (simp add: drop_bit_drop_bit mult_2 add.assoc)
    ultimately have "next_run cur n pos = Some (drop_bit (2 * ?sz + 1) cur, n - (2 * ?sz + 1), pos + k)"
      using ev tz b(3) unfolding next_run_def Let_def tz val pk by simp
    then show ?thesis using dl window_drop[OF w] by blast
  qed
qed


lemma first_one_cases:
  obtains (none) "xs = replicate (length xs) False"
    | (one) k ys where "xs = replicate k False @ True # ys"
proof (cases "True \<in> set xs")
  case True
  then obtain zs ys where xs: "xs = zs @ True # ys" "True \<notin> set zs" by (meson split_list_first)
  then have "zs = replicate (length zs) False" by (induction zs arbitrary: xs) auto
  with xs show thesis using one by metis
next
  case False
  then have "xs = replicate (length xs) False" by (induction xs) auto
  then show thesis by (rule none)
qed

lemma set_bit_run:
  assumes "len = 64 * length bs" "pos + length (replicate k False @ True # ys) = len"
    and "\<And>i. bit_at res i \<longleftrightarrow> bit_at (SET_BIT bs (pos + k)) i \<or> (pos + k + 1 \<le> i \<and> i < len \<and> ys ! (i - (pos + k + 1)))"
  shows "bit_at res i \<longleftrightarrow> bit_at bs i \<or> (pos \<le> i \<and> i < len \<and> (replicate k False @ True # ys) ! (i - pos))"
proof -
  have "(pos + k) div 64 < length bs" using assms(1,2) by (simp add: div_less_iff_less_mult)
  then have r: "bit_at res i \<longleftrightarrow> bit_at bs i \<or> i = pos + k \<or> (pos + k + 1 \<le> i \<and> i < len \<and> ys ! (i - (pos + k + 1)))"
    using assms(3) bit_at_SET_BIT by auto
  consider "i < pos" | "pos \<le> i" "i < pos + k" | "i = pos + k" | j where "i = pos + k + 1 + j"
    by (metis add.commute le_Suc_ex less_Suc_eq_le linorder_not_less Suc_eq_plus1 linorder_neqE_nat)
  then show ?thesis unfolding r using assms(2) by cases (auto simp: nth_append)
qed

lemma rle_decode_codes:
  assumes "length xs < fuel" "window cur n" "len = 64 * length bs" "len < 2 ^ 16" "pos + length xs = len"
    and "chunk_list n cur @ byte_bits packed = codes 0 xs @ replicate z False" "z < 8" "n = 0 \<longrightarrow> packed = []"
  shows "\<exists>res. rle_decode ndebug fuel len cur n packed bs pos = Returned DPS_OK res \<and> length res = length bs \<and>
    (\<forall>i. bit_at res i \<longleftrightarrow> bit_at bs i \<or> (pos \<le> i \<and> i < len \<and> xs ! (i - pos)))"
  using assms
proof (induction xs arbitrary: fuel cur n packed bs pos rule: length_induct)
  case (1 xs)
  note IH = 1(1) and fuel = 1(2) and win = 1(3) and len = 1(4,5,6) and str = 1(7) and z = 1(8) and n0 = 1(9)
  obtain f where f: "fuel = Suc f" using fuel by (cases fuel) auto
  obtain cur' n' rest where tu: "top_up cur n packed = (cur', n', rest)" "window cur' n'" "n \<le> n'"
    "chunk_list n' cur' @ byte_bits rest = codes 0 xs @ replicate z False" "rest = [] \<or> 56 < n'"
    using top_up_stream[OF win, of packed] str by auto
  show ?case
  proof (cases xs rule: first_one_cases)
    case none
    then have "codes 0 xs = []" by (metis codes_all_False(1))
    with tu(4) have s: "chunk_list n' cur' @ byte_bits rest = replicate z False" by simp
    have rest: "rest = []" using arg_cong[OF s, of length] z tu(5) by auto
    have "cur' = 0"
    proof (rule bit_word_eqI)
      fix i
      have "n' = z" using arg_cong[OF s, of length] rest by simp
      then show "bit cur' i = bit 0 i"
        using s rest tu(2) nth_stream_bit[where n=n' and cur=cur' and xs="replicate z False" and ys="[]" and i=i]
        by (cases "i < n'") (auto simp: window_def)
    qed
    then have "rle_decode ndebug fuel len cur n packed bs pos = Returned DPS_OK bs"
      using f tu(1) rest by simp
    moreover have "\<not> xs ! j" if "j < length xs" for j using none that by (metis nth_replicate)
    ultimately show ?thesis using len(3) by auto
  next
    case (one k ys)
    have k: "k + 1 < 2 ^ 16" using len one by simp
    have cs: "codes 0 xs = code k @ codes 0 ys" using one by simp
    have lc: "length (code k) \<le> 57" using clog_bounds(3)[OF k] by simp
    have "length (code k) \<le> n'"
    proof (cases "rest = []")
      case True
      then show ?thesis using arg_cong[OF tu(4), of length] cs by simp
    qed (use tu(5) lc in simp)
    then obtain t where t: "chunk_list n' cur' = code k @ t" "t @ byte_bits rest = codes 0 ys @ replicate z False"
      using append_prefixD[of "chunk_list n' cur'" "byte_bits rest" "code k"] tu(4) cs by auto
    obtain cur2 n2 where nr: "next_run cur' n' pos = Some (cur2, n2, pos + k)" "window cur2 n2" "chunk_list n2 cur2 = t"
      using next_run_code[OF tu(2) k t(1), of pos] len by auto
    have "n \<noteq> 0" using arg_cong[OF str, of length] n0 cs by auto
    have n2: "n2 = n' - length (code k)" using arg_cong[OF t(1), of length] arg_cong[OF nr(3), of length] by simp
    then have n20: "n2 = 0 \<longrightarrow> rest = []" using tu(5) clog_bounds(3)[OF k] by auto
    have "cur' \<noteq> 0" using nth_stream_bit[OF t(1), of "clog k"] by (auto simp: code_def nth_append)
    let ?bs = "SET_BIT bs (pos + k)"
    have step: "rle_decode ndebug fuel len cur n packed bs pos = rle_decode ndebug f len cur2 n2 rest ?bs (pos + k + 1)"
      using f tu(1) nr(1) \<open>cur' \<noteq> 0\<close> \<open>n \<noteq> 0\<close> len one by simp
    have "length ys < length xs" "length ys < f" "pos + k + 1 + length ys = len" using one fuel f len by auto
    then obtain res where res: "rle_decode ndebug f len cur2 n2 rest ?bs (pos + k + 1) = Returned DPS_OK res"
      "length res = length bs"
      "\<forall>i. bit_at res i \<longleftrightarrow> bit_at ?bs i \<or> (pos + k + 1 \<le> i \<and> i < len \<and> ys ! (i - (pos + k + 1)))"
      using IH[rule_format, of ys f cur2 n2 ?bs "pos + k + 1" rest] nr(2,3) len t(2) z n20 by auto
    then show ?thesis
      unfolding step one using set_bit_run[of len bs pos k ys res] len one by auto
  qed
qed

section \<open>The decoder on arbitrary input\<close>

lemma next_run_advances:
  assumes "next_run cur n pos = Some (cur', n', pos')" "cur \<noteq> 0" "pos < 2 ^ 31"
  shows "pos \<le> pos'"
proof (cases "cur AND 1 \<noteq> 0")
  case True
  then show ?thesis using assms(1) by (simp add: next_run_def)
next
  case False
  let ?tz = "COUNT_TZ cur"
  define v where "v = unat (drop_bit (?tz + 1) cur AND (push_bit ?tz 1 - 1))"
  have tz: "?tz < 63" and pos': "pos' = (pos + (v + (2 ^ ?tz - 1))) mod 2 ^ 64"
    using assms(1) False by (auto simp: next_run_def Let_def v_def split: if_splits)
  have "v < 2 ^ ?tz"
    unfolding v_def push_bit_of_1 mask_eq_exp_minus_1[symmetric] take_bit_eq_mask[symmetric]
    using tz by (simp add: word_take_bit_eq_self_iff[symmetric])
  moreover have "(2::nat) ^ ?tz \<le> 2 ^ 62" using tz by (intro power_increasing) auto
  ultimately have "pos + (v + (2 ^ ?tz - 1)) < 2 ^ 64" using assms(3) by simp
  then show ?thesis unfolding pos' by simp
qed

lemma decode_enough:
  assumes "pos \<le> len" "len < 2 ^ 31" "len - pos < fuel"
  shows "rle_decode nd fuel len cur n packed bs pos \<noteq> Out_Of_Fuel \<and>
    (\<forall>st res. rle_decode nd fuel len cur n packed bs pos = Returned st res \<longrightarrow>
       st \<in> {DPS_OK, DPS_ERR_INVALID} \<and> length res = length bs)"
  using assms
proof (induction fuel arbitrary: cur n packed bs pos)
  case (Suc fuel)
  obtain cur1 n1 rest where t: "top_up cur n packed = (cur1, n1, rest)" by (metis prod_cases3)
  show ?case
  proof (cases "n = 0 \<or> cur1 = 0 \<or> next_run cur1 n1 pos = None")
    case True
    then show ?thesis using t by auto
  next
    case False
    then obtain cur2 n2 pos2 where nr: "next_run cur1 n1 pos = Some (cur2, n2, pos2)"
      by (metis not_None_eq prod_cases3)
    show ?thesis
    proof (cases "pos2 < len")
      case True
      have "pos \<le> pos2" using next_run_advances[OF nr] False Suc.prems by simp
      then show ?thesis
        using Suc.IH[of "pos2 + 1" cur2 n2 rest "SET_BIT bs pos2"] Suc.prems True False t nr by simp
    next
      case nl: False
      then show ?thesis using False t nr by simp
    qed
  qed
qed simp

lemma RunLengthDecode_eq:
  "\<exists>cur n rest. RunLengthDecode nd packed len = rle_decode nd (len + 2) len cur n rest (replicate (len div 64) 0) 0 \<and>
     window cur n \<and> (n = 0 \<longrightarrow> rest = []) \<and> chunk_list n cur @ byte_bits rest = byte_bits packed"
proof (cases packed)
  case (Cons b rest)
  have "chunk_list 8 (ucast b) = map (bit b) [0..<8]"
    by (rule nth_equalityI) (auto simp: bit_ucast_iff)
  then show ?thesis
    using Cons bit_imp_le_length[of b]
    by (intro exI[of _ "ucast b"] exI[of _ 8] exI[of _ rest])
      (auto simp: RunLengthDecode_def window_def bit_ucast_iff not_le[symmetric] simp del: upt_Suc rle_decode.simps)
next
  case Nil
  then show ?thesis
    by (intro exI[of _ 0] exI[of _ "[]"]) (simp add: RunLengthDecode_def window_def del: rle_decode.simps)
qed

lemma nth_bit_list: "i < 64 * length cs \<Longrightarrow> bit_list cs ! i = bit_at cs i"
proof (induction cs arbitrary: i)
  case (Cons c cs)
  show ?case
  proof (cases "i < 64")
    case True
    then show ?thesis by (simp add: bit_list_def bit_at_def nth_append del: upt_Suc)
  next
    case False
    then have "i div 64 = Suc ((i - 64) div 64)" "i mod 64 = (i - 64) mod 64"
      by (simp_all add: le_div_geq le_mod_geq)
    then show ?thesis
      using Cons False by (simp add: bit_list_def bit_at_def nth_append del: upt_Suc)
  qed
qed simp

lemma bit_at_bound: "bit_at cs i \<Longrightarrow> i < 64 * length cs"
  using positions_bound[of cs] by (auto simp: positions_def)

lemma decode_payload:
  assumes "byte_bits p = codes 0 (bit_list cs) @ replicate z False" "z < 8" "len = 64 * length cs" "len < 2 ^ 16"
  shows "RunLengthDecode nd p len = Returned DPS_OK cs"
proof -
  let ?zs = "replicate (len div 64) 0 :: u64 list"
  obtain cur n rest where eq: "RunLengthDecode nd p len = rle_decode nd (len + 2) len cur n rest ?zs 0"
    "window cur n" "n = 0 \<longrightarrow> rest = []" "chunk_list n cur @ byte_bits rest = byte_bits p"
    using RunLengthDecode_eq by blast
  obtain res where r: "rle_decode nd (len + 2) len cur n rest ?zs 0 = Returned DPS_OK res" "length res = length cs"
    "\<forall>i. bit_at res i \<longleftrightarrow> bit_at ?zs i \<or> (0 \<le> i \<and> i < len \<and> bit_list cs ! (i - 0))"
    using rle_decode_codes[of "bit_list cs" "len + 2" cur n len ?zs 0 rest z nd] eq assms by auto
  have "\<not> bit_at ?zs i" for i using positions_replicate_0 by (auto simp: positions_def)
  then have "bit_at res i \<longleftrightarrow> bit_at cs i" for i
    using r(3) nth_bit_list[of i cs] bit_at_bound[of cs i] assms(3) by auto
  then have "res = cs" using positions_eq_iff[OF r(2)] by (simp add: positions_def)
  then show ?thesis using eq(1) r(1) by simp
qed

end
