(* ===== verification/Bv_Serialize.thy ===== *)
theory Bv_Serialize
  imports Rle
begin

text \<open>
  The serialized form of a bit vector (\<open>DPS_BitVectorSerialize\<close>, \<open>DPS_BitVectorDeserialize\<close>
  and the size functions of \<^verbatim>\<open>src/bitvec.c\<close>): an array of flags, length and a byte string that is
  run-length coded, run-length coded after complementing, or raw. Shown are the round trip, the
  outcome of serialization in a buffer of the documented size, the exactness of the size
  estimate, and the behaviour of the decoder on arbitrary received bytes.
\<close>

section \<open>Serialization of a vector\<close>

definition serialize_raw :: "DPS_BitVector \<Rightarrow> DPS_TxBuffer \<Rightarrow> DPS_Status \<times> DPS_TxBuffer" where
  "serialize_raw bv buffer =
     ok_then (CBOR_EncodeUint buffer 0) (\<lambda>b.
     ok_then (CBOR_EncodeUint b (word_of_nat (bv_len bv))) (\<lambda>b.
     CBOR_EncodeBytes b (Some (bytes_of_chunks (bits bv))) (bv_len bv div 8)))"

definition serialize_rle :: "u64 \<Rightarrow> DPS_BitVector \<Rightarrow> DPS_TxBuffer \<Rightarrow> (DPS_Status \<times> DPS_TxBuffer) option" where
  "serialize_rle flags bv buffer =
     (case ok_then (CBOR_EncodeUint buffer flags) (\<lambda>b. CBOR_EncodeUint b (word_of_nat (bv_len bv))) of
        (ret, b) \<Rightarrow>
          if ret \<noteq> DPS_OK then Some (ret, b)
          else
            (case CBOR_StartWrapBytes b (bv_len bv div 8) of
               (Inl e, b') \<Rightarrow>
                 if e = DPS_ERR_OVERFLOW then Some (serialize_raw bv (b'\<lparr>txPos := txPos buffer\<rparr>))
                 else Some (e, b')
             | (Inr wrapPos, b') \<Rightarrow>
                 (case RunLengthEncode bv b' flags of
                    None \<Rightarrow> None
                  | Some (ret, b'') \<Rightarrow>
                      if ret \<noteq> DPS_OK then Some (ret, b'') else CBOR_EndWrapBytes b'' wrapPos)))"

text \<open>The vector is returned too: the load factor computes its count.\<close>

definition DPS_BitVectorSerialize ::
  "DPS_BitVector \<Rightarrow> DPS_TxBuffer \<Rightarrow> (DPS_Status \<times> DPS_BitVector \<times> DPS_TxBuffer) option" where
  "DPS_BitVectorSerialize bv0 buffer =
     (case DPS_BitVectorLoadFactor bv0 of
        (load, bv) \<Rightarrow>
          (case CBOR_EncodeArray buffer 3 of
             (ret, b) \<Rightarrow>
               if ret \<noteq> DPS_OK then Some (ret, bv, b)
               else map_option (\<lambda>(r, b'). (r, bv, b'))
                 (if load < 30 then serialize_rle FLAG_RLE_ENCODED bv b
                  else if load > 70 then serialize_rle (FLAG_RLE_ENCODED OR FLAG_RLE_COMPLEMENT) bv b
                  else Some (serialize_raw bv b))))"

definition DPS_BitVectorSerializeMaxSize :: "DPS_BitVector \<Rightarrow> nat" where
  "DPS_BitVectorSerializeMaxSize bv =
     CBOR_SIZEOF_LEN 3 + (1 + 1) + (1 + 4) + (bv_len bv div 8 + CBOR_SIZEOF_LEN (word_of_nat (bv_len bv div 8)))"

definition DPS_BitVectorSerializeFHSize :: nat where
  "DPS_BitVectorSerializeFHSize =
     FH_BITVECTOR_LEN div 8 + CBOR_SIZEOF_LEN (word_of_nat (FH_BITVECTOR_LEN div 8))"

text \<open>\<open>None\<close>: the decoder's undefined shift or failed assertion\<close>

definition DPS_BitVectorDeserialize ::
  "bool \<Rightarrow> DPS_BitVector \<Rightarrow> DPS_RxBuffer \<Rightarrow> (DPS_Status \<times> DPS_BitVector \<times> DPS_RxBuffer) option" where
  "DPS_BitVectorDeserialize ndebug bv buffer =
     (case CBOR_DecodeArray buffer of
        (Inl e, b) \<Rightarrow> Some (e, bv, b)
      | (Inr sz, b) \<Rightarrow>
          if sz \<noteq> 3 then Some (DPS_ERR_INVALID, bv, b)
          else (case CBOR_DecodeUint b of
             (Inl e, b) \<Rightarrow> Some (e, bv, b)
           | (Inr flags, b) \<Rightarrow>
               (case CBOR_DecodeUint b of
                  (Inl e, b) \<Rightarrow> Some (e, bv, b)
                | (Inr len, b) \<Rightarrow>
                    if unat len \<noteq> bv_len bv then Some (DPS_ERR_INVALID, bv, b)
                    else (case CBOR_DecodeBytes b of
                       (Inl e, b) \<Rightarrow> Some (e, bv, b)
                     | (Inr data, b) \<Rightarrow>
                         if flags AND FLAG_RLE_ENCODED \<noteq> 0 then
                           (case RunLengthDecode ndebug data (bv_len bv) of
                              Returned ret bs \<Rightarrow>
                                (let bv' = bv\<lparr>bits := bs\<rparr> in
                                 Some (ret, if ret = DPS_OK \<and> flags AND FLAG_RLE_COMPLEMENT \<noteq> 0
                                            then DPS_BitVectorComplement bv' else bv', b))
                            | _ \<Rightarrow> None)
                         else if length data = bv_len bv div 8
                         then Some (DPS_OK, bv\<lparr>bits := chunks_of_bytes data\<rparr>, b)
                         else Some (DPS_ERR_INVALID, bv, b)))))"

section \<open>The serialized form\<close>

definition bv_image :: "u64 \<Rightarrow> nat \<Rightarrow> u8 list \<Rightarrow> u8 list" where
  "bv_image flags n payload =
     uint_bytes flags CBOR_UINT @ uint_bytes (word_of_nat n) CBOR_UINT @ hdr_bytes CBOR_BYTES payload"

lemma Requires_mono: "unat m \<le> unat n \<Longrightarrow> Requires m \<le> Requires n"
  by (auto simp: Requires_unat)

lemma len32_mono: "k \<le> h \<Longrightarrow> h < 2 ^ 32 \<Longrightarrow> unat (len32 k) \<le> unat (len32 h)"
  by (simp add: len32_def unsigned_of_nat take_bit_nat_eq_self)

lemma hdr_bytes_mono:
  "length s \<le> h \<Longrightarrow> h < 2 ^ 32 \<Longrightarrow> length (hdr_bytes CBOR_BYTES s) \<le> Requires (len32 h) + 1 + h"
  using Requires_mono[OF len32_mono[of "length s" h]] by (simp add: hdr_bytes_def)

lemma StartWrap_space:
  assumes "tx_wf b" "CBOR_StartWrapBytes b hint = (Inr wrap, b1)"
  shows "hint \<le> DPS_TxBufferSpace b1" "tx_wf b1"
    "txPos b + (Requires (len32 hint) + 1 + hint) \<le> length (tx_base b)"
    "length (tx_base b1) = length (tx_base b)" "txPos b1 = txPos b + Requires (len32 hint) + 1"
proof -
  note D = StartWrap_D[OF assms]
  have b1: "DPS_TxBufferSpace b1 = DPS_TxBufferSpace b - (Requires (len32 hint) + 1)" "tx_wf b1"
    using D assms(1) by (auto intro: tx_wf_put simp del: tx_space)
  show h: "hint \<le> DPS_TxBufferSpace b1"
    using assms unfolding CBOR_StartWrapBytes_def CBOR_ReserveBytes_def
    by (auto split: prod.splits sum.splits if_splits simp del: tx_space)
  show "tx_wf b1" by (rule b1)
  show "length (tx_base b1) = length (tx_base b)" "txPos b1 = txPos b + Requires (len32 hint) + 1"
    using D(2,3) assms(1) by (auto simp: tx_put_def tx_wf_def)
  show "txPos b + (Requires (len32 hint) + 1 + hint) \<le> length (tx_base b)"
    using h D(3) b1 assms(1) by (auto simp: tx_wf_def)
qed

lemma tx_put_length: "tx_wf b \<Longrightarrow> length s \<le> DPS_TxBufferSpace b \<Longrightarrow> length (tx_base (tx_put b s)) = length (tx_base b)"
  by (auto simp: tx_put_def tx_wf_def intro!: length_overwrite)

lemma wrap_in_place:
  assumes b: "tx_wf b" "CBOR_StartWrapBytes b hint = (Inr wrap, b1)"
    and p: "length p = length (tx_base b1) - txPos b1" "k \<le> length p"
    and room: "txPos b + length (hdr_bytes CBOR_BYTES (take k p)) \<le> length (tx_base b)"
  shows "\<exists>b3. CBOR_EndWrapBytes \<lparr>tx_base = take (txPos b1) (tx_base b1) @ p, txPos = txPos b1 + k\<rparr> wrap = Some (DPS_OK, b3) \<and>
    tx_wf b3 \<and> tx_out b3 = tx_out b @ hdr_bytes CBOR_BYTES (take k p) \<and> length (tx_base b3) = length (tx_base b)"
proof -
  let ?h = "uint_bytes (len32 hint) CBOR_BYTES"
  note D = StartWrap_D[OF b] and S = StartWrap_space[OF b]
  define base where "base = take (txPos b1) (tx_base b1) @ p"
  define bz where "bz = \<lparr>tx_base = base, txPos = txPos b\<rparr>"
  have pos: "txPos b1 \<le> length (tx_base b1)" using S(2) by (simp add: tx_wf_def)
  have len: "length base = length (tx_base b)" using p(1) pos S(4) by (simp add: base_def)
  have pre: "take (txPos b1) base = take (txPos b) (tx_base b) @ ?h"
    using D(2) b(1) S(5) pos p(1) by (simp add: base_def tx_put_def overwrite_def tx_wf_def min_absorb2)
  have wfz: "tx_wf bz" using b(1) len by (simp add: tx_wf_def bz_def)
  have b1z: "tx_put bz ?h = \<lparr>tx_base = base, txPos = txPos b1\<rparr>"
  proof -
    have "base = take (txPos b1) base @ drop (txPos b1) base" by simp
    then have "overwrite (txPos b) ?h base = base"
      unfolding overwrite_def using pre S(5) b(1) len
      by (metis (no_types, lifting) append.assoc append_eq_conv_conj length_take length_uint_bytes min_absorb2 add.assoc tx_wf_def)
    then show ?thesis using S(5) by (simp add: tx_put_def bz_def)
  qed
  have st: "CBOR_StartWrapBytes bz hint = (Inr wrap, tx_put bz ?h)"
    using D S b(1) len by (simp add: CBOR_StartWrapBytes_def CBOR_ReserveBytes_def EncodeUint_fits wfz bz_def tx_put_def tx_wf_def)
  have "tx_put (tx_put bz ?h) (take k p) = \<lparr>tx_base = base, txPos = txPos b1 + k\<rparr>"
    unfolding b1z using p pos by (simp add: tx_put_def overwrite_def base_def min_absorb2)
  moreover have "length (take k p) \<le> DPS_TxBufferSpace (tx_put bz ?h)"
    using p len S(4) S(2) unfolding b1z by (simp add: tx_wf_def)
  moreover have "txPos bz + length (hdr_bytes CBOR_BYTES (take k p)) \<le> length (tx_base bz)"
    using room len by (simp add: bz_def)
  moreover have "tx_out bz = tx_out b"
  proof -
    have "take (txPos b) base = take (txPos b) (take (txPos b1) base)" using S(5) by simp
    then show ?thesis using pre b(1) by (simp add: tx_out_def bz_def tx_wf_def)
  qed
  moreover have "length (tx_base bz) = length (tx_base b)" using len by (simp add: bz_def)
  ultimately show ?thesis
    using wrap_fits[OF wfz st] unfolding base_def by metis
qed

lemma uint_pair_OK:
  assumes "tx_wf b" "ok_then (CBOR_EncodeUint b x) (\<lambda>b. CBOR_EncodeUint b y) = (DPS_OK, b2)"
  shows "tx_wf b2" "tx_out b2 = tx_out b @ uint_bytes x CBOR_UINT @ uint_bytes y CBOR_UINT"
proof -
  obtain b1 where b1: "CBOR_EncodeUint b x = (DPS_OK, b1)" "CBOR_EncodeUint b1 y = (DPS_OK, b2)"
    using assms(2) by (auto simp: ok_then_OK_iff)
  note 1 = uint.enc_OK_D[OF assms(1) TrueI b1(1)]
  have w1: "tx_wf b1" using 1 by blast
  note 2 = uint.enc_OK_D[OF w1 TrueI b1(2)]
  show "tx_wf b2" using 2 by blast
  show "tx_out b2 = tx_out b @ uint_bytes x CBOR_UINT @ uint_bytes y CBOR_UINT"
    using 1 2 by (metis append.assoc)
qed

lemma serialize_raw_OK:
  assumes "tx_wf b" "bv_wf v" "serialize_raw v b = (DPS_OK, b')"
  shows "tx_wf b' \<and> tx_out b' = tx_out b @ bv_image 0 (bv_len v) (bytes_of_chunks (bits v))"
proof -
  obtain b2 where b2: "ok_then (CBOR_EncodeUint b 0) (\<lambda>b. CBOR_EncodeUint b (word_of_nat (bv_len v))) = (DPS_OK, b2)"
    "CBOR_EncodeBytes b2 (Some (bytes_of_chunks (bits v))) (bv_len v div 8) = (DPS_OK, b')"
    using assms(3) unfolding serialize_raw_def by (auto simp: ok_then_OK_iff)
  note p = uint_pair_OK[OF assms(1) b2(1)]
  have "length (bytes_of_chunks (bits v)) = bv_len v div 8" using assms(2) by (auto simp: bv_wf_def)
  then have e: "CBOR_EncodeBytes b2 (Some (bytes_of_chunks (bits v))) (length (bytes_of_chunks (bits v))) = (DPS_OK, b')"
    using b2(2) by simp
  have "tx_wf b' \<and> tx_out b' = tx_out b2 @ hdr_bytes CBOR_BYTES (bytes_of_chunks (bits v))"
    using bytes.enc_OK_D[OF p(1) TrueI e] by blast
  then show ?thesis using p(2) by (simp add: bv_image_def)
qed

definition rle_payload :: "u64 \<Rightarrow> DPS_BitVector \<Rightarrow> u8 list \<Rightarrow> bool" where
  "rle_payload flags v payload \<longleftrightarrow>
     (\<forall>nd. RunLengthDecode nd payload (bv_len v) = Returned DPS_OK (cpl_chunks flags (bits v)))"

lemma bv_wf_zero_bits: "bv_wf v \<Longrightarrow> popCount v = 0 \<Longrightarrow> bits v = replicate (bv_len v div 64) 0"
  using bv_count_0[of v] bv_wfD(3)[of v] positions_eq_iff[of "bits v" "replicate (bv_len v div 64) 0"]
  by (simp add: bv_set_def)

lemma StartWrap_overflow:
  assumes "tx_wf b" "CBOR_StartWrapBytes b hint = (Inl e, b1)"
  shows "e = DPS_ERR_OVERFLOW \<and> tx_wf b1 \<and> length (tx_base b1) = length (tx_base b) \<and> take (txPos b) (tx_base b1) = tx_out b"
proof (cases "Requires (len32 hint) + 1 \<le> DPS_TxBufferSpace b")
  case True
  then have e: "EncodeUint b (len32 hint) CBOR_BYTES = (DPS_OK, tx_put b (uint_bytes (len32 hint) CBOR_BYTES))"
    by (rule EncodeUint_fits)
  then have "e = DPS_ERR_OVERFLOW \<and> b1 = tx_put b (uint_bytes (len32 hint) CBOR_BYTES)"
    using assms(2) by (auto simp: CBOR_StartWrapBytes_def CBOR_ReserveBytes_def split: if_splits)
  then show ?thesis
    using True assms(1) tx_wf_put[OF assms(1)]
    by (auto simp: tx_put_def tx_out_def take_overwrite_before tx_wf_def)
next
  case False
  then have "EncodeUint b (len32 hint) CBOR_BYTES = (DPS_ERR_OVERFLOW, b)"
    by (simp add: EncodeUint_def)
  then show ?thesis
    using assms by (auto simp: CBOR_StartWrapBytes_def CBOR_ReserveBytes_def tx_out_def)
qed

text \<open>The run-length code between the start and the end of the wrapping\<close>

lemma rle_written:
  assumes b2: "tx_wf b2" and v: "bv_wf v" "bv_len v < 2 ^ 16"
    and f: "popCount v = 0 \<longrightarrow> flags AND FLAG_RLE_COMPLEMENT = 0"
    and st: "CBOR_StartWrapBytes b2 (bv_len v div 8) = (Inr wrap, b3)"
    and ok: "RunLengthEncode v b3 flags = Some (DPS_OK, b4)"
  obtains payload b5 where "rle_payload flags v payload" "CBOR_EndWrapBytes b4 wrap = Some (DPS_OK, b5)"
    "tx_wf b5" "tx_out b5 = tx_out b2 @ hdr_bytes CBOR_BYTES payload"
proof -
  let ?n = "bv_len v"
  note S = StartWrap_space[OF b2 st]
  have h: "?n div 8 < 2 ^ 32" using v(2) by simp
  have room: "txPos b2 + length (hdr_bytes CBOR_BYTES s) \<le> length (tx_base b2)" if "length s \<le> ?n div 8" for s
    using hdr_bytes_mono[OF that h] S(3) by simp
  show thesis
  proof (cases "popCount v = 0")
    case True
    have "rle_payload flags v []"
      using True f bv_wf_zero_bits[OF v(1)]
      by (simp add: rle_payload_def cpl_chunks_def RunLengthDecode_def)
    moreover obtain b5 where "CBOR_EndWrapBytes (tx_put b3 []) wrap = Some (DPS_OK, b5)" "tx_wf b5"
      "tx_out b5 = tx_out b2 @ hdr_bytes CBOR_BYTES []"
      using wrap_fits[OF b2 st, of "[]"] room[of "[]"] by auto
    ultimately show ?thesis using True ok that by (auto simp: RunLengthEncode_def)
  next
    case False
    let ?S = "codes 0 (bit_list (cpl_chunks flags (bits v)))"
    let ?k = "(length ?S + 7) div 8"
    note R = RunLengthEncode_cases[OF v(1) False v(2) S(2,1), of flags]
    have "length ?S \<le> ?n" using R ok by (auto split: if_splits)
    then obtain p where p: "b4 = \<lparr>tx_base = take (txPos b3) (tx_base b3) @ p, txPos = txPos b3 + ?k\<rparr>"
      "length p = length (tx_base b3) - txPos b3" "?k \<le> ?n div 8"
      "byte_bits (take ?k p) = ?S @ replicate (8 * ?k - length ?S) False"
      using R ok by auto
    have kp: "?k \<le> length p" using p(2,3) S(1,2) by (simp add: tx_wf_def)
    have "8 * ?k - length ?S < 8" by (simp add: mod_eq_0_iff_dvd)
    then have "rle_payload flags v (take ?k p)"
      unfolding rle_payload_def
      using decode_payload[OF p(4)] v by (simp add: bv_wf_def)
    moreover have "length (take ?k p) \<le> ?n div 8" using p(3) by simp
    ultimately show ?thesis using p(1) wrap_in_place[OF b2 st p(2) kp] room that by blast
  qed
qed

lemma serialize_rle_OK:
  assumes b: "tx_wf b" and v: "bv_wf v" "bv_len v < 2 ^ 16"
    and f: "popCount v = 0 \<longrightarrow> flags AND FLAG_RLE_COMPLEMENT = 0"
    and ok: "serialize_rle flags v b = Some (DPS_OK, b')"
  shows "tx_wf b' \<and>
    ((\<exists>payload. tx_out b' = tx_out b @ bv_image flags (bv_len v) payload \<and> rle_payload flags v payload) \<or>
     tx_out b' = tx_out b @ bv_image 0 (bv_len v) (bytes_of_chunks (bits v)))"
proof -
  let ?n = "bv_len v"
  obtain b2 where b2: "ok_then (CBOR_EncodeUint b flags) (\<lambda>b. CBOR_EncodeUint b (word_of_nat ?n)) = (DPS_OK, b2)"
    using ok unfolding serialize_rle_def by (auto split: prod.splits if_splits)
  note p2 = uint_pair_OK[OF b b2]
  obtain r b3 where Pair: "CBOR_StartWrapBytes b2 (?n div 8) = (r, b3)" by fastforce
  show ?thesis
  proof (cases r)
    case (Inl e)
    have "serialize_raw v (b3\<lparr>txPos := txPos b\<rparr>) = (DPS_OK, b')"
      using ok Pair Inl StartWrap_overflow[OF p2(1), of "?n div 8" e b3] unfolding serialize_rle_def b2
      by simp
    moreover have pre: "tx_wf b3" "length (tx_base b3) = length (tx_base b2)" "take (txPos b2) (tx_base b3) = tx_out b2"
      using StartWrap_overflow[OF p2(1)] Pair Inl by auto
    have le: "txPos b \<le> txPos b2" using length_tx_out[OF b] length_tx_out[OF p2(1)] p2(2) by simp
    have "tx_wf (b3\<lparr>txPos := txPos b\<rparr>)" using pre le p2(1) by (simp add: tx_wf_def)
    moreover have "tx_out (b3\<lparr>txPos := txPos b\<rparr>) = tx_out b"
    proof -
      have "take (txPos b) (tx_base b3) = take (txPos b) (tx_out b2)" using pre(3) le by (metis min.absorb1 take_take)
      also have "\<dots> = tx_out b" unfolding p2(2) using length_tx_out[OF b] by simp
      finally show ?thesis by (simp add: tx_out_def)
    qed
    ultimately show ?thesis using serialize_raw_OK[OF _ v(1)] by metis
  next
    case (Inr wrap)
    note st = Pair[unfolded Inr]
    obtain b4 where r: "RunLengthEncode v b3 flags = Some (DPS_OK, b4)" "CBOR_EndWrapBytes b4 wrap = Some (DPS_OK, b')"
      using ok st unfolding serialize_rle_def b2 by (auto split: option.splits if_splits)
    show ?thesis using rle_written[OF p2(1) v f st r(1)] r(2) p2(2) by (auto simp: bv_image_def)
  qed
qed

lemma Deserialize_image:
  assumes r: "rx_wf r" "rx_rem r = uint_bytes (len32 3) CBOR_ARRAY @ bv_image flags n payload @ rest"
    and w: "bv_len w = n" "n < 2 ^ 31"
  shows "\<exists>r'. rx_rem r' = rest \<and>
    DPS_BitVectorDeserialize nd w r =
       (if flags AND FLAG_RLE_ENCODED \<noteq> 0 then
          (case RunLengthDecode nd payload n of
             Returned ret bs \<Rightarrow>
               (let bv' = w\<lparr>bits := bs\<rparr> in
                Some (ret, if ret = DPS_OK \<and> flags AND FLAG_RLE_COMPLEMENT \<noteq> 0
                           then DPS_BitVectorComplement bv' else bv', r'))
           | _ \<Rightarrow> None)
        else if length payload = n div 8 then Some (DPS_OK, w\<lparr>bits := chunks_of_bytes payload\<rparr>, r')
        else Some (DPS_ERR_INVALID, w, r'))"
proof -
  let ?a = "uint_bytes (len32 3) CBOR_ARRAY" and ?f = "uint_bytes flags CBOR_UINT"
    and ?n = "uint_bytes (word_of_nat n) CBOR_UINT" and ?h = "hdr_bytes CBOR_BYTES payload"
  define r1 where "r1 = rx_advance r (length ?a)"
  define r2 where "r2 = rx_advance r1 (length ?f)"
  define r3 where "r3 = rx_advance r2 (length ?n)"
  define r4 where "r4 = rx_advance r3 (length ?h)"
  have rems: "rx_rem r = ?a @ (?f @ ?n @ ?h @ rest)" "rx_rem r1 = ?f @ (?n @ ?h @ rest)"
    "rx_rem r2 = ?n @ (?h @ rest)" "rx_rem r3 = ?h @ rest" "rx_rem r4 = rest"
    using r(2) by (auto simp: bv_image_def r1_def r2_def r3_def r4_def simp del: length_uint_bytes)
  have wf: "rx_wf r1" "rx_wf r2" "rx_wf r3"
    using r(1) rems unfolding r1_def r2_def r3_def by (auto intro!: rx_wf_advance simp: rx_wf_advance)
  have d: "CBOR_DecodeArray r = (Inr 3, r1)" "CBOR_DecodeUint r1 = (Inr flags, r2)"
    "CBOR_DecodeUint r2 = (Inr (word_of_nat n), r3)" "CBOR_DecodeBytes r3 = (Inr payload, r4)"
    using array.dec_img[OF r(1) _ rems(1)] uint.dec_img[OF wf(1) TrueI rems(2)]
      uint.dec_img[OF wf(2) TrueI rems(3)] bytes.dec_img[OF wf(3) TrueI rems(4)]
    by (auto simp: r1_def r2_def r3_def r4_def)
  have "unat (word_of_nat n :: u64) = n" using w(2) by (simp add: unsigned_of_nat take_bit_nat_eq_self)
  then show ?thesis
    using rems(5) unfolding DPS_BitVectorDeserialize_def d by (intro exI[of _ r4]) (simp add: d w(1))
qed

text \<open>The two forms a vector is written in\<close>

lemma serialize_forms:
  assumes "tx_wf b" "bv_wf v" "0 < bv_len v" "bv_len v < 2 ^ 16"
    and "DPS_BitVectorSerialize v b = Some (DPS_OK, v', b')"
  obtains (rle) flags payload where "flags AND FLAG_RLE_ENCODED \<noteq> 0" "tx_wf b'"
      "tx_out b' = tx_out b @ uint_bytes (len32 3) CBOR_ARRAY @ bv_image flags (bv_len v) payload"
      "rle_payload flags (snd (DPS_BitVectorLoadFactor v)) payload"
    | (raw) "tx_out b' = tx_out b @ uint_bytes (len32 3) CBOR_ARRAY @ bv_image 0 (bv_len v) (bytes_of_chunks (bits v))" "tx_wf b'"
proof -
  let ?n = "bv_len v" and ?c = "card (bv_set v)"
  define u where "u = v\<lparr>popCount := int ?c\<rparr>"
  define load :: rat where "load = (100 * of_nat ?c + 1) / of_nat ?n"
  have lf: "DPS_BitVectorLoadFactor v = (load, u)"
    using PopCount_ok[OF assms(2)] by (simp add: DPS_BitVectorLoadFactor_def load_def u_def)
  have u: "bv_wf u" "0 \<le> popCount u" "bv_len u = ?n" "bits u = bits v"
    using bv_wf_set_count[OF assms(2)] by (simp_all add: u_def)
  obtain b1 where b1: "CBOR_EncodeArray b 3 = (DPS_OK, b1)"
    "(if load < 30 then serialize_rle FLAG_RLE_ENCODED u b1
      else if load > 70 then serialize_rle (FLAG_RLE_ENCODED OR FLAG_RLE_COMPLEMENT) u b1
      else Some (serialize_raw u b1)) = Some (DPS_OK, b')"
    using assms(5) unfolding DPS_BitVectorSerialize_def lf by (auto split: prod.splits if_splits)
  have a: "tx_wf b1" "tx_out b1 = tx_out b @ uint_bytes (len32 3) CBOR_ARRAY"
    using array.enc_OK_D[OF assms(1) _ b1(1)] by (auto simp del: tx_out_put)
  have c0: "load < 30" if "popCount u = 0"
    using that assms(3) by (simp add: load_def u_def divide_less_eq)
  have flags: "FLAG_RLE_ENCODED AND FLAG_RLE_COMPLEMENT = 0" "FLAG_RLE_ENCODED AND FLAG_RLE_ENCODED \<noteq> 0"
    "(FLAG_RLE_ENCODED OR FLAG_RLE_COMPLEMENT) AND FLAG_RLE_ENCODED \<noteq> 0"
    by (simp_all add: FLAG_RLE_ENCODED_def FLAG_RLE_COMPLEMENT_def)
  have enc: thesis if "serialize_rle f u b1 = Some (DPS_OK, b')" "f AND FLAG_RLE_ENCODED \<noteq> 0" "popCount u = 0 \<longrightarrow> f AND FLAG_RLE_COMPLEMENT = 0" for f
    using serialize_rle_OK[OF a(1) u(1) _ that(3,1)] that(2) assms(4) u(3,4) rle[of f] raw a(2) lf by auto
  consider "load < 30" | "\<not> load < 30" "load > 70" | "\<not> load < 30" "\<not> load > 70" by blast
  then show thesis
  proof cases
    case 1
    then show ?thesis using enc[of FLAG_RLE_ENCODED] b1(2) flags by simp
  next
    case 2
    then show ?thesis using enc[of "FLAG_RLE_ENCODED OR FLAG_RLE_COMPLEMENT"] b1(2) flags c0 by auto
  next
    case 3
    then show ?thesis using b1(2) serialize_raw_OK[OF a(1) u(1), of b'] u(3,4) raw a(2) by simp
  qed
qed

lemma Deserialize_follows:
  assumes "rx_wf r" "DPS_BitVectorDeserialize nd w r = Some (st, w', r')"
  shows "rx_follows r r'"
proof -
  obtain sz b1 where 1: "CBOR_DecodeArray r = (sz, b1)" by fastforce
  obtain flags b2 where 2: "CBOR_DecodeUint b1 = (flags, b2)" by fastforce
  obtain n b3 where 3: "CBOR_DecodeUint b2 = (n, b3)" by fastforce
  obtain d b4 where 4: "CBOR_DecodeBytes b3 = (d, b4)" by fastforce
  have f1: "rx_follows r b1" using decode_follows[OF assms(1)] 1 by simp
  then have w1: "rx_wf b1" using assms(1) by (rule rx_follows_wf)
  then have f2: "rx_follows b1 b2" using decode_follows 2 by fastforce
  then have w2: "rx_wf b2" using w1 by (rule rx_follows_wf)
  then have f3: "rx_follows b2 b3" using decode_follows 3 by fastforce
  then have "rx_wf b3" using w2 by (rule rx_follows_wf)
  then have f4: "rx_follows b3 b4" using decode_follows 4 by fastforce
  have "r' \<in> {b1, b2, b3, b4}"
    using assms(2) by (auto simp: DPS_BitVectorDeserialize_def 1 2 3 4 Let_def split: sum.splits if_splits rle_outcome.splits)
  then show ?thesis using f1 f2 f3 f4 rx_follows_trans by blast
qed

text \<open>The bytes a vector is written as are read back from wherever they stand.\<close>

lemma serialize_image:
  assumes "tx_wf b" "bv_wf v" "0 < bv_len v" "bv_len v < 2 ^ 16"
    and "DPS_BitVectorSerialize v b = Some (DPS_OK, v', b')"
  shows "tx_wf b' \<and> (\<exists>img. tx_out b' = tx_out b @ img \<and>
    (\<forall>w nd. bv_len w = bv_len v \<longrightarrow> (\<exists>w'. bits w' = bits v \<and> bv_len w' = bv_len w \<and> 
       (\<forall>r rest. rx_wf r \<longrightarrow> rx_rem r = img @ rest \<longrightarrow>
          (\<exists>r'. DPS_BitVectorDeserialize nd w r = Some (DPS_OK, w', r') \<and> rx_wf r' \<and> rx_rem r' = rest)))))"
  using assms
proof (cases rule: serialize_forms)
  case (rle flags payload)
  let ?w = "\<lambda>w. if flags AND FLAG_RLE_COMPLEMENT \<noteq> 0
    then DPS_BitVectorComplement (w\<lparr>bits := cpl_chunks flags (bits v)\<rparr>) else w\<lparr>bits := cpl_chunks flags (bits v)\<rparr>"
  have u: "bits (snd (DPS_BitVectorLoadFactor v)) = bits v" "bv_len (snd (DPS_BitVectorLoadFactor v)) = bv_len v"
    using PopCount_ok[OF assms(2)] by (simp_all add: DPS_BitVectorLoadFactor_def)
  have "bits (?w w) = bits v \<and> bv_len (?w w) = bv_len w" for w
    by (auto simp: DPS_BitVectorComplement_def Let_def cpl_chunks_def comp_def)
  moreover have "\<exists>r'. DPS_BitVectorDeserialize nd w r = Some (DPS_OK, ?w w, r') \<and> rx_wf r' \<and> rx_rem r' = rest"
    if that: "rx_wf r" "rx_rem r = (uint_bytes (len32 3) CBOR_ARRAY @ bv_image flags (bv_len v) payload) @ rest" "bv_len w = bv_len v" for r rest w nd
  proof -
    note d = Deserialize_image[OF that(1) that(2)[unfolded append_assoc] that(3), of nd]
    obtain r' where r': "rx_rem r' = rest" "DPS_BitVectorDeserialize nd w r = Some (DPS_OK, ?w w, r')"
      using d rle assms(4) u
      by (auto simp: rle_payload_def Let_def)
    then show ?thesis using rx_follows_wf[OF Deserialize_follows[OF that(1) r'(2)] that(1)] by blast
  qed
  ultimately show ?thesis using rle(2,3) by blast
next
  case raw
  have n: "8 * length (bits v) = bv_len v div 8" using assms(2) by (auto simp: bv_wf_def)
  have "\<exists>r'. DPS_BitVectorDeserialize nd w r = Some (DPS_OK, w\<lparr>bits := bits v\<rparr>, r') \<and> rx_wf r' \<and> rx_rem r' = rest"
    if that: "rx_wf r" "rx_rem r = (uint_bytes (len32 3) CBOR_ARRAY @ bv_image 0 (bv_len v) (bytes_of_chunks (bits v))) @ rest" "bv_len w = bv_len v" for r rest w nd
  proof -
    note d = Deserialize_image[OF that(1) that(2)[unfolded append_assoc] that(3), of nd]
    obtain r' where r': "rx_rem r' = rest" "DPS_BitVectorDeserialize nd w r = Some (DPS_OK, w\<lparr>bits := bits v\<rparr>, r')"
      using d assms(4) n
      by (auto simp: bytes_chunks_inverse)
    then show ?thesis using rx_follows_wf[OF Deserialize_follows[OF that(1) r'(2)] that(1)] by blast
  qed
  moreover have "bits (w\<lparr>bits := bits v\<rparr>) = bits v \<and> bv_len (w\<lparr>bits := bits v\<rparr>) = bv_len w" for w by simp
  ultimately show ?thesis using raw by blast
qed

section \<open>Properties\<close>

text \<open>C18: A vector of up to 65535 bits that was serialized, run-length coded, complemented or raw as
  its load demands, is read back bit by bit by a node that holds any vector of that length; the
  reader stops right behind it.\<close>

theorem bitvector_roundtrip:
  assumes "tx_wf b" "bv_wf v" "0 < bv_len v" "bv_len v < 2 ^ 16" "bv_len w = bv_len v"
    and "DPS_BitVectorSerialize v b = Some (DPS_OK, v', b')"
    and "rx_wf r" "rx_rem r = drop (length (tx_out b)) (tx_out b') @ rest"
  shows "\<exists>w' r'. DPS_BitVectorDeserialize nd w r = Some (DPS_OK, w', r') \<and> bits w' = bits v \<and> rx_rem r' = rest"
proof -
  obtain img w' where img: "tx_out b' = tx_out b @ img" "bits w' = bits v"
    "\<And>r rest. rx_wf r \<Longrightarrow> rx_rem r = img @ rest \<Longrightarrow>
       \<exists>r'. DPS_BitVectorDeserialize nd w r = Some (DPS_OK, w', r') \<and> rx_wf r' \<and> rx_rem r' = rest"
    using serialize_image[OF assms(1-4,6)] assms(5) by metis
  show ?thesis using img(3)[OF assms(7), of rest] assms(8) img(1,2) by auto
qed

lemma uint_pair_fits:
  assumes "tx_wf b" "Requires x + Requires y + 2 \<le> DPS_TxBufferSpace b"
  obtains b2 where "ok_then (CBOR_EncodeUint b x) (\<lambda>b. CBOR_EncodeUint b y) = (DPS_OK, b2)"
    "tx_wf b2" "txPos b2 = txPos b + Requires x + Requires y + 2" "length (tx_base b2) = length (tx_base b)"
proof -
  let ?b1 = "tx_put b (uint_bytes x CBOR_UINT)"
  let ?b2 = "tx_put ?b1 (uint_bytes y CBOR_UINT)"
  have 1: "CBOR_EncodeUint b x = (DPS_OK, ?b1)" using uint.enc_fits[OF assms(1) TrueI, of x] assms(2) by simp
  have w1: "tx_wf ?b1" and s1: "DPS_TxBufferSpace ?b1 = DPS_TxBufferSpace b - (Requires x + 1)"
    using assms by (auto intro!: tx_wf_put simp del: tx_space)
  have 2: "CBOR_EncodeUint ?b1 y = (DPS_OK, ?b2)"
    using uint.enc_fits[OF w1 TrueI, of y] assms(2) s1 by (simp del: tx_space)
  have "tx_wf ?b2" using w1 s1 assms by (intro tx_wf_put) (auto simp del: tx_space)
  moreover have "txPos ?b2 = txPos b + Requires x + Requires y + 2" by (simp add: tx_put_def)
  moreover have "length (tx_base ?b2) = length (tx_base b)"
    using assms by (auto simp: tx_put_def tx_wf_def)
  ultimately show thesis using that[of ?b2] 1 2 by simp
qed

lemma StartWrap_fits:
  assumes "tx_wf b" "Requires (len32 hint) + 1 + hint \<le> DPS_TxBufferSpace b"
  shows "\<exists>b1. CBOR_StartWrapBytes b hint = (Inr (txPos b), b1)"
  using assms tx_wf_put[OF assms(1), of "uint_bytes (len32 hint) CBOR_BYTES"]
  by (auto simp: CBOR_StartWrapBytes_def CBOR_ReserveBytes_def EncodeUint_fits simp del: tx_space)

text \<open>The bits that the run-length coder is asked to write\<close>

definition rle_stream :: "u64 \<Rightarrow> DPS_BitVector \<Rightarrow> bool list" where
  "rle_stream flags v = codes 0 (bit_list (cpl_chunks flags (bits v)))"

lemma Requires_flags: "flags \<in> {0, FLAG_RLE_ENCODED, FLAG_RLE_ENCODED OR FLAG_RLE_COMPLEMENT} \<Longrightarrow> Requires flags = 0"
  by (auto simp: Requires_def FLAG_RLE_ENCODED_def FLAG_RLE_COMPLEMENT_def)

lemma Requires_len: "n < 2 ^ 16 \<Longrightarrow> Requires (word_of_nat n) \<le> 2"
  by (simp add: Requires_unat unsigned_of_nat take_bit_nat_eq_self)

lemma serialize_rle_outcome:
  assumes b: "tx_wf b" and v: "bv_wf v" "bv_len v < 2 ^ 16" and f: "Requires flags = 0"
    and sp: "4 + (Requires (len32 (bv_len v div 8)) + 1 + bv_len v div 8) \<le> DPS_TxBufferSpace b"
  shows "if popCount v = 0 \<or> length (rle_stream flags v) \<le> bv_len v
    then \<exists>b'. serialize_rle flags v b = Some (DPS_OK, b') \<and> tx_wf b' \<and> length (tx_base b') = length (tx_base b) \<and>
           length (tx_out b') \<le> length (tx_out b) + 4 + (Requires (len32 (bv_len v div 8)) + 1 + bv_len v div 8)
    else serialize_rle flags v b = None \<or> (\<exists>b'. serialize_rle flags v b = Some (DPS_ERR_OVERFLOW, b'))"
proof -
  let ?n = "bv_len v" and ?S = "rle_stream flags v"
  have rn: "Requires (word_of_nat ?n) \<le> 2" by (rule Requires_len[OF v(2)])
  obtain b2 where b2: "ok_then (CBOR_EncodeUint b flags) (\<lambda>b. CBOR_EncodeUint b (word_of_nat ?n)) = (DPS_OK, b2)"
    "tx_wf b2" "txPos b2 = txPos b + Requires flags + Requires (word_of_nat ?n) + 2" "length (tx_base b2) = length (tx_base b)"
    using uint_pair_fits[OF b, of flags "word_of_nat ?n"] sp rn f by auto
  have sp2: "Requires (len32 (?n div 8)) + 1 + ?n div 8 \<le> DPS_TxBufferSpace b2"
    using sp rn f b2 b by auto
  obtain b3 where st: "CBOR_StartWrapBytes b2 (?n div 8) = (Inr (txPos b2), b3)"
    using StartWrap_fits[OF b2(2) sp2] by blast
  note S = StartWrap_space[OF b2(2) st]
  have eq: "serialize_rle flags v b =
    (case RunLengthEncode v b3 flags of None \<Rightarrow> None
     | Some (ret, b'') \<Rightarrow> if ret \<noteq> DPS_OK then Some (ret, b'') else CBOR_EndWrapBytes b'' (txPos b2))"
    unfolding serialize_rle_def b2(1) using st by simp
  have h: "?n div 8 < 2 ^ 32" using v(2) by simp
  have len: "length (tx_out b5) \<le> length (tx_out b) + 4 + (Requires (len32 (?n div 8)) + 1 + ?n div 8)"
    if "tx_out b5 = tx_out b2 @ hdr_bytes CBOR_BYTES s" "length s \<le> ?n div 8" for b5 s
    using that hdr_bytes_mono[OF that(2) h] length_tx_out[OF b2(2)] length_tx_out[OF b] b2(3) rn f by simp
  have room: "txPos b2 + length (hdr_bytes CBOR_BYTES s) \<le> length (tx_base b2)" if "length s \<le> ?n div 8" for s
    using hdr_bytes_mono[OF that h] S(3) by simp
  show ?thesis
  proof (cases "popCount v = 0")
    case True
    obtain b5 where "CBOR_EndWrapBytes (tx_put b3 []) (txPos b2) = Some (DPS_OK, b5)" "tx_wf b5" "length (tx_base b5) = length (tx_base b)"
      "tx_out b5 = tx_out b2 @ hdr_bytes CBOR_BYTES []"
      using wrap_fits[OF b2(2) st, of "[]"] room[of "[]"] b2(4) by (metis (no_types, lifting) le0 le_trans list.size(3))
    then show ?thesis using True len[of b5 "[]"] unfolding eq by (simp add: RunLengthEncode_def)
  next
    case False
    note R = RunLengthEncode_cases[OF v(1) False v(2) S(2,1), of flags, folded rle_stream_def]
    show ?thesis
    proof (cases "length ?S \<le> ?n")
      case True
      let ?k = "(length ?S + 7) div 8"
      obtain p where p: "RunLengthEncode v b3 flags = Some (DPS_OK, \<lparr>tx_base = take (txPos b3) (tx_base b3) @ p, txPos = txPos b3 + ?k\<rparr>)"
        "length p = length (tx_base b3) - txPos b3" "?k \<le> ?n div 8"
        using R True by auto
      have kp: "?k \<le> length p" using p(2,3) S(1,2) by (simp add: tx_wf_def)
      have l: "length (take ?k p) \<le> ?n div 8" using p(3) by simp
      obtain b5 where "CBOR_EndWrapBytes \<lparr>tx_base = take (txPos b3) (tx_base b3) @ p, txPos = txPos b3 + ?k\<rparr> (txPos b2) = Some (DPS_OK, b5)"
        "tx_wf b5" "length (tx_base b5) = length (tx_base b)" "tx_out b5 = tx_out b2 @ hdr_bytes CBOR_BYTES (take ?k p)"
        using wrap_in_place[OF b2(2) st p(2) kp room[OF l]] b2(4) by metis
      then show ?thesis using True len[OF _ l] unfolding eq p(1) by auto
    next
      case big: False
      then show ?thesis using R False unfolding eq by auto
    qed
  qed
qed


lemma serialize_raw_fits:
  assumes b: "tx_wf b" and v: "bv_wf v" "bv_len v < 2 ^ 16"
    and sp: "4 + (Requires (len32 (bv_len v div 8)) + 1 + bv_len v div 8) \<le> DPS_TxBufferSpace b"
  shows "\<exists>b'. serialize_raw v b = (DPS_OK, b') \<and> tx_wf b' \<and> length (tx_base b') = length (tx_base b) \<and>
    length (tx_out b') \<le> length (tx_out b) + 4 + (Requires (len32 (bv_len v div 8)) + 1 + bv_len v div 8)"
proof -
  let ?n = "bv_len v" and ?s = "bytes_of_chunks (bits v)"
  have rn: "Requires (word_of_nat ?n) \<le> 2" "Requires 0 = 0" using Requires_len[OF v(2)] by (auto simp: Requires_def)
  obtain b2 where b2: "ok_then (CBOR_EncodeUint b 0) (\<lambda>b. CBOR_EncodeUint b (word_of_nat ?n)) = (DPS_OK, b2)"
    "tx_wf b2" "txPos b2 = txPos b + Requires 0 + Requires (word_of_nat ?n) + 2" "length (tx_base b2) = length (tx_base b)"
    using uint_pair_fits[OF b, of 0 "word_of_nat ?n"] sp rn by auto
  have ls: "length ?s = ?n div 8" using v(1) by (auto simp: bv_wf_def)
  have lh: "length (hdr_bytes CBOR_BYTES ?s) = Requires (len32 (?n div 8)) + 1 + ?n div 8"
    using ls by (simp add: hdr_bytes_def)
  then have "length (hdr_bytes CBOR_BYTES ?s) \<le> DPS_TxBufferSpace b2" using sp rn b2 b by auto
  from bytes.enc_fits[OF b2(2) TrueI this] ls
  have e: "CBOR_EncodeBytes b2 (Some ?s) (?n div 8) = (DPS_OK, tx_put b2 (hdr_bytes CBOR_BYTES ?s))" by simp
  have wf: "tx_wf (tx_put b2 (hdr_bytes CBOR_BYTES ?s))"
    using tx_wf_put[OF b2(2)] \<open>length (hdr_bytes CBOR_BYTES ?s) \<le> DPS_TxBufferSpace b2\<close> by blast
  moreover have "length (tx_base (tx_put b2 (hdr_bytes CBOR_BYTES ?s))) = length (tx_base b)"
    using tx_put_length[OF b2(2) \<open>length (hdr_bytes CBOR_BYTES ?s) \<le> DPS_TxBufferSpace b2\<close>] b2(4) by simp
  moreover have "serialize_raw v b = (DPS_OK, tx_put b2 (hdr_bytes CBOR_BYTES ?s))"
    using b2(1) e unfolding serialize_raw_def by (auto simp: ok_then_OK_iff)
  moreover have "length (tx_out (tx_put b2 (hdr_bytes CBOR_BYTES ?s))) \<le>
    length (tx_out b) + 4 + (Requires (len32 (?n div 8)) + 1 + ?n div 8)"
    using length_tx_out[OF b2(2)] length_tx_out[OF b] b2 lh rn by simp
  ultimately show ?thesis by blast
qed

lemma serialize_outcome:
  fixes v :: DPS_BitVector
  defines "load \<equiv> fst (DPS_BitVectorLoadFactor v)"
  defines "flags \<equiv> if load < 30 then FLAG_RLE_ENCODED else FLAG_RLE_ENCODED OR FLAG_RLE_COMPLEMENT"
  assumes "tx_wf b" "bv_wf v" "bv_len v < 2 ^ 16" "DPS_BitVectorSerializeMaxSize v \<le> DPS_TxBufferSpace b"
  shows "if 30 \<le> load \<and> load \<le> 70 \<or> bv_set v = {} \<or> length (rle_stream flags v) \<le> bv_len v
    then \<exists>v' b'. DPS_BitVectorSerialize v b = Some (DPS_OK, v', b') \<and> tx_wf b' \<and> length (tx_base b') = length (tx_base b) \<and>
           length (tx_out b') \<le> length (tx_out b) + DPS_BitVectorSerializeMaxSize v
    else DPS_BitVectorSerialize v b = None \<or> (\<exists>v' b'. DPS_BitVectorSerialize v b = Some (DPS_ERR_OVERFLOW, v', b'))"
proof -
  let ?n = "bv_len v" and ?c = "card (bv_set v)"
  define u where "u = v\<lparr>popCount := int ?c\<rparr>"
  have lf: "DPS_BitVectorLoadFactor v = (load, u)"
    using PopCount_ok[OF assms(4)] by (simp add: DPS_BitVectorLoadFactor_def load_def u_def)
  have u: "bv_wf u" "bv_len u = ?n" "bits u = bits v" "popCount u = 0 \<longleftrightarrow> bv_set v = {}"
    using bv_wf_set_count[OF assms(4)] by (simp_all add: u_def)
  have st: "rle_stream f u = rle_stream f v" for f by (simp add: rle_stream_def u)
  have l32: "len32 (?n div 8) = word_of_nat (?n div 8)" using assms(5) by (simp add: len32_def)
  have mx: "DPS_BitVectorSerializeMaxSize v = 8 + (Requires (len32 (?n div 8)) + 1 + ?n div 8)"
    by (simp add: DPS_BitVectorSerializeMaxSize_def CBOR_SIZEOF_LEN_eq l32) (simp add: Requires_def)
  have r3: "Requires (len32 3) = 0" by (simp add: Requires_def len32_def)
  let ?b1 = "tx_put b (uint_bytes (len32 3) CBOR_ARRAY)"
  have e: "CBOR_EncodeArray b 3 = (DPS_OK, ?b1)"
    using array.enc_fits[OF assms(3), of 3] assms(6) mx r3 by simp
  have b1: "tx_wf ?b1" "DPS_TxBufferSpace ?b1 = DPS_TxBufferSpace b - 1"
    using assms(3,6) mx r3 by (auto intro!: tx_wf_put simp del: tx_space)
  have o1: "length (tx_out ?b1) = length (tx_out b) + 1" "length (tx_base ?b1) = length (tx_base b)"
    using assms(3,6) mx r3 tx_put_length[OF assms(3), of "uint_bytes (len32 3) CBOR_ARRAY"] by simp_all
  have sp: "4 + (Requires (len32 (bv_len u div 8)) + 1 + bv_len u div 8) \<le> DPS_TxBufferSpace ?b1"
    using assms(6) mx b1(2) u(2) by (simp del: tx_space)
  have ser: "DPS_BitVectorSerialize v b = map_option (\<lambda>(r, b'). (r, u, b'))
      (if load < 30 then serialize_rle FLAG_RLE_ENCODED u ?b1
       else if load > 70 then serialize_rle (FLAG_RLE_ENCODED OR FLAG_RLE_COMPLEMENT) u ?b1
       else Some (serialize_raw u ?b1))"
    unfolding DPS_BitVectorSerialize_def lf e by simp
  show ?thesis
  proof (cases "30 \<le> load \<and> load \<le> 70")
    case True
    then show ?thesis
      using serialize_raw_fits[OF b1(1) u(1) _ sp] assms(5) u(2) ser o1 mx by (auto simp: not_less)
  next
    case False
    then have sel: "DPS_BitVectorSerialize v b = map_option (\<lambda>(r, b'). (r, u, b')) (serialize_rle flags u ?b1)"
      unfolding ser flags_def by auto
    have "Requires flags = 0" by (rule Requires_flags) (simp add: flags_def)
    from serialize_rle_outcome[OF b1(1) u(1) _ this sp] assms(5) u o1 mx False show ?thesis
      unfolding sel st by (auto split: if_splits)
  qed
qed

lemma serialize_small:
  assumes "tx_wf b" "bv_wf v" "bv_len v < 2 ^ 16" "DPS_BitVectorSerializeMaxSize v \<le> DPS_TxBufferSpace b"
    and "fst (DPS_BitVectorLoadFactor v) < 30" "length (rle_stream FLAG_RLE_ENCODED v) \<le> bv_len v"
  shows "\<exists>v' b'. DPS_BitVectorSerialize v b = Some (DPS_OK, v', b') \<and> tx_wf b'"
  using serialize_outcome[OF assms(1-4)] assms(5,6) by auto


section \<open>The size estimate\<close>

function rle_size_chunk :: "u64 \<Rightarrow> nat \<Rightarrow> nat \<Rightarrow> nat \<Rightarrow> nat \<times> nat" where
  "rle_size_chunk chunk num0 rem0 rleSize =
     (if chunk = 0 then (rleSize, rem0)
      else
        (let tz = COUNT_TZ chunk;
             sz = Ceil_Log2 (word_of_nat ((num0 + tz) mod 2 ^ 32 + 1))
         in rle_size_chunk (drop_bit 1 (drop_bit tz chunk)) 0 (rem0 - (tz + 1)) (rleSize + (1 + sz * 2))))"
  by pat_completeness auto

termination
proof (relation "measure (\<lambda>(chunk, num0, rem0, rleSize). unat chunk)")
  fix chunk :: u64 and num0 rem0 rleSize tz sz :: nat
  assume "chunk \<noteq> 0"
  then have "unat (drop_bit (tz + 1) chunk) < unat chunk" by (intro drop_bit_less) auto
  then show "((drop_bit 1 (drop_bit tz chunk), 0, rem0 - (tz + 1), rleSize + (1 + sz * 2)), (chunk, num0, rem0, rleSize))
    \<in> measure (\<lambda>(chunk, num0, rem0, rleSize). unat chunk)" by (simp add: drop_bit_drop_bit add.commute)
qed simp

declare rle_size_chunk.simps [simp del]

fun rle_size_chunks :: "u64 \<Rightarrow> u64 list \<Rightarrow> nat \<Rightarrow> nat \<Rightarrow> nat" where
  "rle_size_chunks complement [] num0 rleSize = rleSize"
| "rle_size_chunks complement (c # cs) num0 rleSize =
     (let chunk = c XOR complement in
      if chunk = 0 then rle_size_chunks complement cs ((num0 + 64) mod 2 ^ 32) rleSize
      else (case rle_size_chunk chunk num0 64 rleSize of (r, rem0) \<Rightarrow> rle_size_chunks complement cs rem0 r))"

definition RLE_Size :: "DPS_BitVector \<Rightarrow> nat" where
  "RLE_Size bv0 =
     (case DPS_BitVectorLoadFactor bv0 of
        (load, bv) \<Rightarrow>
          if load \<ge> 30 \<and> load \<le> 70 then bv_len bv
          else rle_size_chunks (if load > 70 then -1 else 0) (bits bv) 0 0)"

lemma rle_size_chunk_codes:
  assumes "\<forall>k \<ge> m. \<not> bit chunk k" "num0 + m < 2 ^ 16"
  shows "fst (rle_size_chunk chunk num0 m s) = s + length (codes num0 (chunk_list m chunk)) \<and>
    (chunk \<noteq> 0 \<or> num0 = 0 \<longrightarrow> snd (rle_size_chunk chunk num0 m s) = pend num0 (chunk_list m chunk))"
  using assms
proof (induction chunk arbitrary: num0 m s rule: measure_induct_rule[of unat])
  case (less chunk)
  show ?case
  proof (cases "chunk = 0")
    case True
    show ?thesis unfolding True chunk_list_zero by (simp add: rle_size_chunk.simps)
  next
    case False
    let ?tz = "COUNT_TZ chunk" and ?c = "drop_bit (COUNT_TZ chunk + 1) chunk"
    let ?m = "m - (?tz + 1)"
    note sp = chunk_split[OF False less.prems(1)]
    have k: "(num0 + ?tz) mod 2 ^ 32 = num0 + ?tz" using sp(1) less.prems(2) by auto
    have dd: "drop_bit 1 (drop_bit ?tz chunk) = ?c" by (simp add: drop_bit_drop_bit add.commute)
    have eq: "rle_size_chunk chunk num0 m s = rle_size_chunk ?c 0 ?m (s + (1 + clog (num0 + ?tz) * 2))"
      by (subst rle_size_chunk.simps) (simp only: Let_def k dd False if_False clog_def)
    have hyp: "unat ?c < unat chunk" "\<forall>k \<ge> ?m. \<not> bit ?c k" "0 + ?m < 2 ^ 16"
      using drop_bit_less[of "?tz + 1" chunk] False less.prems sp(1) by (auto simp: bit_drop_bit_eq)
    show ?thesis unfolding eq sp(2) using less.IH[OF hyp] by simp
  qed
qed

lemma rle_size_chunks_codes:
  assumes "num0 + 64 * length cs < 2 ^ 16"
  shows "rle_size_chunks cpl cs num0 s =
    s + length (codes num0 (concat (map (\<lambda>c. chunk_list 64 (c XOR cpl)) cs)))"
  using assms
proof (induction cs arbitrary: num0 s)
  case (Cons c cs)
  let ?c = "c XOR cpl" and ?rest = "concat (map (\<lambda>c. chunk_list 64 (c XOR cpl)) cs)"
  have split: "codes num0 (concat (map (\<lambda>c. chunk_list 64 (c XOR cpl)) (c # cs))) =
    codes num0 (chunk_list 64 ?c) @ codes (pend num0 (chunk_list 64 ?c)) ?rest"
    by (simp only: list.map concat.simps codes_append)
  have hb: "\<forall>k \<ge> 64. \<not> bit ?c k" using bit_imp_le_length[of ?c] by (auto simp: not_le[symmetric])
  show ?case
  proof (cases "?c = 0")
    case True
    have cl: "chunk_list 64 ?c = replicate 64 False" unfolding True by (rule chunk_list_zero)
    have "(num0 + 64) mod 2 ^ 32 = num0 + 64" using Cons.prems by simp
    then show ?thesis using Cons.IH[of "num0 + 64" s] Cons.prems True unfolding split cl by simp
  next
    case False
    have "pend num0 (chunk_list 64 ?c) \<le> 64" by (rule pend_chunk[OF False hb])
    then show ?thesis
      using Cons rle_size_chunk_codes[OF hb, of num0 s] False unfolding split
      by (auto simp: Let_def split: prod.split)
  qed
qed simp



lemma LoadFactor_bv64: "fst (DPS_BitVectorLoadFactor (bv64 c)) = (100 * of_nat (POPCOUNT c) + 1) / 64"
  using PopCount_ok[of "bv64 c"] card_positions[of "[c]"]
  by (simp add: DPS_BitVectorLoadFactor_def bv_set_def bv64_def bv_wf_def)

lemma bv64_quarter: "fst (DPS_BitVectorLoadFactor (bv64 0x1111111111111111)) < 30"
proof -
  have "POPCOUNT 0x1111111111111111 = 16" by code_simp
  then show ?thesis unfolding LoadFactor_bv64 by simp
qed

lemma bv64_quarter_stream: "length (rle_stream FLAG_RLE_ENCODED (bv64 0x1111111111111111)) = 76"
proof -
  have "cpl_chunks FLAG_RLE_ENCODED (bits (bv64 0x1111111111111111)) = [0x1111111111111111]"
    by (simp add: cpl_chunks_def FLAG_RLE_ENCODED_def FLAG_RLE_COMPLEMENT_def bv64_def)
  moreover have "length (codes 0 (bit_list [0x1111111111111111])) = 76" by code_simp
  ultimately show ?thesis by (simp add: rle_stream_def)
qed



theorem bitvector_roundtrip_witness:
  "\<exists>v' b' w' r'. DPS_BitVectorSerialize (bv64 5) \<lparr>tx_base = replicate 100 0, txPos = 0\<rparr> = Some (DPS_OK, v', b') \<and>
     DPS_BitVectorDeserialize False (bv64 0) (DPS_TxBufferToRx b') = Some (DPS_OK, w', r') \<and> bits w' = [5]"
proof -
  let ?b = "\<lparr>tx_base = replicate 100 0, txPos = 0\<rparr>"
  have b: "tx_wf ?b" "tx_out ?b = []" by (simp_all add: tx_wf_def tx_out_def)
  have "POPCOUNT 5 = 2" by code_simp
  then have l: "fst (DPS_BitVectorLoadFactor (bv64 5)) < 30" unfolding LoadFactor_bv64 by simp
  have "cpl_chunks FLAG_RLE_ENCODED (bits (bv64 5)) = [5]"
    by (simp add: cpl_chunks_def FLAG_RLE_ENCODED_def FLAG_RLE_COMPLEMENT_def bv64_def)
  moreover have "length (codes 0 (bit_list [5])) = 4" by code_simp
  ultimately have "length (rle_stream FLAG_RLE_ENCODED (bv64 5)) \<le> 64" by (simp add: rle_stream_def)
  moreover have "DPS_BitVectorSerializeMaxSize (bv64 5) \<le> DPS_TxBufferSpace ?b"
    by (simp add: DPS_BitVectorSerializeMaxSize_def CBOR_SIZEOF_LEN_def DPS_TxBufferSpace_def bv64_def)
  ultimately obtain v' b' where s: "DPS_BitVectorSerialize (bv64 5) ?b = Some (DPS_OK, v', b')" "tx_wf b'"
    using serialize_small[OF b(1), of "bv64 5"] l by auto
  have r: "rx_wf (DPS_TxBufferToRx b')" "rx_rem (DPS_TxBufferToRx b') = drop (length (tx_out ?b)) (tx_out b') @ []"
    using rx_of_tx[OF s(2)] b(2) by auto
  have "bits (bv64 5) = [5]" by (simp add: bv64_def)
  then show ?thesis
    using bitvector_roundtrip[OF b(1) _ _ _ _ s(1) r, of "bv64 0" False] s(1) by auto
qed

text \<open>C30: The decoder returns on every input: the number of rounds is bounded by the length of the
  vector, it returns success or \<open>DPS_ERR_INVALID\<close> and keeps the size of the vector; only the
  undefined shift and the failed assertion are left as other outcomes.\<close>

theorem rle_decode_total:
  assumes "len < 2 ^ 31"
  shows "RunLengthDecode nd packed len \<in> {Shift_Undefined, Assertion_Failed} \<or>
    (\<exists>st bs. RunLengthDecode nd packed len = Returned st bs \<and> st \<in> {DPS_OK, DPS_ERR_INVALID} \<and>
       length bs = len div 64)"
proof -
  obtain cur n rest where e: "RunLengthDecode nd packed len = rle_decode nd (len + 2) len cur n rest (replicate (len div 64) 0) 0"
    using RunLengthDecode_eq by blast
  note d = decode_enough[of 0 len "len + 2" nd cur n rest "replicate (len div 64) 0"]
  show ?thesis
    using d assms unfolding e
    by (cases "rle_decode nd (len + 2) len cur n rest (replicate (len div 64) 0) 0") auto
qed

theorem rle_decode_total_witness:
  "RunLengthDecode False [7, 9] 128 \<in> {Shift_Undefined, Assertion_Failed} \<or>
   (\<exists>st bs. RunLengthDecode False [7, 9] 128 = Returned st bs \<and> st \<in> {DPS_OK, DPS_ERR_INVALID} \<and> length bs = 2)"
  using rle_decode_total[of 128 False "[7, 9]"] by simp


end
