(* ===== verification/Count_Vector.thy ===== *)
theory Count_Vector
  imports Bit_Vector "HOL-Library.Multiset"
begin

text \<open>
  The counting vectors of \<^verbatim>\<open>src/bitvec.c\<close>: a 16-bit counter per bit position, the number of
  vectors added, and the union kept up to date. A counting vector represents a multiset of bit sets;
  adding and deleting a vector are insertion into and removal from that multiset, and the union and
  the intersection it hands out are those of the represented sets. The interface \<open>vector_bag\<close>
  states this for the code that keeps the interests of a node.
\<close>

section \<open>Data and operations\<close>

record DPS_CountVector =
  entries :: nat
  cv_len :: nat
  bvUnion :: "DPS_BitVector option"
  counts :: "u16 list list"

definition CV_MAX :: nat where "CV_MAX = 65535"

definition AllocCV :: "bool \<Rightarrow> nat \<Rightarrow> DPS_CountVector option" where
  "AllocCV mem sz =
     (if mem then Some \<lparr>entries = 0, cv_len = sz, bvUnion = None,
                         counts = replicate (sz div 64) (replicate 64 0)\<rparr>
      else None)"

text \<open>\<open>mem1\<close> and \<open>mem2\<close> tell whether the two allocations succeed.\<close>

definition DPS_CountVectorAlloc :: "bool \<Rightarrow> bool \<Rightarrow> Configuration \<Rightarrow> DPS_CountVector option" where
  "DPS_CountVectorAlloc mem1 mem2 config =
     (case AllocCV mem1 (bitLen config) of
        None \<Rightarrow> None
      | Some cv \<Rightarrow>
          (case AllocBV mem2 (bitLen config) of
             None \<Rightarrow> None
           | Some bv \<Rightarrow> Some (cv\<lparr>bvUnion := Some bv\<rparr>)))"

definition DPS_CountVectorAllocFH :: "bool \<Rightarrow> DPS_CountVector option" where
  "DPS_CountVectorAllocFH mem = AllocCV mem FH_BITVECTOR_LEN"

text \<open>The loops over the counters of one chunk stop when the rest of the chunk is zero.\<close>

fun add_chunk :: "u64 \<Rightarrow> u16 list \<Rightarrow> u16 list" where
  "add_chunk chunk [] = []"
| "add_chunk chunk (c # cs) =
     (if chunk AND 1 \<noteq> 0 then c + 1 else c) #
     (let chunk' = drop_bit 1 chunk in if chunk' \<noteq> 0 then add_chunk chunk' cs else cs)"

fun del_chunk :: "u64 \<Rightarrow> u16 list \<Rightarrow> u64 \<Rightarrow> u64 \<Rightarrow> u16 list \<times> u64" where
  "del_chunk chunk [] b clear = ([], clear)"
| "del_chunk chunk (c # cs) b clear =
     (let c' = (if chunk AND 1 \<noteq> 0 then c - 1 else c);
          clear' = (if chunk AND 1 \<noteq> 0 \<and> c' = 0 then clear OR b else clear);
          chunk' = drop_bit 1 chunk
      in if chunk' \<noteq> 0
         then (case del_chunk chunk' cs (push_bit 1 b) clear' of (cs', cl) \<Rightarrow> (c' # cs', cl))
         else (c' # cs, clear'))"

definition DPS_CountVectorAdd ::
  "DPS_CountVector option \<Rightarrow> DPS_BitVector option \<Rightarrow> DPS_Status \<times> DPS_CountVector option" where
  "DPS_CountVectorAdd cvp bvp =
     (case (cvp, bvp) of
        (Some cv, Some bv) \<Rightarrow>
          if entries cv = CV_MAX then (DPS_ERR_RESOURCES, cvp)
          else
            (let cv1 = (if popCount bv \<noteq> 0 then
                cv\<lparr>counts := map2 (\<lambda>chunk cs. if chunk \<noteq> 0 then add_chunk chunk cs else cs)
                               (bits bv) (counts cv),
                   bvUnion := map_option (\<lambda>u. u\<lparr>bits := map2 (\<lambda>b chunk. if chunk \<noteq> 0 then b OR chunk else b)
                                                          (bits u) (bits bv),
                                                popCount := -1\<rparr>) (bvUnion cv)\<rparr>
              else cv)
             in (DPS_OK, Some (cv1\<lparr>entries := entries cv1 + 1\<rparr>)))
      | _ \<Rightarrow> (DPS_ERR_NULL, cvp))"

definition DPS_CountVectorDel ::
  "DPS_CountVector option \<Rightarrow> DPS_BitVector option \<Rightarrow> DPS_Status \<times> DPS_CountVector option" where
  "DPS_CountVectorDel cvp bvp =
     (case (cvp, bvp) of
        (Some cv, Some bv) \<Rightarrow>
          if entries cv = 0 then (DPS_ERR_ARGS, cvp)
          else
            (let res = map2 (\<lambda>chunk cs. if chunk \<noteq> 0 then del_chunk chunk cs 1 0 else (cs, 0))
                         (bits bv) (counts cv);
                 cv1 = (if popCount bv \<noteq> 0 then
                cv\<lparr>counts := map fst res,
                   bvUnion := map_option (\<lambda>u. u\<lparr>bits := map2 (XOR) (bits u) (map snd res),
                                                popCount := -1\<rparr>) (bvUnion cv)\<rparr>
              else cv)
             in (DPS_OK, Some (cv1\<lparr>entries := entries cv1 - 1\<rparr>)))
      | _ \<Rightarrow> (DPS_ERR_NULL, cvp))"

definition DPS_CountVectorToUnion :: "bool \<Rightarrow> DPS_CountVector option \<Rightarrow> DPS_BitVector option" where
  "DPS_CountVectorToUnion mem cvp =
     (case cvp of
        None \<Rightarrow> None
      | Some cv \<Rightarrow> (case bvUnion cv of None \<Rightarrow> None | Some u \<Rightarrow> DPS_BitVectorClone mem u))"

fun inter_chunk :: "nat \<Rightarrow> u16 list \<Rightarrow> u64 \<Rightarrow> u64 \<Rightarrow> u64" where
  "inter_chunk n [] b chunk = chunk"
| "inter_chunk n (c # cs) b chunk =
     (if b = 0 then chunk
      else inter_chunk n cs (push_bit 1 b) (if unat c = n then chunk OR b else chunk))"

definition DPS_CountVectorToIntersection :: "bool \<Rightarrow> DPS_CountVector \<Rightarrow> DPS_BitVector option" where
  "DPS_CountVectorToIntersection mem cv =
     (case AllocBV mem (cv_len cv) of
        None \<Rightarrow> None
      | Some bv \<Rightarrow>
          if entries cv = 0 then Some bv
          else Some (bv\<lparr>bits := map (\<lambda>i.
                 if (case bvUnion cv of None \<Rightarrow> True | Some u \<Rightarrow> bits u ! i \<noteq> 0)
                 then inter_chunk (entries cv) (counts cv ! i) 1 0 else bits bv ! i)
               [0..<cv_len cv div 64]\<rparr>))"

section \<open>One chunk\<close>

lemma length_add_chunk [simp]: "length (add_chunk w cs) = length cs"
  by (induction w cs rule: add_chunk.induct) (auto simp: Let_def)

lemma word_and_1: "(w::u64) AND 1 \<noteq> 0 \<longleftrightarrow> bit w 0"
  using word_and_push_bit_1[of 0 w] by simp

lemma bit_drop_bit_1: "bit (drop_bit (Suc 0) (w::u64)) k = bit w (Suc k)"
  by (simp add: bit_drop_bit_eq)

lemma drop_bit_1_0D: "drop_bit (Suc 0) (w::u64) = 0 \<Longrightarrow> \<not> bit w (Suc k)"
  by (metis bit_drop_bit_1 bit_0_eq bot_apply bot_bool_def)

lemma nth_add_chunk:
  "k < length cs \<Longrightarrow> add_chunk w cs ! k = (if bit w k then cs ! k + 1 else cs ! k)"
proof (induction cs arbitrary: w k)
  case (Cons c cs)
  then show ?case
    by (cases k; cases "drop_bit 1 w = 0") (auto simp: Let_def word_and_1 bit_drop_bit_1 drop_bit_1_0D)
qed simp

text \<open>The deletion loop without its accumulators: new counters and positions to clear\<close>

lemma del_chunk_Cons:
  "del_chunk w (c # cs) b cl =
     (let c' = (if bit w 0 then c - 1 else c); cl' = (if bit w 0 \<and> c = 1 then cl OR b else cl)
      in if drop_bit 1 w = 0 then (c' # cs, cl')
         else (c' # fst (del_chunk (drop_bit 1 w) cs (push_bit 1 b) cl'),
               snd (del_chunk (drop_bit 1 w) cs (push_bit 1 b) cl')))"
  by (auto simp: Let_def word_and_1 split: prod.split)

declare del_chunk.simps(2) [simp del]

lemma length_del_chunk [simp]: "length (fst (del_chunk w cs b cl)) = length cs"
  by (induction cs arbitrary: w b cl) (auto simp: del_chunk_Cons Let_def)

lemma nth_del_chunk:
  "k < length cs \<Longrightarrow> fst (del_chunk w cs b cl) ! k = (if bit w k then cs ! k - 1 else cs ! k)"
proof (induction cs arbitrary: w b cl k)
  case (Cons c cs)
  then show ?case
    by (cases k; cases "drop_bit 1 w = 0")
      (auto simp: del_chunk_Cons Let_def bit_drop_bit_1 drop_bit_1_0D)
qed simp

text \<open>The position after the first one of a run: what the two loops over a chunk share\<close>

lemma run_Cons:
  "(m \<le> k \<and> k - m < length (c # cs) \<and> P (k - m) ((c # cs) ! (k - m))) \<longleftrightarrow>
   (k = m \<and> P 0 c) \<or> (Suc m \<le> k \<and> k - Suc m < length cs \<and> P (Suc (k - Suc m)) (cs ! (k - Suc m)))"
proof (cases "m < k")
  case True
  then obtain j where "k = Suc (m + j)" using less_imp_Suc_add by blast
  then show ?thesis by simp
qed auto

lemma bit_del_clear:
  "b = push_bit m 1 \<Longrightarrow> k < 64 \<Longrightarrow>
   bit (snd (del_chunk w cs b cl)) k \<longleftrightarrow>
     bit cl k \<or> (m \<le> k \<and> k - m < length cs \<and> bit w (k - m) \<and> cs ! (k - m) = 1)"
proof (induction cs arbitrary: w b cl m)
  case (Cons c cs)
  have bb: "bit b k \<longleftrightarrow> k = m" using Cons.prems by (auto simp: bit_exp_iff)
  have pb: "push_bit 1 b = push_bit (Suc m) 1" using Cons.prems by simp
  show ?case
    unfolding run_Cons[where P="\<lambda>i c. bit w i \<and> c = 1"]
    using Cons.IH[OF pb Cons.prems(2)]
    by (cases "drop_bit 1 w = 0")
      (auto simp: del_chunk_Cons Let_def bit_drop_bit_1 drop_bit_1_0D bit_or_iff bb)
qed simp

lemma bit_inter_chunk:
  "b = push_bit m 1 \<Longrightarrow> k < 64 \<Longrightarrow>
   bit (inter_chunk n cs b ch) k \<longleftrightarrow> bit ch k \<or> (m \<le> k \<and> k - m < length cs \<and> unat (cs ! (k - m)) = n)"
proof (induction cs arbitrary: b ch m)
  case (Cons c cs)
  have bb: "bit b k \<longleftrightarrow> k = m" using Cons.prems by (auto simp: bit_exp_iff)
  have pb: "push_bit 1 b = push_bit (Suc m) 1" using Cons.prems by simp
  have b0: "b = 0 \<longleftrightarrow> m \<ge> 64" using Cons.prems by (auto simp: exp_eq_zero_iff)
  show ?case
    unfolding run_Cons[where P="\<lambda>i c. unat c = n"]
    using Cons.IH[OF pb Cons.prems(2)] Cons.prems(2) b0 by (auto simp: bit_or_iff bb)
qed simp

section \<open>The multiset of sets that a counting vector represents\<close>

definition cv_count :: "DPS_CountVector \<Rightarrow> nat \<Rightarrow> u16" where
  "cv_count cv i = counts cv ! (i div 64) ! (i mod 64)"

definition occs :: "nat set multiset \<Rightarrow> nat \<Rightarrow> nat" where
  "occs M i = size (filter_mset (\<lambda>s. i \<in> s) M)"

definition cv_shape :: "DPS_CountVector \<Rightarrow> bool" where
  "cv_shape cv \<longleftrightarrow> 64 * length (counts cv) = cv_len cv \<and> cv_len cv < 2 ^ 31 \<and>
     (\<forall>cs \<in> set (counts cv). length cs = 64)"

definition cv_rep :: "DPS_CountVector \<Rightarrow> nat set multiset \<Rightarrow> bool" where
  "cv_rep cv M \<longleftrightarrow> cv_shape cv \<and> entries cv = size M \<and> size M \<le> CV_MAX \<and>
     (\<forall>s \<in># M. s \<subseteq> {0..<cv_len cv}) \<and>
     (\<forall>i < cv_len cv. unat (cv_count cv i) = occs M i) \<and>
     (\<forall>u. bvUnion cv = Some u \<longrightarrow> bv_ok (cv_len cv) u \<and> bv_set u = \<Union> (set_mset M))"

lemma occs_simps [simp]:
  "occs {#} i = 0"
  "occs (add_mset s M) i = (if i \<in> s then Suc (occs M i) else occs M i)"
  by (simp_all add: occs_def)

lemma occs_le_size: "occs M i \<le> size M"
  by (simp add: occs_def size_filter_mset_lesseq)

lemma occs_pos_iff: "0 < occs M i \<longleftrightarrow> i \<in> \<Union> (set_mset M)"
  by (induction M) auto

lemma occs_all_iff: "occs M i = size M \<longleftrightarrow> (\<forall>s \<in># M. i \<in> s)"
  by (induction M) (auto simp: occs_le_size Suc_n_not_le_n dest: le_antisym[OF occs_le_size]
      intro: ccontr, metis Suc_n_not_le_n occs_le_size)

lemma cv_index:
  "cv_shape cv \<Longrightarrow> i < cv_len cv \<Longrightarrow> i div 64 < length (counts cv) \<and> length (counts cv ! (i div 64)) = 64"
  by (auto simp: cv_shape_def div_less_iff_less_mult)

lemma bv_index:
  "bv_ok n v \<Longrightarrow> 64 * m = n \<Longrightarrow> length (bits v) = m"
  by (auto simp: bv_ok_def bv_wf_def)

lemma bv_set_nth:
  "i div 64 < length (bits v) \<Longrightarrow> i \<in> bv_set v \<longleftrightarrow> bit (bits v ! (i div 64)) (i mod 64)"
  by (simp add: bv_set_def positions_def bit_at_def)

lemma nth_add_chunk': 
  "k < length cs \<Longrightarrow> (if w \<noteq> 0 then add_chunk w cs else cs) ! k = (if bit w k then cs ! k + 1 else cs ! k)"
  by (auto simp: nth_add_chunk)

lemma nth_del_chunk':
  "k < length cs \<Longrightarrow> fst (if w \<noteq> 0 then del_chunk w cs 1 0 else (cs, 0)) ! k =
     (if bit w k then cs ! k - 1 else cs ! k)"
  by (auto simp: nth_del_chunk)

lemma bit_del_clear':
  "k < 64 \<Longrightarrow> length cs = 64 \<Longrightarrow>
   bit (snd (if w \<noteq> 0 then del_chunk w cs 1 0 else (cs, 0))) k \<longleftrightarrow> bit w k \<and> cs ! k = 1"
  using bit_del_clear[of 1 0 k w cs 0] by auto

lemma or_chunks: "map2 (\<lambda>b chunk. if chunk \<noteq> 0 then b OR chunk else b) us cs = map2 (OR) us (cs :: u64 list)"
  by (rule map_cong) auto

lemma unat_inc: "unat (c::u16) < CV_MAX \<Longrightarrow> unat (c + 1) = unat c + 1"
  by (simp add: CV_MAX_def unat_plus_simple[THEN iffD1] unat_word_ariths)

lemma unat_dec: "0 < unat (c::u16) \<Longrightarrow> unat (c - 1) = unat c - 1"
  by (metis One_nat_def Suc_leI unat_1 unat_sub word_le_nat_alt)

lemma bv_ok_bound: "bv_ok n bv \<Longrightarrow> bv_set bv \<subseteq> {0..<n}"
  using bv_wfD(5)[of bv] by (auto simp: bv_ok_def)

section \<open>Adding\<close>

lemma Add_ok:
  assumes rep: "cv_rep cv M" and bv: "bv_ok (cv_len cv) bv" and room: "size M < CV_MAX"
  shows "\<exists>cv'. DPS_CountVectorAdd (Some cv) (Some bv) = (DPS_OK, Some cv') \<and>
    cv_len cv' = cv_len cv \<and> (bvUnion cv' = None \<longleftrightarrow> bvUnion cv = None) \<and>
    cv_rep cv' (add_mset (bv_set bv) M)"
proof (cases "popCount bv = 0")
  case True
  then have "bv_set bv = {}" using bv bv_count_0 by (auto simp: bv_ok_def)
  then show ?thesis
    using True rep room
    by (auto simp: DPS_CountVectorAdd_def cv_rep_def cv_shape_def cv_count_def)
next
  case False
  let ?cnt = "map2 (\<lambda>chunk cs. if chunk \<noteq> 0 then add_chunk chunk cs else cs) (bits bv) (counts cv)"
  let ?u = "\<lambda>u. u\<lparr>bits := map2 (\<lambda>b chunk. if chunk \<noteq> 0 then b OR chunk else b) (bits u) (bits bv), popCount := -1\<rparr>"
  let ?cv = "cv\<lparr>counts := ?cnt, bvUnion := map_option ?u (bvUnion cv), entries := entries cv + 1\<rparr>"
  have shape: "cv_shape cv" using rep by (simp add: cv_rep_def)
  have len: "length (bits bv) = length (counts cv)"
    using bv shape by (auto simp: bv_index cv_shape_def)
  have eq: "DPS_CountVectorAdd (Some cv) (Some bv) = (DPS_OK, Some ?cv)"
    using False rep room by (simp add: DPS_CountVectorAdd_def cv_rep_def)
  have shape': "cv_shape ?cv"
    using shape len by (auto simp: cv_shape_def set_zip) 
  have cnt: "unat (cv_count ?cv i) = occs (add_mset (bv_set bv) M) i" if i: "i < cv_len cv" for i
  proof -
    note ix = cv_index[OF shape i]
    have "unat (cv_count cv i) < CV_MAX"
      using rep i occs_le_size[of M i] room by (auto simp: cv_rep_def)
    then show ?thesis
      using ix rep i len
      by (simp add: cv_count_def nth_add_chunk' bv_set_nth cv_rep_def unat_inc)
  qed
  have un: "bv_ok (cv_len cv) (?u u) \<and> bv_set (?u u) = bv_set bv \<union> \<Union> (set_mset M)"
    if "bvUnion cv = Some u" for u
  proof -
    have u: "bv_ok (cv_len cv) u" "bv_set u = \<Union> (set_mset M)" using rep that by (auto simp: cv_rep_def)
    have "DPS_BitVectorUnion (Some u) (Some bv) = (DPS_OK, Some (?u u))"
      by (simp add: DPS_BitVectorUnion_def or_chunks)
    with Union_ok[of u bv] u bv show ?thesis unfolding bv_ok_def by fastforce
  qed
  have "cv_rep ?cv (add_mset (bv_set bv) M)"
    unfolding cv_rep_def
    using shape' cnt un rep room bv_ok_bound[OF bv]
    by (auto simp: cv_rep_def simp del: occs_simps)
  then show ?thesis using eq by simp
qed

section \<open>Deleting\<close>

lemma del_occs:
  "s \<in># M \<Longrightarrow> occs (M - {#s#}) i = (if i \<in> s then occs M i - 1 else occs M i)"
  by (metis (full_types) diff_Suc_1 insert_DiffM occs_simps(2))

lemma Union_of_occs: "(\<Union> (set_mset M)) = {i. 0 < occs M i}"
  using occs_pos_iff by auto

text \<open>The positions left in the union after a deletion are those whose counter is not yet zero.\<close>

lemma del_union_positions:
  assumes rep: "cv_rep cv M" and s: "bv_set bv \<in># M" and bv: "bv_ok (cv_len cv) bv"
    and u: "bvUnion cv = Some u"
    and res: "res = map2 (\<lambda>chunk cs. if chunk \<noteq> 0 then del_chunk chunk cs 1 0 else (cs, 0)) (bits bv) (counts cv)"
  shows "positions (map2 (XOR) (bits u) (map snd res)) = \<Union> (set_mset (M - {#bv_set bv#}))"
proof -
  have shape: "cv_shape cv" and uo: "bv_ok (cv_len cv) u" "bv_set u = {i. 0 < occs M i}"
    using rep u unfolding cv_rep_def Union_of_occs by auto
  have len: "length (bits bv) = length (counts cv)" "length (bits u) = length (counts cv)"
    using bv uo shape by (auto simp: bv_index cv_shape_def)
  then have lr: "length (bits u) = length (map snd res)" by (simp add: res)
  have bnd: "i < cv_len cv" if "i \<in> bv_set u \<or> i \<in> bv_set bv" for i
    using that bv_ok_bound[OF uo(1)] bv_ok_bound[OF bv] by auto
  have cl: "i \<in> positions (map snd res) \<longleftrightarrow> i \<in> bv_set bv \<and> occs M i = 1" for i
  proof (cases "i < cv_len cv")
    case True
    note ix = cv_index[OF shape True]
    have "unat (cv_count cv i) = occs M i" using rep True by (simp add: cv_rep_def)
    moreover have "cv_count cv i = 1 \<longleftrightarrow> unat (cv_count cv i) = 1"
      by (simp add: word_unat_eq_iff)
    ultimately show ?thesis
      using ix len by (simp add: positions_def bit_at_def res bit_del_clear' bv_set_nth cv_count_def)
  next
    case False
    then show ?thesis
      using bnd[of i] positions_bound[of "map snd res"] shape len by (auto simp: res cv_shape_def)
  qed
  have "positions (map2 (XOR) (bits u) (map snd res)) = sym_diff (bv_set u) (positions (map snd res))"
    using positions_xor[OF lr] by (simp add: bv_set_def)
  moreover have "i \<in> sym_diff (bv_set u) (positions (map snd res)) \<longleftrightarrow> 0 < occs (M - {#bv_set bv#}) i" for i
  proof -
    have "i \<in> bv_set bv \<Longrightarrow> 0 < occs M i" using s occs_pos_iff by auto
    then show ?thesis unfolding uo(2) by (auto simp: cl del_occs[OF s])
  qed
  ultimately show ?thesis unfolding Union_of_occs by blast
qed

lemma Del_ok:
  assumes rep: "cv_rep cv M" and s: "bv_set bv \<in># M" and bv: "bv_ok (cv_len cv) bv"
  shows "\<exists>cv'. DPS_CountVectorDel (Some cv) (Some bv) = (DPS_OK, Some cv') \<and>
    cv_len cv' = cv_len cv \<and> (bvUnion cv' = None \<longleftrightarrow> bvUnion cv = None) \<and>
    cv_rep cv' (M - {#bv_set bv#})"
proof -
  have shape: "cv_shape cv" using rep by (simp add: cv_rep_def)
  have n0: "entries cv \<noteq> 0" "size (M - {#bv_set bv#}) = entries cv - 1"
    using rep s by (auto simp: cv_rep_def size_Diff_singleton)
  show ?thesis
  proof (cases "popCount bv = 0")
    case True
    then have e: "bv_set bv = {}" using bv bv_count_0 by (auto simp: bv_ok_def)
    then have "\<Union> (set_mset (M - {#bv_set bv#})) = \<Union> (set_mset M)"
      unfolding Union_of_occs del_occs[OF s] by simp
    then show ?thesis
      using True rep n0 del_occs[OF s]
      by (auto simp: DPS_CountVectorDel_def cv_rep_def cv_shape_def cv_count_def e dest: in_diffD)
  next
    case False
    define res where
      "res = map2 (\<lambda>chunk cs. if chunk \<noteq> 0 then del_chunk chunk cs 1 0 else (cs, 0)) (bits bv) (counts cv)"
    let ?u = "\<lambda>u. u\<lparr>bits := map2 (XOR) (bits u) (map snd res), popCount := -1\<rparr>"
    let ?cv = "cv\<lparr>counts := map fst res, bvUnion := map_option ?u (bvUnion cv), entries := entries cv - 1\<rparr>"
    have len: "length (bits bv) = length (counts cv)"
      using bv shape by (auto simp: bv_index cv_shape_def)
    have eq: "DPS_CountVectorDel (Some cv) (Some bv) = (DPS_OK, Some ?cv)"
      using False n0(1) by (simp add: DPS_CountVectorDel_def res_def)
    have shape': "cv_shape ?cv"
      using shape len by (auto simp: cv_shape_def res_def set_zip)
    have cnt: "unat (cv_count ?cv i) = occs (M - {#bv_set bv#}) i" if i: "i < cv_len cv" for i
    proof -
      note ix = cv_index[OF shape i]
      have o: "unat (cv_count cv i) = occs M i" using rep i by (simp add: cv_rep_def)
      have "i \<in> bv_set bv \<Longrightarrow> 0 < occs M i" using s occs_pos_iff by auto
      then show ?thesis
        using ix len o by (simp add: cv_count_def res_def nth_del_chunk' bv_set_nth unat_dec del_occs[OF s])
    qed
    have un: "bv_ok (cv_len cv) (?u u) \<and> bv_set (?u u) = \<Union> (set_mset (M - {#bv_set bv#}))"
      if "bvUnion cv = Some u" for u
      using del_union_positions[OF rep s bv that res_def] that rep len shape
      by (auto simp: bv_ok_def bv_wf_def cv_rep_def res_def cv_shape_def)
    have "cv_rep ?cv (M - {#bv_set bv#})"
      unfolding cv_rep_def using shape' cnt un rep n0(2)
      by (auto simp: cv_rep_def dest: in_diffD)
    then show ?thesis using eq by simp
  qed
qed

section \<open>Union and intersection\<close>

lemma Alloc_rep:
  assumes "DPS_CountVectorAlloc True True config = Some cv" "bitLen config = 64 * n" "64 * n < 2 ^ 31"
  shows "cv_rep cv {#}" "cv_len cv = 64 * n" "bvUnion cv \<noteq> None"
  using assms
  by (auto simp: DPS_CountVectorAlloc_def AllocCV_def AllocBV_def cv_rep_def cv_shape_def CV_MAX_def
      cv_count_def bv_ok_def bv_wf_def bv_set_def)

lemma AllocFH_rep:
  assumes "DPS_CountVectorAllocFH True = Some cv"
  shows "cv_rep cv {#}" "cv_len cv = FH_BITVECTOR_LEN" "bvUnion cv = None"
  using assms
  by (auto simp: DPS_CountVectorAllocFH_def AllocCV_def cv_rep_def cv_shape_def CV_MAX_def
      cv_count_def FH_BITVECTOR_LEN_def)

lemma ToUnion_ok:
  assumes "cv_rep cv M" "bvUnion cv \<noteq> None"
  shows "\<exists>u. DPS_CountVectorToUnion True (Some cv) = Some u \<and> bv_ok (cv_len cv) u \<and> bv_set u = \<Union> (set_mset M)"
  using assms by (auto simp: DPS_CountVectorToUnion_def DPS_BitVectorClone_def cv_rep_def)

lemma ToIntersection_ok:
  assumes rep: "cv_rep cv M"
  shows "\<exists>v. DPS_CountVectorToIntersection True cv = Some v \<and> bv_ok (cv_len cv) v \<and>
    bv_set v = (if M = {#} then {} else \<Inter> (set_mset M))"
proof (cases "M = {#}")
  case True
  then show ?thesis
    using rep AllocBV_ok[of "length (counts cv)"]
    by (auto simp: DPS_CountVectorToIntersection_def cv_rep_def cv_shape_def AllocBV_def bv_ok_def)
next
  case False
  let ?chunk = "\<lambda>i. if (case bvUnion cv of None \<Rightarrow> True | Some u \<Rightarrow> bits u ! i \<noteq> 0)
                 then inter_chunk (entries cv) (counts cv ! i) 1 0 else replicate (cv_len cv div 64) 0 ! i"
  let ?v = "\<lparr>popCount = -1, bv_len = cv_len cv, bits = map ?chunk [0..<cv_len cv div 64]\<rparr>"
  have shape: "cv_shape cv" and ent: "entries cv = size M" using rep by (auto simp: cv_rep_def)
  have d: "cv_len cv div 64 = length (counts cv)" "64 * length (counts cv) = cv_len cv"
    using shape by (auto simp: cv_shape_def)
  have eq: "DPS_CountVectorToIntersection True cv = Some ?v"
    using False ent by (simp add: DPS_CountVectorToIntersection_def AllocBV_def)
  have ok: "bv_ok (cv_len cv) ?v" using d shape by (simp add: bv_ok_def bv_wf_def cv_shape_def)
  have mem: "i \<in> bv_set ?v \<longleftrightarrow> occs M i = size M" if i: "i < cv_len cv" for i
  proof -
    let ?q = "i div 64" and ?r = "i mod 64"
    note ix = cv_index[OF shape i]
    have c: "unat (counts cv ! ?q ! ?r) = occs M i" using rep i by (simp add: cv_rep_def cv_count_def)
    have one: "bit (inter_chunk (entries cv) (counts cv ! ?q) 1 0) ?r \<longleftrightarrow> occs M i = size M"
      using bit_inter_chunk[of 1 0 ?r "entries cv" "counts cv ! ?q" 0] ix c ent by simp
    have zero: "occs M i \<noteq> size M" if u: "bvUnion cv = Some u" "bits u ! ?q = 0" for u
    proof -
      have uo: "bv_ok (cv_len cv) u" "bv_set u = \<Union> (set_mset M)" using rep u by (auto simp: cv_rep_def)
      then have "length (bits u) = length (counts cv)" using d by (auto simp: bv_index)
      then have "i \<notin> bv_set u" using u ix by (simp add: bv_set_nth)
      then have "occs M i = 0" using uo occs_pos_iff[of M i] by auto
      then show ?thesis using False by (simp add: size_eq_0_iff_empty)
    qed
    have q: "?q < length (counts cv)" using ix by simp
    have "map f [0..<length (counts cv)] ! ?q = f ?q" for f :: "nat \<Rightarrow> u64" using q by simp
    then have "i \<in> bv_set ?v \<longleftrightarrow> bit (?chunk ?q) ?r"
      unfolding bv_set_def positions_def bit_at_def DPS_BitVector.select_convs d mem_Collect_eq
        length_map length_upt diff_zero using q by metis
    also have "\<dots> \<longleftrightarrow> occs M i = size M"
      using one zero ix d by (auto split: option.splits)
    finally show ?thesis .
  qed
  have "bv_set ?v \<subseteq> {0..<cv_len cv}" by (rule bv_ok_bound[OF ok])
  moreover have "\<Inter> (set_mset M) \<subseteq> {0..<cv_len cv}" using False rep by (fastforce simp: cv_rep_def)
  ultimately have "bv_set ?v = \<Inter> (set_mset M)" using mem by (auto simp: occs_all_iff)
  then show ?thesis using eq ok False by simp
qed

section \<open>Interface\<close>

text \<open>
  What the interests of a node rely on: a bag of vectors with a bounded number of entries. The
  clients take a vector out, read the summary of the others and put it back, or replace it.
\<close>

locale vector_bag =
  fixes rep :: "'c \<Rightarrow> nat set multiset \<Rightarrow> bool" and valid :: "'v \<Rightarrow> bool" and elems :: "'v \<Rightarrow> nat set"
    and add :: "'c \<Rightarrow> 'v \<Rightarrow> 'c" and del :: "'c \<Rightarrow> 'v \<Rightarrow> 'c" and cap :: nat
  assumes add_rep: "rep c M \<Longrightarrow> valid v \<Longrightarrow> size M < cap \<Longrightarrow> rep (add c v) (add_mset (elems v) M)"
    and del_rep: "rep c M \<Longrightarrow> valid v \<Longrightarrow> elems v \<in># M \<Longrightarrow> rep (del c v) (M - {#elems v#})"
    and rep_cap: "rep c M \<Longrightarrow> size M \<le> cap"
begin

lemma del_add:
  assumes "rep c M" "valid v" "elems v \<in># M"
  shows "rep (add (del c v) v) M"
proof -
  have "size (M - {#elems v#}) < cap"
    using assms rep_cap[OF assms(1)] by (metis order_less_le_trans size_Diff1_less)
  from add_rep[OF del_rep[OF assms] assms(2) this] show ?thesis using assms(3) by simp
qed

lemma replace:
  assumes "rep c M" "valid v" "elems v \<in># M" "valid w"
  shows "rep (add (del c v) w) (add_mset (elems w) (M - {#elems v#}))"
proof -
  have "size (M - {#elems v#}) < cap"
    using assms rep_cap[OF assms(1)] by (metis order_less_le_trans size_Diff1_less)
  from add_rep[OF del_rep[OF assms(1-3)] assms(4) this] show ?thesis .
qed

lemma add_all:
  "rep c M \<Longrightarrow> list_all valid vs \<Longrightarrow> size M + length vs \<le> cap \<Longrightarrow>
   rep (foldl add c vs) (M + mset (map elems vs))"
proof (induction vs arbitrary: c M)
  case (Cons v vs)
  then have "rep (add c v) (add_mset (elems v) M)" by (intro add_rep) auto
  from Cons.IH[OF this] Cons.prems show ?case by simp
qed simp

lemma del_all:
  "rep c M \<Longrightarrow> list_all valid vs \<Longrightarrow> mset (map elems vs) \<subseteq># M \<Longrightarrow>
   rep (foldl del c vs) (M - mset (map elems vs))"
proof (induction vs arbitrary: c M)
  case (Cons v vs)
  then have e: "elems v \<in># M" "mset (map elems vs) \<subseteq># M - {#elems v#}" "valid v" "list_all valid vs"
    by (auto simp: insert_subset_eq_iff)
  have "M - mset (map elems (v # vs)) = M - {#elems v#} - mset (map elems vs)"
    by (simp add: multiset_eq_iff)
  with Cons.IH[OF del_rep[OF Cons.prems(1) e(3,1)] e(4,2)] show ?case by simp
qed simp

end

locale union_bag = vector_bag rep valid elems add del cap
  for rep :: "'c \<Rightarrow> nat set multiset \<Rightarrow> bool" and valid :: "'v \<Rightarrow> bool" and elems add del cap +
  fixes union :: "'c \<Rightarrow> 'v"
  assumes union_valid: "rep c M \<Longrightarrow> valid (union c)"
    and union_elems: "rep c M \<Longrightarrow> elems (union c) = \<Union> (set_mset M)"
begin

lemma union_of_others:
  assumes "rep c M" "valid v" "elems v \<in># M"
  shows "elems (union (del c v)) = \<Union> (set_mset (M - {#elems v#}))"
  using union_elems[OF del_rep[OF assms]] .

end

locale inter_bag = vector_bag rep valid elems add del cap
  for rep :: "'c \<Rightarrow> nat set multiset \<Rightarrow> bool" and valid :: "'v \<Rightarrow> bool" and elems add del cap +
  fixes inter :: "'c \<Rightarrow> 'v"
  assumes inter_valid: "rep c M \<Longrightarrow> valid (inter c)"
    and inter_elems: "rep c M \<Longrightarrow> M \<noteq> {#} \<Longrightarrow> elems (inter c) = \<Inter> (set_mset M)"
    and inter_empty: "rep c {#} \<Longrightarrow> elems (inter c) = {}"
begin

lemma inter_lower:
  "rep c M \<Longrightarrow> s \<in># M \<Longrightarrow> elems (inter c) \<subseteq> s"
  using inter_elems by (cases "M = {#}") auto

end

definition cv_add :: "DPS_CountVector \<Rightarrow> DPS_BitVector \<Rightarrow> DPS_CountVector" where
  "cv_add cv bv = the (snd (DPS_CountVectorAdd (Some cv) (Some bv)))"

definition cv_del :: "DPS_CountVector \<Rightarrow> DPS_BitVector \<Rightarrow> DPS_CountVector" where
  "cv_del cv bv = the (snd (DPS_CountVectorDel (Some cv) (Some bv)))"

definition cv_union :: "DPS_CountVector \<Rightarrow> DPS_BitVector" where
  "cv_union cv = the (DPS_CountVectorToUnion True (Some cv))"

definition cv_inter :: "DPS_CountVector \<Rightarrow> DPS_BitVector" where
  "cv_inter cv = the (DPS_CountVectorToIntersection True cv)"

definition int_rep :: "nat \<Rightarrow> DPS_CountVector \<Rightarrow> nat set multiset \<Rightarrow> bool" where
  "int_rep n cv M \<longleftrightarrow> cv_rep cv M \<and> cv_len cv = n \<and> bvUnion cv \<noteq> None"

definition need_rep :: "nat \<Rightarrow> DPS_CountVector \<Rightarrow> nat set multiset \<Rightarrow> bool" where
  "need_rep n cv M \<longleftrightarrow> cv_rep cv M \<and> cv_len cv = n"

lemma cv_add_rep:
  assumes "cv_rep cv M" "bv_ok (cv_len cv) v" "size M < CV_MAX"
  shows "DPS_CountVectorAdd (Some cv) (Some v) = (DPS_OK, Some (cv_add cv v))"
    "cv_rep (cv_add cv v) (add_mset (bv_set v) M)" "cv_len (cv_add cv v) = cv_len cv"
    "bvUnion (cv_add cv v) = None \<longleftrightarrow> bvUnion cv = None"
  using Add_ok[OF assms] by (auto simp: cv_add_def)

lemma cv_del_rep:
  assumes "cv_rep cv M" "bv_ok (cv_len cv) v" "bv_set v \<in># M"
  shows "DPS_CountVectorDel (Some cv) (Some v) = (DPS_OK, Some (cv_del cv v))"
    "cv_rep (cv_del cv v) (M - {#bv_set v#})" "cv_len (cv_del cv v) = cv_len cv"
    "bvUnion (cv_del cv v) = None \<longleftrightarrow> bvUnion cv = None"
  using Del_ok[OF assms(1,3,2)] by (auto simp: cv_del_def)

lemma cv_union_rep:
  assumes "int_rep n cv M"
  shows "bv_ok n (cv_union cv) \<and> bv_set (cv_union cv) = \<Union> (set_mset M)"
  using assms ToUnion_ok[of cv M] by (auto simp: cv_union_def int_rep_def)

lemma cv_inter_rep:
  assumes "need_rep n cv M"
  shows "bv_ok n (cv_inter cv) \<and> bv_set (cv_inter cv) = (if M = {#} then {} else \<Inter> (set_mset M))"
  using assms ToIntersection_ok[of cv M] unfolding cv_inter_def need_rep_def by fastforce

lemma cv_rep_cap: "cv_rep cv M \<Longrightarrow> size M \<le> CV_MAX"
  by (simp add: cv_rep_def)

interpretation cvi: union_bag "int_rep n" "bv_ok n" bv_set cv_add cv_del CV_MAX cv_union for n
proof (unfold_locales, goal_cases)
  case (1 c M v)
  then show ?case using cv_add_rep[of c M v] by (auto simp: int_rep_def)
next
  case (2 c M v)
  then show ?case using cv_del_rep[of c M v] by (auto simp: int_rep_def)
next
  case (3 c M)
  then show ?case by (auto simp: int_rep_def cv_rep_cap)
qed (use cv_union_rep in blast)+

interpretation cvn: inter_bag "need_rep n" "bv_ok n" bv_set cv_add cv_del CV_MAX cv_inter for n
proof (unfold_locales, goal_cases)
  case (1 c M v)
  then show ?case using cv_add_rep[of c M v] by (auto simp: need_rep_def)
next
  case (2 c M v)
  then show ?case using cv_del_rep[of c M v] by (auto simp: need_rep_def)
next
  case (3 c M)
  then show ?case by (auto simp: need_rep_def cv_rep_cap)
next
  case (4 c M)
  then show ?case using cv_inter_rep by blast
next
  case (5 c M)
  then show ?case using cv_inter_rep by (metis (full_types))
next
  case (6 c)
  then show ?case using cv_inter_rep[of n c "{#}"] by simp
qed

text \<open>The counters are determined by what they count.\<close>

lemma int_rep_counts:
  assumes "int_rep n c M" "int_rep n d M"
  shows "counts c = counts d"
proof -
  have r: "cv_rep c M" "cv_rep d M" "cv_len c = n" "cv_len d = n" using assms by (auto simp: int_rep_def)
  then have sh: "cv_shape c" "cv_shape d" and l: "length (counts c) = length (counts d)" "64 * length (counts c) = n"
    by (auto simp: cv_rep_def cv_shape_def)
  have "counts c ! q ! k = counts d ! q ! k" if q: "q < length (counts c)" and k: "k < 64" for q k
  proof -
    have "64 * q + k < n" using q k l(2) by linarith
    then have "unat (cv_count c (64 * q + k)) = unat (cv_count d (64 * q + k))"
      using r by (simp add: cv_rep_def)
    moreover have "(64 * q + k) div 64 = q" "(64 * q + k) mod 64 = k" using k by auto
    ultimately show ?thesis by (simp add: cv_count_def word_unat_eq_iff)
  qed
  then show ?thesis using sh l by (intro nth_equalityI) (auto simp: cv_shape_def)
qed

section \<open>Properties\<close>

text \<open>C15: A counting vector keeps exact track of the vectors in it: after adding any list of vectors
  and deleting any of them again, its union and its intersection are those of the vectors that
  remain, and every call succeeds.\<close>

theorem count_vector_summaries:
  assumes "int_rep n cv {#}" "list_all (bv_ok n) vs" "length vs \<le> CV_MAX"
    and "list_all (bv_ok n) ds" "mset (map bv_set ds) \<subseteq># mset (map bv_set vs)"
  defines "M \<equiv> mset (map bv_set vs) - mset (map bv_set ds)"
  shows "bv_set (cv_union (foldl cv_del (foldl cv_add cv vs) ds)) = \<Union> (set_mset M) \<and>
    bv_set (cv_inter (foldl cv_del (foldl cv_add cv vs) ds)) = (if M = {#} then {} else \<Inter> (set_mset M)) \<and>
    entries (foldl cv_del (foldl cv_add cv vs) ds) = length vs - length ds"
proof -
  let ?cv = "foldl cv_del (foldl cv_add cv vs) ds"
  have "int_rep n (foldl cv_add cv vs) (mset (map bv_set vs))"
    using cvi.add_all[OF assms(1,2)] assms(3) by simp
  from cvi.del_all[OF this assms(4,5)] have r: "int_rep n ?cv M" unfolding M_def .
  then have "need_rep n ?cv M" by (simp add: int_rep_def need_rep_def)
  moreover have "size M = length vs - length ds"
    unfolding M_def using size_Diff_submset[OF assms(5)] by simp
  moreover have "entries ?cv = size M" using r by (simp add: int_rep_def cv_rep_def)
  ultimately show ?thesis using cv_union_rep[OF r] cv_inter_rep[of n ?cv M] by simp
qed

definition cv64 :: DPS_CountVector where
  "cv64 = \<lparr>entries = 0, cv_len = 64, bvUnion = Some (bv64 0), counts = [replicate 64 0]\<rparr>"

lemma cv64_rep: "int_rep 64 cv64 {#}"
  using bv64_subset(2)[of 0]
  by (simp add: int_rep_def cv_rep_def cv64_def cv_shape_def CV_MAX_def cv_count_def)

theorem count_vector_summaries_witness:
  "bv_set (cv_union (foldl cv_del (foldl cv_add cv64 [bv64 3, bv64 6]) [bv64 3])) = bv_set (bv64 6)"
  using count_vector_summaries[OF cv64_rep, of "[bv64 3, bv64 6]" "[bv64 3]"] by (simp add: CV_MAX_def)

text \<open>Taking out a vector and putting it back, as the computation of outbound interests does,
  restores every counter, the number of entries and the bits of the union, and both calls succeed.\<close>

theorem count_vector_del_add:
  assumes "int_rep n cv M" "bv_ok n v" "bv_set v \<in># M"
  shows "\<exists>cv1 cv2. DPS_CountVectorDel (Some cv) (Some v) = (DPS_OK, Some cv1) \<and>
    DPS_CountVectorAdd (Some cv1) (Some v) = (DPS_OK, Some cv2) \<and>
    bv_set (cv_union cv1) = \<Union> (set_mset (M - {#bv_set v#})) \<and>
    entries cv2 = entries cv \<and> counts cv2 = counts cv \<and>
    bv_set (cv_union cv2) = bv_set (cv_union cv)"
proof -
  let ?cv1 = "cv_del cv v" and ?cv2 = "cv_add (cv_del cv v) v"
  have c: "cv_rep cv M" "cv_len cv = n" using assms(1) by (auto simp: int_rep_def)
  have d: "DPS_CountVectorDel (Some cv) (Some v) = (DPS_OK, Some ?cv1)"
    using cv_del_rep(1)[OF c(1) _ assms(3)] assms(2) c(2) by simp
  have r1: "int_rep n ?cv1 (M - {#bv_set v#})" by (rule cvi.del_rep[OF assms])
  have "size (M - {#bv_set v#}) < CV_MAX"
    using assms cv_rep_cap[OF c(1)] by (metis order_less_le_trans size_Diff1_less)
  then have a: "DPS_CountVectorAdd (Some ?cv1) (Some v) = (DPS_OK, Some ?cv2)"
    using cv_add_rep(1)[of ?cv1 "M - {#bv_set v#}" v] r1 assms(2) by (simp add: int_rep_def)
  have r2: "int_rep n ?cv2 M" by (rule cvi.del_add[OF assms])
  have "counts ?cv2 = counts cv" using int_rep_counts[OF r2 assms(1)] .
  moreover have "entries ?cv2 = entries cv" using r2 assms(1) by (simp add: int_rep_def cv_rep_def)
  ultimately show ?thesis
    using d a cvi.union_of_others[OF assms] cvi.union_elems[OF r2] cvi.union_elems[OF assms(1)] by blast
qed

theorem count_vector_del_add_witness:
  "\<exists>cv1 cv2. DPS_CountVectorDel (Some (cv_add cv64 (bv64 3))) (Some (bv64 3)) = (DPS_OK, Some cv1) \<and>
    DPS_CountVectorAdd (Some cv1) (Some (bv64 3)) = (DPS_OK, Some cv2) \<and>
    counts cv2 = counts (cv_add cv64 (bv64 3))"
proof -
  have "int_rep 64 (cv_add cv64 (bv64 3)) {#bv_set (bv64 3)#}"
    using cvi.add_rep[OF cv64_rep, of "bv64 3"] by (simp add: CV_MAX_def)
  from count_vector_del_add[OF this, of "bv64 3"] show ?thesis by auto
qed

end
