(* ===== verification/Uuid.thy ===== *)
theory Uuid
  imports Bit_Vector
begin

text \<open>
  Universally unique identifiers (\<^verbatim>\<open>src/uuid.c\<close>): the printed form, the comparison, which is the
  order of the 128-bit numbers, the generator of pseudo-random numbers and the choice of a random
  smaller identifier. The random device is a parameter.
\<close>

section \<open>Data and operations\<close>

text \<open>\<open>val64[0]\<close> is the low and \<open>val64[1]\<close> the high half.\<close>

datatype DPS_UUID = UUID (val64_0: u64) (val64_1: u64)

record entropy =
  nonce :: "u64 \<times> u64"
  seeds :: "u32 \<times> u32 \<times> u32 \<times> u32"

definition uuid_val :: "DPS_UUID \<Rightarrow> u8 list" where
  "uuid_val u = chunk_bytes (val64_0 u) @ chunk_bytes (val64_1 u)"

definition hex :: "nat \<Rightarrow> u8" where
  "hex n = (if n < 10 then 48 + word_of_nat n else 87 + word_of_nat n)"

definition DPS_UUIDToString :: "DPS_UUID \<Rightarrow> u8 list" where
  "DPS_UUIDToString u =
     concat (map (\<lambda>i. (if i \<in> {6, 8, 10, 12} then [45] else []) @
                       [hex (unat (drop_bit 4 (uuid_val u ! (i - 1)))), hex (unat (uuid_val u ! (i - 1) AND 0xF))])
       (rev [1..<17]))"

text \<open>
  The initialization reads the random device until the first word of the nonce is not zero.
  \<open>reads\<close> are the attempts: \<open>None\<close> when the file cannot be opened, otherwise the entropy after the
  read and whether all of it was read. The result is \<open>None\<close> when the attempts do not end the loop.
\<close>

fun InitUUID :: "(entropy \<times> bool) option list \<Rightarrow> entropy \<Rightarrow> (DPS_Status \<times> entropy) option" where
  "InitUUID reads e =
     (if fst (nonce e) \<noteq> 0 then Some (DPS_OK, e)
      else (case reads of
              [] \<Rightarrow> None
            | None # _ \<Rightarrow> Some (DPS_ERR_READ, e)
            | Some (e', full) # rest \<Rightarrow> if full then InitUUID rest e' else Some (DPS_ERR_READ, e')))"

declare InitUUID.simps [simp del]

definition LEPRNG :: "u32 \<Rightarrow> u32" where
  "LEPRNG n = ucast ((ucast n * 279470273 :: u64) mod 4294967291)"

definition step_seeds :: "entropy \<Rightarrow> entropy" where
  "step_seeds e = (case seeds e of (s0, s1, s2, s3) \<Rightarrow> e\<lparr>seeds := (LEPRNG s1, LEPRNG s2, LEPRNG s3, LEPRNG s0)\<rparr>)"

text \<open>Two adjacent 32-bit seeds read as one little-endian 64-bit word\<close>

definition seed64 :: "u32 \<Rightarrow> u32 \<Rightarrow> u64" where
  "seed64 lo hi = push_bit 32 (ucast hi) OR ucast lo"

definition DPS_GenerateUUID :: "entropy \<Rightarrow> DPS_UUID \<times> entropy" where
  "DPS_GenerateUUID e =
     (let e' = step_seeds e in
      case seeds e' of (s0, s1, s2, s3) \<Rightarrow>
        (UUID (seed64 s0 s1 XOR fst (nonce e')) (seed64 s2 s3 XOR snd (nonce e')), e'))"

definition DPS_UUIDCompare :: "DPS_UUID \<Rightarrow> DPS_UUID \<Rightarrow> int" where
  "DPS_UUIDCompare a b =
     (let al = val64_0 a; ah = val64_1 a; bl = val64_0 b; bh = val64_1 b
      in if ah < bh then -1 else if ah > bh then 1 else if al < bl then -1 else if al > bl then 1 else 0)"

definition DPS_Rand64 :: "entropy \<Rightarrow> u64 \<times> entropy" where
  "DPS_Rand64 e =
     (let e' = step_seeds e in case seeds e' of (s0, s1, s2, s3) \<Rightarrow> (seed64 s0 s1, e'))"

definition DPS_RandUUIDLess :: "DPS_UUID \<Rightarrow> entropy \<Rightarrow> DPS_UUID \<times> entropy" where
  "DPS_RandUUIDLess uuidIn e =
     (case DPS_Rand64 e of
        (r, e') \<Rightarrow>
          (let l = val64_0 uuidIn - r;
               h = (if l \<ge> val64_0 uuidIn then val64_1 uuidIn - 1 else val64_1 uuidIn)
           in (UUID l h, e')))"

definition DPS_Rand :: "entropy \<Rightarrow> u32 \<times> entropy" where
  "DPS_Rand e = (case DPS_Rand64 e of (r, e') \<Rightarrow> (ucast r, e'))"

section \<open>Identifiers are ordered as 128-bit numbers\<close>

definition uuid_num :: "DPS_UUID \<Rightarrow> nat" where
  "uuid_num u = unat (val64_1 u) * 2 ^ 64 + unat (val64_0 u)"

lemma unat_u64_bound: "unat (w :: u64) < 2 ^ 64"
  by (rule order_less_le_trans[OF unsigned_less]) simp

lemma uuid_num_less_iff:
  "uuid_num a < uuid_num b \<longleftrightarrow> val64_1 a < val64_1 b \<or> (val64_1 a = val64_1 b \<and> val64_0 a < val64_0 b)"
proof -
  have pair: "ah * 2 ^ 64 + al < bh * 2 ^ 64 + (bl::nat) \<longleftrightarrow> ah < bh \<or> (ah = bh \<and> al < bl)"
    if "al < 2 ^ 64" "bl < 2 ^ 64" for ah al bh bl :: nat
    using that by (cases ah bh rule: linorder_cases) auto
  show ?thesis
    unfolding uuid_num_def pair[OF unat_u64_bound unat_u64_bound]
    by (simp add: word_less_nat_alt word_unat_eq_iff)
qed

lemma uuid_num_eq_iff: "uuid_num a = uuid_num b \<longleftrightarrow> a = b"
  using uuid_num_less_iff[of a b] uuid_num_less_iff[of b a]
  by (cases a; cases b) (auto simp: neq_iff)

instantiation DPS_UUID :: linorder
begin

definition less_DPS_UUID :: "DPS_UUID \<Rightarrow> DPS_UUID \<Rightarrow> bool" where
  "less_DPS_UUID a b \<longleftrightarrow> DPS_UUIDCompare a b < 0"

definition less_eq_DPS_UUID :: "DPS_UUID \<Rightarrow> DPS_UUID \<Rightarrow> bool" where
  "less_eq_DPS_UUID a b \<longleftrightarrow> DPS_UUIDCompare a b \<le> 0"

lemma compare_num:
  "DPS_UUIDCompare a b = (if uuid_num a < uuid_num b then -1 else if uuid_num b < uuid_num a then 1 else 0)"
  by (auto simp: DPS_UUIDCompare_def Let_def uuid_num_less_iff)

instance
proof
  fix a b c :: DPS_UUID
  show "(a < b) = (a \<le> b \<and> \<not> b \<le> a)" "a \<le> a" "a \<le> b \<or> b \<le> a"
    by (auto simp: less_DPS_UUID_def less_eq_DPS_UUID_def compare_num)
  show "a \<le> b \<Longrightarrow> b \<le> c \<Longrightarrow> a \<le> c"
    by (auto simp: less_eq_DPS_UUID_def compare_num split: if_splits)
  show "a \<le> b \<Longrightarrow> b \<le> a \<Longrightarrow> a = b"
    by (auto simp: less_eq_DPS_UUID_def compare_num uuid_num_eq_iff[symmetric] split: if_splits)
qed

end

lemma uuid_less_num: "a < b \<longleftrightarrow> uuid_num a < uuid_num b"
  by (simp add: less_DPS_UUID_def compare_num)

section \<open>The generator\<close>

definition leprng :: "nat \<Rightarrow> nat" where
  "leprng n = (n * 279470273) mod 4294967291"

lemma LEPRNG_unat: "unat (LEPRNG n) = leprng (unat n)"
proof -
  have n: "unat n < 2 ^ 32" by (rule order_less_le_trans[OF unsigned_less]) simp
  have p: "unat n * 279470273 < 2 ^ 64" using n by simp
  have u: "unat (ucast n :: u64) = unat n" using n by (simp add: unsigned_ucast_eq take_bit_nat_eq_self)
  have m: "unat (ucast n * 279470273 :: u64) = unat n * 279470273"
    using p u by (simp add: unat_word_ariths)
  have q: "unat ((ucast n * 279470273 :: u64) mod 4294967291) = leprng (unat n)"
    unfolding unat_mod m leprng_def by simp
  have "leprng (unat n) < 2 ^ 32"
    unfolding leprng_def by (rule order_less_le_trans[OF mod_less_divisor]) auto
  then show ?thesis unfolding LEPRNG_def using q by (simp add: unsigned_ucast_eq take_bit_nat_eq_self)
qed

lemma leprng_inverse: "n < 4294967291 \<Longrightarrow> (leprng n * 1815976680) mod 4294967291 = n"
proof -
  assume n: "n < 4294967291"
  have "(leprng n * 1815976680) mod 4294967291 = (n * (279470273 * 1815976680)) mod 4294967291"
    unfolding leprng_def by (simp add: mod_mult_left_eq mult.assoc)
  also have "\<dots> = (n * ((279470273 * 1815976680) mod 4294967291)) mod 4294967291"
    by (rule mod_mult_right_eq[symmetric])
  also have "(279470273 * 1815976680) mod 4294967291 = (1 :: nat)" by simp
  finally show ?thesis using n by simp
qed

section \<open>Properties\<close>

text \<open>\<open>DPS_UUIDCompare\<close> compares the identifiers as unsigned 128-bit numbers, and is zero only
  for equal identifiers.\<close>

theorem uuid_compare_numeric:
  "DPS_UUIDCompare a b = sgn (int (uuid_num a) - int (uuid_num b)) \<and> (DPS_UUIDCompare a b = 0 \<longleftrightarrow> a = b)"
  by (auto simp: compare_num uuid_num_eq_iff[symmetric])

lemma rand_uuid_less_iff:
  "fst (DPS_RandUUIDLess u e) < u \<longleftrightarrow>
     val64_1 u \<noteq> 0 \<or> (fst (DPS_Rand64 e) \<noteq> 0 \<and> fst (DPS_Rand64 e) \<le> val64_0 u)"
proof -
  obtain r e' where r: "DPS_Rand64 e = (r, e')" by fastforce
  define l h where "l = val64_0 u" and "h = val64_1 u"
  have lr: "l - r \<ge> l \<longleftrightarrow> r = 0 \<or> l < r"
  proof (cases "r \<le> l")
    case True
    then have "unat (l - r) = unat l - unat r" "unat r \<le> unat l" by (simp_all add: unat_sub word_le_nat_alt)
    then show ?thesis using True by (auto simp: word_le_nat_alt word_less_nat_alt word_unat_eq_iff)
  next
    case False
    then have "l \<le> l - r" by (metis diff_add_cancel linorder_linear no_olen_add nless_le word_sub_le_iff)
    then show ?thesis using False by auto
  qed
  have hh: "h - 1 < h \<longleftrightarrow> h \<noteq> 0" by (cases "h = 0") (auto simp: word_less_nat_alt unat_minus_one unat_gt_0)
  have h1: "h - 1 \<noteq> h" by simp
  have out: "fst (DPS_RandUUIDLess u e) = UUID (l - r) (if l - r \<ge> l then h - 1 else h)"
    by (simp add: DPS_RandUUIDLess_def r l_def h_def Let_def)
  have "fst (DPS_RandUUIDLess u e) < u \<longleftrightarrow> (if r = 0 \<or> l < r then h \<noteq> 0 else True)"
    unfolding out uuid_less_num uuid_num_less_iff using lr hh h1 by (auto simp: l_def[symmetric] h_def[symmetric])
  then show ?thesis unfolding r fst_conv l_def[symmetric] h_def[symmetric]
    by (auto simp: not_le)
qed

lemma rand_uuid_neq: "fst (DPS_RandUUIDLess u e) \<noteq> u"
  by (cases u) (auto simp: DPS_RandUUIDLess_def Let_def split: prod.splits)

text \<open>The identifier made by \<open>DPS_RandUUIDLess\<close> is smaller than its input unless the high half of
  the input is zero and the random number is zero or above the low half: then the subtraction wraps
  and the result is larger.\<close>

theorem rand_uuid_less:
  "if val64_1 u = 0 \<and> (fst (DPS_Rand64 e) = 0 \<or> val64_0 u < fst (DPS_Rand64 e))
   then u < fst (DPS_RandUUIDLess u e) else fst (DPS_RandUUIDLess u e) < u"
  using rand_uuid_less_iff[of u e] rand_uuid_neq[of u e] by (auto simp: not_le)

text \<open>A seed between 1 and 4294967290 stays in this range for ever, and different seeds stay
  different: the generator is a permutation of the range.\<close>

theorem leprng_permutes:
  assumes "0 < unat n" "unat n < 4294967291" "unat m < 4294967291"
  shows "0 < unat (LEPRNG n) \<and> unat (LEPRNG n) < 4294967291 \<and> (LEPRNG n = LEPRNG m \<longleftrightarrow> n = m)"
proof -
  have "leprng (unat n) \<noteq> 0" using leprng_inverse[OF assms(2)] assms(1) by (metis mod_0 mult_0 not_less_zero)
  moreover have "leprng (unat n) < 4294967291" by (simp add: leprng_def)
  moreover have "unat n = unat m" if "leprng (unat n) = leprng (unat m)"
    using trans[OF leprng_inverse[OF assms(2), unfolded that, symmetric] leprng_inverse[OF assms(3)]] .
  moreover have "LEPRNG n = LEPRNG m \<longleftrightarrow> leprng (unat n) = leprng (unat m)"
    by (simp only: word_unat_eq_iff LEPRNG_unat)
  moreover have "n = m \<longleftrightarrow> unat n = unat m" by (rule word_unat_eq_iff)
  ultimately show ?thesis unfolding LEPRNG_unat by auto
qed

theorem leprng_permutes_witness: "0 < unat (LEPRNG 1) \<and> unat (LEPRNG 1) < 4294967291"
  using leprng_permutes[of 1 1] by simp

lemma hex_inj: "m < 16 \<Longrightarrow> n < 16 \<Longrightarrow> hex m = hex n \<Longrightarrow> m = n"
proof -
  assume b: "m < 16" "n < 16" and e: "hex m = hex n"
  have v: "unat (hex k) = (if k < 10 then 48 + k else 87 + k)" if "k < 16" for k
  proof -
    have k: "unat (word_of_nat k :: u8) = k" using that by (simp add: unsigned_of_nat take_bit_nat_eq_self)
    then have "unat (48 + word_of_nat k :: u8) = 48 + k" "unat (87 + word_of_nat k :: u8) = 87 + k"
      using that by (simp_all add: unat_word_ariths)
    then show ?thesis by (simp add: hex_def)
  qed
  show ?thesis using arg_cong[OF e, of unat] b by (auto simp: v split: if_splits)
qed

lemma nibbles_inj:
  fixes a b :: u8
  assumes "drop_bit 4 a = drop_bit 4 b" "a AND 0xF = b AND 0xF"
  shows "a = b"
proof (rule bit_word_eqI)
  fix k assume "k < LENGTH(8)"
  have m: "(0xF :: u8) = mask 4" by (simp add: mask_eq_exp_minus_1)
  show "bit a k = bit b k"
  proof (cases "k < 4")
    case True
    have "bit (a AND 0xF) k = bit (b AND 0xF) k" using assms(2) by simp
    then show ?thesis using True unfolding m bit_and_iff bit_mask_iff by simp
  next
    case False
    have "bit (drop_bit 4 a) (k - 4) = bit (drop_bit 4 b) (k - 4)" using assms(1) by simp
    then show ?thesis using False by (simp add: bit_drop_bit_eq)
  qed
qed

lemma unat_nibble: "unat (drop_bit 4 (b::u8)) < 16" "unat (b AND 0xF :: u8) < 16"
proof -
  have b: "unat b < 256" by (rule order_less_le_trans[OF unsigned_less]) simp
  then show "unat (drop_bit 4 b) < 16" unfolding unat_drop_bit_eq drop_bit_nat_def by (simp add: div_less_iff_less_mult)
  have "(0xF :: u8) = mask 4" by (simp add: mask_eq_exp_minus_1)
  then have "take_bit 4 (b AND 0xF) = b AND 0xF" by (simp add: take_bit_eq_mask and.assoc)
  then show "unat (b AND 0xF :: u8) < 16" using word_take_bit_eq_self_iff[of 4 "b AND 0xF"] by simp
qed

lemma chunk_bytes_inj: "chunk_bytes a = chunk_bytes b \<Longrightarrow> a = b"
  using chunk_bytes_inverse[of a "[]"] chunk_bytes_inverse[of b "[]"] by simp

lemma uuid_val_inj: "uuid_val u = uuid_val v \<Longrightarrow> u = v"
proof -
  assume "uuid_val u = uuid_val v"
  moreover have "length (chunk_bytes c) = 8" for c by (simp add: chunk_bytes_def)
  ultimately have "chunk_bytes (val64_0 u) = chunk_bytes (val64_0 v) \<and> chunk_bytes (val64_1 u) = chunk_bytes (val64_1 v)"
    unfolding uuid_val_def by (metis append_eq_append_conv)
  then show "u = v" by (auto intro!: DPS_UUID.expand dest!: chunk_bytes_inj)
qed

text \<open>The printed form of an identifier has 36 characters and determines the identifier.\<close>

theorem uuid_string_injective:
  "length (DPS_UUIDToString u) = 36 \<and> (DPS_UUIDToString u = DPS_UUIDToString v \<longleftrightarrow> u = v)"
proof
  show "length (DPS_UUIDToString u) = 36"
    by (simp add: DPS_UUIDToString_def upt_rec)
  let ?piece = "\<lambda>u i. (if i \<in> {6, 8, 10, 12} then [45] else []) @
                       [hex (unat (drop_bit 4 (uuid_val u ! (i - 1)))), hex (unat (uuid_val u ! (i - 1) AND 0xF))]"
  show "DPS_UUIDToString u = DPS_UUIDToString v \<longleftrightarrow> u = v"
  proof
    assume "DPS_UUIDToString u = DPS_UUIDToString v"
    then have "map (?piece u) (rev [1..<17]) = map (?piece v) (rev [1..<17])"
      unfolding DPS_UUIDToString_def
      by (rule concat_injective) (auto simp: zip_map1 zip_map2 zip_same_conv_map simp del: upt_Suc)
    then have p: "?piece u i = ?piece v i" if "i \<in> set (rev [1..<17])" for i
      using that by (metis (no_types, lifting) map_eq_conv)
    have "uuid_val u ! k = uuid_val v ! k" if "k < 16" for k
    proof -
      have e: "?piece u (k + 1) = ?piece v (k + 1)" by (rule p) (use that in simp)
      have "hex (unat (drop_bit 4 (uuid_val u ! k))) = hex (unat (drop_bit 4 (uuid_val v ! k)))"
        "hex (unat (uuid_val u ! k AND 0xF)) = hex (unat (uuid_val v ! k AND 0xF))"
        using e unfolding same_append_eq add_diff_cancel_right' list.inject by blast+
      then have "unat (drop_bit 4 (uuid_val u ! k)) = unat (drop_bit 4 (uuid_val v ! k))"
        "unat (uuid_val u ! k AND 0xF) = unat (uuid_val v ! k AND 0xF)"
        using hex_inj[OF unat_nibble(1) unat_nibble(1)] hex_inj[OF unat_nibble(2) unat_nibble(2)] by blast+
      then show ?thesis
        unfolding word_unat_eq_iff[symmetric] by (rule nibbles_inj)
    qed
    moreover have "length (uuid_val w) = 16" for w by (simp add: uuid_val_def chunk_bytes_def)
    ultimately have "uuid_val u = uuid_val v" by (intro nth_equalityI) auto
    then show "u = v" by (rule uuid_val_inj)
  qed simp
qed

end
