(* ===== verification/Net_Address.thy ===== *)
theory Net_Address
  imports DPS_Prelude
begin

text \<open>
  Node addresses (\<^verbatim>\<open>src/network.c\<close>): their comparison, which identifies an IPv4 address
  with its IPv4-mapped IPv6 form, the parser of address texts, and the updates of the address of an
  endpoint. The resolver behind \<open>GetScope\<close> is outside the sources and is not modelled.
\<close>

section \<open>Addresses\<close>

datatype DPS_NodeAddressType = DPS_UNKNOWN | DPS_DTLS | DPS_TCP | DPS_UDP | DPS_PIPE

text \<open>
  The part of a socket address that the code looks at. Ports and IPv4 addresses are kept as the
  numbers that the fields hold, in network byte order; an IPv6 address is its sixteen bytes. A storage
  of no family is read as an IPv4 address by the code; it has the two fields at the same places.
\<close>

datatype sockaddr =
    AF_INET (sin_port: u16) (s_addr: u32)
  | AF_INET6 (sin6_port: u16) (sin6_addr: "u8 list")
  | AF_UNSPEC (any_port: u16) (any_addr: u32)

text \<open>The two members of the union are two fields; \<open>a_type\<close> says which of them is in use.\<close>

record DPS_NodeAddress =
  a_type :: DPS_NodeAddressType
  inaddr :: sockaddr
  path :: "u8 list"

text \<open>The connection of an endpoint only counts as present or not.\<close>

record DPS_NetEndpoint =
  addr :: DPS_NodeAddress
  cn :: bool

definition DPS_NODE_ADDRESS_PATH_MAX :: nat where "DPS_NODE_ADDRESS_PATH_MAX = 108"
definition DPS_MAX_HOST_LEN :: nat where "DPS_MAX_HOST_LEN = 256"
definition DPS_MAX_SERVICE_LEN :: nat where "DPS_MAX_SERVICE_LEN = 16"

text \<open>The bytes of a 32-bit number in memory, least significant first.\<close>

definition u32_bytes :: "u32 \<Rightarrow> u8 list" where
  "u32_bytes w = map (\<lambda>i. ucast (drop_bit (8 * i) w)) [0..<4]"

definition htons :: "u16 \<Rightarrow> u16" where
  "htons w = push_bit 8 w OR drop_bit 8 w"

definition DPS_NetAddrPort :: "sockaddr \<Rightarrow> u16" where
  "DPS_NetAddrPort sa =
     (case sa of AF_INET6 p _ \<Rightarrow> htons p | AF_INET p _ \<Rightarrow> htons p | AF_UNSPEC p _ \<Rightarrow> htons p)"

definition DPS_NetSetAddr :: "DPS_NodeAddressType \<Rightarrow> sockaddr option \<Rightarrow> DPS_NodeAddress" where
  "DPS_NetSetAddr type sa =
     \<lparr>a_type = type,
      inaddr = (case sa of Some (AF_INET p a) \<Rightarrow> AF_INET p a | Some (AF_INET6 p a) \<Rightarrow> AF_INET6 p a | _ \<Rightarrow> AF_UNSPEC 0 0),
      path = []\<rparr>"

section \<open>Comparison\<close>

definition IP4as6 :: "u8 list" where
  "IP4as6 = [0, 0, 0, 0, 0, 0, 0, 0, 0, 0, 0xFF, 0xFF, 0, 0, 0, 0]"

text \<open>Only the sign of the result of \<open>memcmp\<close> and \<open>strcmp\<close> is specified; strings are compared with
  their terminating zero.\<close>

fun memcmp :: "u8 list \<Rightarrow> u8 list \<Rightarrow> int" where
  "memcmp (x # xs) (y # ys) = (if x < y then -1 else if x > y then 1 else memcmp xs ys)"
| "memcmp _ _ = 0"

definition strcmp :: "u8 list \<Rightarrow> u8 list \<Rightarrow> int" where
  "strcmp a b = memcmp (a @ [0]) (b @ [0])"

text \<open>The IPv6 form of an IPv4 address\<close>

definition v4_mapped :: "u16 \<Rightarrow> u32 \<Rightarrow> sockaddr" where
  "v4_mapped port ip = AF_INET6 port (take 12 IP4as6 @ u32_bytes ip)"

text \<open>
  Both addresses are brought to the same family first. The comparison of different address types is
  excluded by an assertion; the value is that of a build without assertions.
\<close>

fun type_num :: "DPS_NodeAddressType \<Rightarrow> nat" where
  "type_num DPS_UNKNOWN = 0"
| "type_num DPS_DTLS = 1"
| "type_num DPS_TCP = 2"
| "type_num DPS_UDP = 3"
| "type_num DPS_PIPE = 4"

fun same_family :: "sockaddr \<Rightarrow> sockaddr \<Rightarrow> sockaddr \<times> sockaddr" where
  "same_family (AF_INET6 p a) (AF_INET q b) = (AF_INET6 p a, v4_mapped q b)"
| "same_family (AF_INET6 p a) (AF_UNSPEC q b) = (AF_INET6 p a, v4_mapped q b)"
| "same_family (AF_INET p a) (AF_INET6 q b) = (v4_mapped p a, AF_INET6 q b)"
| "same_family (AF_INET p a) (AF_UNSPEC q b) = (v4_mapped p a, AF_UNSPEC q b)"
| "same_family (AF_UNSPEC p a) (AF_INET6 q b) = (v4_mapped p a, AF_INET6 q b)"
| "same_family (AF_UNSPEC p a) (AF_INET q b) = (v4_mapped p a, AF_INET q b)"
| "same_family x y = (x, y)"

definition DPS_CmpAddr :: "DPS_NodeAddress \<Rightarrow> DPS_NodeAddress \<Rightarrow> int" where
  "DPS_CmpAddr addr1 addr2 =
     (if a_type addr1 \<noteq> a_type addr2
      then (if type_num (a_type addr1) < type_num (a_type addr2) then -1 else 1)
      else if a_type addr1 \<in> {DPS_DTLS, DPS_TCP, DPS_UDP} then
        (case same_family (inaddr addr1) (inaddr addr2) of
           (AF_INET6 p a, AF_INET6 q b) \<Rightarrow> if p = q then memcmp a b else if p < q then -1 else 1
         | (AF_INET p a, AF_INET q b) \<Rightarrow>
             if p = q then (if a = b then 0 else if a < b then -1 else 1) else if p < q then -1 else 1
         | _ \<Rightarrow> -1)
      else if a_type addr1 = DPS_PIPE then strcmp (path addr1) (path addr2)
      else -1)"

definition DPS_SameAddr :: "DPS_NodeAddress \<Rightarrow> DPS_NodeAddress \<Rightarrow> bool" where
  "DPS_SameAddr addr1 addr2 \<longleftrightarrow> DPS_CmpAddr addr1 addr2 = 0"

section \<open>Address texts\<close>

datatype host_state = BEGIN | IPV4_BEGIN | IPV6_BEGIN | IPV6_END | END

text \<open>
  The loop over the host part: \<open>src\<close> is what is left of the text, \<open>dst\<close> what has been stored.
  The result is the host and what follows it, or the error.
\<close>

function split_host :: "nat \<Rightarrow> host_state \<Rightarrow> u8 list \<Rightarrow> u8 list \<Rightarrow> (u8 list \<times> u8 list) res" where
  "split_host hostLen st [] dst = Inr (dst, [])"
| "split_host hostLen st (c # src) dst =
     (if length dst \<ge> hostLen then Inr (dst, c # src)
      else
        (case st of
           BEGIN \<Rightarrow>
             if c = 91 then split_host hostLen IPV6_BEGIN src dst
             else split_host hostLen IPV4_BEGIN (c # src) dst
         | IPV6_BEGIN \<Rightarrow>
             if c = 93 then split_host hostLen IPV6_END src dst
             else split_host hostLen IPV6_BEGIN src (dst @ [c])
         | IPV6_END \<Rightarrow>
             if c = 58 then split_host hostLen END src dst else Inl DPS_ERR_INVALID
         | IPV4_BEGIN \<Rightarrow>
             if c = 58 then split_host hostLen END src dst
             else split_host hostLen IPV4_BEGIN src (dst @ [c])
         | END \<Rightarrow> Inr (dst, c # src)))"
  by pat_completeness auto

termination
  by (relation "measure (\<lambda>(hostLen, st, src, dst). 2 * length src + (if st = BEGIN then 1 else 0))") auto

fun split_service :: "nat \<Rightarrow> u8 list \<Rightarrow> u8 list \<Rightarrow> u8 list" where
  "split_service serviceLen [] dst = dst"
| "split_service serviceLen (c # src) dst =
     (if length dst < serviceLen then split_service serviceLen src (dst @ [c]) else dst)"

text \<open>The sizes are those of the two buffers, which are given; a text is without its terminating
  zero.\<close>

definition DPS_SplitAddress :: "u8 list \<Rightarrow> nat \<Rightarrow> nat \<Rightarrow> (u8 list \<times> u8 list) res" where
  "DPS_SplitAddress addrText hostLen serviceLen =
     (if hostLen = 0 \<or> serviceLen = 0 then Inl DPS_ERR_ARGS
      else
        (case split_host hostLen BEGIN addrText [] of
           Inl e \<Rightarrow> Inl e
         | Inr (host, src) \<Rightarrow>
             if length host = hostLen then Inl DPS_ERR_OVERFLOW
             else
               (let service = split_service serviceLen src [] in
                if length service = serviceLen then Inl DPS_ERR_OVERFLOW else Inr (host, service))))"

section \<open>Endpoints\<close>

definition set_port :: "u16 \<Rightarrow> sockaddr \<Rightarrow> sockaddr" where
  "set_port port sa =
     (case sa of AF_INET6 _ a \<Rightarrow> AF_INET6 port a | AF_INET _ a \<Rightarrow> AF_INET port a | AF_UNSPEC _ a \<Rightarrow> AF_UNSPEC port a)"

text \<open>
  \<open>transport\<close> is the transport the library is built for. The result is \<open>None\<close> when the assertion
  that the endpoint has a connection fails.
\<close>

definition DPS_EndpointSetPort ::
  "DPS_NodeAddressType \<Rightarrow> DPS_NetEndpoint \<Rightarrow> u16 \<Rightarrow> DPS_NetEndpoint option" where
  "DPS_EndpointSetPort transport ep port =
     (if a_type (addr ep) \<in> {DPS_UDP, DPS_DTLS, DPS_TCP} then
        (let type = (if a_type (addr ep) = DPS_UDP \<and> transport \<in> {DPS_DTLS, DPS_TCP}
                     then transport else a_type (addr ep));
             sa = (if cn ep then inaddr (addr ep) else set_port (htons port) (inaddr (addr ep)))
         in Some (ep\<lparr>addr := (addr ep)\<lparr>a_type := type, inaddr := sa\<rparr>\<rparr>))
      else if cn ep then Some ep else None)"

text \<open>The path is followed by a zero, so what is stored ends at the first zero. \<open>None\<close> is the
  failing assertion that bounds the length.\<close>

definition DPS_EndpointSetPath :: "DPS_NetEndpoint \<Rightarrow> u8 list \<Rightarrow> DPS_NetEndpoint option" where
  "DPS_EndpointSetPath ep p =
     (if a_type (addr ep) \<in> {DPS_UDP, DPS_PIPE} then
        (if length p < DPS_NODE_ADDRESS_PATH_MAX
         then Some (ep\<lparr>addr := (addr ep)\<lparr>a_type := DPS_PIPE, path := takeWhile (\<lambda>c. c \<noteq> 0) p\<rparr>\<rparr>)
         else None)
      else Some ep)"

section \<open>Same address is an equivalence\<close>

lemma memcmp_0: "length a = length b \<Longrightarrow> memcmp a b = 0 \<longleftrightarrow> a = b"
  by (induction a b rule: memcmp.induct) auto

lemma strcmp_0: "0 \<notin> set a \<Longrightarrow> 0 \<notin> set b \<Longrightarrow> strcmp a b = 0 \<longleftrightarrow> a = b"
  unfolding strcmp_def
proof (induction a arbitrary: b)
  case Nil
  then show ?case by (cases b) (auto simp: word_neq_0_conv)
next
  case (Cons x a)
  then show ?case by (cases b) (auto simp: word_neq_0_conv)
qed

lemma u32_bytes_inj: "u32_bytes a = u32_bytes b \<longleftrightarrow> a = b"
proof
  assume "u32_bytes a = u32_bytes b"
  then have b: "(ucast (drop_bit (8 * i) a) :: u8) = ucast (drop_bit (8 * i) b)" if "i < 4" for i
    using that unfolding u32_bytes_def by (auto simp: list_eq_iff_nth_eq)
  show "a = b"
  proof (rule bit_word_eqI)
    fix n assume "n < LENGTH(32)"
    then have n: "n div 8 < 4" "n mod 8 < 8" by auto
    have "bit (ucast (drop_bit (8 * (n div 8)) a) :: u8) (n mod 8) = bit (ucast (drop_bit (8 * (n div 8)) b) :: u8) (n mod 8)"
      using b[OF n(1)] by simp
    then show "bit a n = bit b n" using n by (simp add: bit_ucast_iff bit_drop_bit_eq)
  qed
qed simp

text \<open>The form in which addresses are compared\<close>

definition canon :: "DPS_NodeAddress \<Rightarrow> DPS_NodeAddressType \<times> sockaddr \<times> u8 list" where
  "canon a = (a_type a,
     (if a_type a = DPS_PIPE then AF_UNSPEC 0 0
      else case inaddr a of AF_INET p ip \<Rightarrow> v4_mapped p ip | sa \<Rightarrow> sa),
     (if a_type a = DPS_PIPE then path a else []))"

text \<open>An address that a transport can produce: an IP address, or a path.\<close>

definition addr_ok :: "DPS_NodeAddress \<Rightarrow> bool" where
  "addr_ok a \<longleftrightarrow> (case a_type a of
     DPS_UNKNOWN \<Rightarrow> False
   | DPS_PIPE \<Rightarrow> 0 \<notin> set (path a)
   | _ \<Rightarrow> (case inaddr a of AF_INET _ _ \<Rightarrow> True | AF_INET6 _ b \<Rightarrow> length b = 16 | AF_UNSPEC _ _ \<Rightarrow> False))"

lemma SameAddr_canon:
  assumes "addr_ok a" "addr_ok b"
  shows "DPS_SameAddr a b \<longleftrightarrow> canon a = canon b"
proof -
  have m: "length (take 12 IP4as6 @ u32_bytes ip) = 16" for ip by (simp add: IP4as6_def u32_bytes_def)
  have c: "memcmp (take 12 IP4as6 @ u32_bytes ip) x = 0 \<longleftrightarrow> take 12 IP4as6 @ u32_bytes ip = x"
    "memcmp x (take 12 IP4as6 @ u32_bytes ip) = 0 \<longleftrightarrow> take 12 IP4as6 @ u32_bytes ip = x"
    if "length x = 16" for x ip using memcmp_0[OF trans[OF m that[symmetric]], of ip] memcmp_0[OF trans[OF that m[symmetric]], of ip] by auto
  show ?thesis
  proof (cases "a_type a = a_type b \<and> a_type a \<noteq> DPS_PIPE")
    case True
    then show ?thesis
      using assms
      by (cases "inaddr a"; cases "inaddr b"; cases "a_type a")
        (auto simp: DPS_SameAddr_def DPS_CmpAddr_def canon_def addr_ok_def v4_mapped_def u32_bytes_inj memcmp_0 c)
  next
    case False
    then show ?thesis using assms
      by (cases "a_type a"; cases "a_type b") (auto simp: DPS_SameAddr_def DPS_CmpAddr_def canon_def addr_ok_def strcmp_0)
  qed
qed

text \<open>C38: On addresses of a known kind \<open>DPS_SameAddr\<close> is an equivalence relation, which equates an
  IPv4 address with its IPv4-mapped IPv6 form: two addresses are the same exactly when their
  canonical forms are equal.\<close>

theorem same_addr_equivalence:
  assumes "addr_ok a" "addr_ok b" "addr_ok c"
  shows "(DPS_SameAddr a b \<longleftrightarrow> canon a = canon b) \<and> DPS_SameAddr a a \<and>
    (DPS_SameAddr a b \<longrightarrow> DPS_SameAddr b a) \<and>
    (DPS_SameAddr a b \<longrightarrow> DPS_SameAddr b c \<longrightarrow> DPS_SameAddr a c)"
  using assms by (simp add: SameAddr_canon)

theorem same_addr_equivalence_witness:
  defines "x \<equiv> \<lparr>a_type = DPS_UDP, inaddr = AF_INET 7 0x0100007F, path = []\<rparr>"
    and "y \<equiv> \<lparr>a_type = DPS_UDP, inaddr = AF_INET6 7 [0, 0, 0, 0, 0, 0, 0, 0, 0, 0, 0xFF, 0xFF, 127, 0, 0, 1], path = []\<rparr>"
  shows "DPS_SameAddr x y \<and> DPS_SameAddr y x"
proof -
  have "addr_ok x" "addr_ok y" by (simp_all add: x_def y_def addr_ok_def)
  moreover have "canon x = canon y" unfolding x_def y_def by code_simp
  ultimately show ?thesis using same_addr_equivalence[of x y x] by blast
qed

section \<open>Splitting an address text\<close>

lemma split_host_v6:
  "93 \<notin> set host \<Longrightarrow> length dst < hostLen \<Longrightarrow>
   if length dst + length host < hostLen
   then split_host hostLen IPV6_BEGIN (host @ 93 # 58 # service) dst = Inr (dst @ host, service)
   else \<exists>d r. split_host hostLen IPV6_BEGIN (host @ 93 # 58 # service) dst = Inr (d, r) \<and> length d = hostLen"
proof (induction host arbitrary: dst)
  case Nil
  then show ?case by (cases service) auto
next
  case (Cons c host)
  show ?case
  proof (cases "length dst + 1 < hostLen")
    case True
    then show ?thesis using Cons.IH[of "dst @ [c]"] Cons.prems by auto
  next
    case False
    then have "split_host hostLen IPV6_BEGIN (host @ 93 # 58 # service) (dst @ [c]) = Inr (dst @ [c], host @ 93 # 58 # service)"
      by (cases host) auto
    then show ?thesis using False Cons.prems by auto
  qed
qed

lemma split_host_v4:
  "58 \<notin> set host \<Longrightarrow> length dst < hostLen \<Longrightarrow>
   if length dst + length host < hostLen
   then split_host hostLen IPV4_BEGIN (host @ 58 # service) dst = Inr (dst @ host, service)
   else \<exists>d r. split_host hostLen IPV4_BEGIN (host @ 58 # service) dst = Inr (d, r) \<and> length d = hostLen"
proof (induction host arbitrary: dst)
  case Nil
  then show ?case by (cases service) auto
next
  case (Cons c host)
  show ?case
  proof (cases "length dst + 1 < hostLen")
    case True
    then show ?thesis using Cons.IH[of "dst @ [c]"] Cons.prems by auto
  next
    case False
    then have "split_host hostLen IPV4_BEGIN (host @ 58 # service) (dst @ [c]) = Inr (dst @ [c], host @ 58 # service)"
      by (cases host) auto
    then show ?thesis using False Cons.prems by auto
  qed
qed

lemma split_service_take: "length dst \<le> n \<Longrightarrow> split_service n src dst = dst @ take (n - length dst) src"
  by (induction n src dst rule: split_service.induct) (auto simp: take_Cons')

text \<open>An address text of the form \<open>host:service\<close> or \<open>[host]:service\<close> is split into its two parts;
  a host or service that does not fit its buffer with the terminating zero is reported as an overflow.
  A colon may be part of a host in brackets.\<close>

theorem split_address_parts:
  assumes "if bracket then 93 \<notin> set host else 58 \<notin> set host \<and> (host = [] \<or> hd host \<noteq> 91)"
    and "0 < hostLen" "0 < serviceLen"
  shows "DPS_SplitAddress ((if bracket then 91 # host @ [93] else host) @ 58 # service) hostLen serviceLen =
    (if length host < hostLen \<and> length service < serviceLen then Inr (host, service) else Inl DPS_ERR_OVERFLOW)"
proof -
  let ?t = "(if bracket then 91 # host @ [93] else host) @ 58 # service"
  have "if length host < hostLen then split_host hostLen BEGIN ?t [] = Inr (host, service)
    else \<exists>d r. split_host hostLen BEGIN ?t [] = Inr (d, r) \<and> length d = hostLen"
  proof (cases bracket)
    case True
    then show ?thesis using split_host_v6[of host "[]" hostLen service] assms by auto
  next
    case False
    then have "split_host hostLen BEGIN ?t [] = split_host hostLen IPV4_BEGIN ?t []" using assms by (cases host) auto
    then show ?thesis using split_host_v4[of host "[]" hostLen service] False assms by auto
  qed
  then show ?thesis using assms(2,3)
    by (auto simp: DPS_SplitAddress_def Let_def split_service_take split: if_splits)
qed

theorem split_address_parts_witness:
  "DPS_SplitAddress ([91] @ [58, 58, 49] @ [93] @ [58] @ [56, 48]) (DPS_MAX_HOST_LEN + 1) (DPS_MAX_SERVICE_LEN + 1) =
   Inr ([58, 58, 49], [56, 48])"
  using split_address_parts[of True "[58, 58, 49]" "DPS_MAX_HOST_LEN + 1" "DPS_MAX_SERVICE_LEN + 1" "[56, 48]"]
  by (simp add: DPS_MAX_HOST_LEN_def DPS_MAX_SERVICE_LEN_def)

end
