(* ===== verification/Pub_History.thy ===== *)
theory Pub_History
  imports Uuid Net_Address "HOL-Library.Tree"
begin

text \<open>
  The record of the publications a node has seen (\<^verbatim>\<open>src/history.c\<close>). Each record is
  linked twice, into a binary search tree by identifier and into a list sorted by expiration. Here a
  record is named by its identifier, which is unique in the history: the tree and the list hold
  identifiers, and \<open>recs\<close> holds the records that are allocated. An access to a record that is not
  allocated, or through a null pointer, makes an operation return \<open>None\<close>; the invariant excludes it.
  The parent pointers are the positions in the tree.
\<close>

section \<open>Records (src/history.h)\<close>

record DPS_NodeAddressList =
  na_sn :: u32
  na_hopCount :: u16
  na_addr :: DPS_NodeAddress

record DPS_PubHistory =
  sn :: u32
  ackRequested :: bool
  addrs :: "DPS_NodeAddressList list"
  expiration :: u64

text \<open>\<open>order\<close> is the list from \<open>soonest\<close> to \<open>latest\<close>.\<close>

record DPS_History =
  root :: "DPS_UUID tree"
  order :: "DPS_UUID list"
  count :: u32
  recs :: "DPS_UUID \<rightharpoonup> DPS_PubHistory"

definition HISTORY_THRESHOLD :: u32 where "HISTORY_THRESHOLD = 10"

definition DPS_SECS_TO_MS :: "u64 \<Rightarrow> u64" where "DPS_SECS_TO_MS t = t * 1000"

definition PUB_HISTORY_LIFETIME :: u64 where "PUB_HISTORY_LIFETIME = DPS_SECS_TO_MS 10"

section \<open>The tree\<close>

fun Find :: "DPS_UUID tree \<Rightarrow> DPS_UUID \<Rightarrow> DPS_UUID option" where
  "Find Leaf pubId = None"
| "Find (Node l cur r) pubId =
     (let cmp = DPS_UUIDCompare pubId cur in
      if cmp = 0 then Some cur else if cmp < 0 then Find l pubId else Find r pubId)"

text \<open>The flag says whether the record was added; else a record with its identifier exists.\<close>

fun Insert :: "DPS_UUID tree \<Rightarrow> DPS_UUID \<Rightarrow> bool \<times> DPS_UUID tree" where
  "Insert Leaf add = (True, Node Leaf add Leaf)"
| "Insert (Node l cur r) add =
     (let cmp = DPS_UUIDCompare add cur in
      if cmp = 0 then (False, Node l cur r)
      else if cmp < 0 then (case Insert l add of (new, l') \<Rightarrow> (new, Node l' cur r))
      else (case Insert r add of (new, r') \<Rightarrow> (new, Node l cur r')))"

fun rightmost :: "DPS_UUID tree \<Rightarrow> DPS_UUID \<Rightarrow> DPS_UUID" where
  "rightmost Leaf x = x"
| "rightmost (Node l x r) y = rightmost r x"

fun leftmost :: "DPS_UUID tree \<Rightarrow> DPS_UUID \<Rightarrow> DPS_UUID" where
  "leftmost Leaf x = x"
| "leftmost (Node l x r) y = leftmost l x"

text \<open>
  The tree without the record \<open>ph\<close>: the search finds the place of the record, where the code
  starts from its pointer. A record with two children is replaced by its neighbour in the order, on
  the side that a bit of its identifier selects.
\<close>

fun Remove :: "DPS_UUID tree \<Rightarrow> DPS_UUID \<Rightarrow> DPS_UUID tree" where
  "Remove Leaf ph = Leaf"
| "Remove (Node l cur r) ph =
     (if ph < cur then Node (Remove l ph) cur r
      else if ph > cur then Node l cur (Remove r ph)
      else if l \<noteq> Leaf \<and> r \<noteq> Leaf then
        (if uuid_val ph ! 15 AND 1 \<noteq> 0
         then (let repl = rightmost l ph in Node (Remove l repl) repl r)
         else (let repl = leftmost r ph in Node l repl (Remove r repl)))
      else if l \<noteq> Leaf then l else r)"

section \<open>The list by expiration\<close>

definition exp_of :: "DPS_History \<Rightarrow> DPS_UUID \<Rightarrow> u64 option" where
  "exp_of h ph = map_option expiration (recs h ph)"

text \<open>The search works back from \<open>latest\<close>: the list is reversed.\<close>

fun link_back :: "DPS_History \<Rightarrow> u64 \<Rightarrow> DPS_UUID \<Rightarrow> DPS_UUID list \<Rightarrow> DPS_UUID list option" where
  "link_back history ex ph [] = None"
| "link_back history ex ph (h # hs) =
     (case exp_of history h of
        None \<Rightarrow> None
      | Some e \<Rightarrow> if ex < e then map_option ((#) h) (link_back history ex ph hs) else Some (ph # h # hs))"

definition LinkPub :: "DPS_History \<Rightarrow> DPS_UUID \<Rightarrow> DPS_History option" where
  "LinkPub history ph =
     (if count history = 0 then Some (history\<lparr>order := [ph], count := 1\<rparr>)
      else
        (case (exp_of history ph, order history) of
           (Some ex, soonest # _) \<Rightarrow>
             (case exp_of history soonest of
                None \<Rightarrow> None
              | Some e \<Rightarrow>
                  map_option (\<lambda>l. history\<lparr>order := l, count := count history + 1\<rparr>)
                    (if ex \<le> e then Some (ph # order history)
                     else map_option rev (link_back history ex ph (rev (order history)))))
         | _ \<Rightarrow> None))"

definition UnlinkPub :: "DPS_History \<Rightarrow> DPS_UUID \<Rightarrow> DPS_History" where
  "UnlinkPub history ph = history\<lparr>order := remove1 ph (order history), count := count history - 1\<rparr>"

definition FreePubHistory :: "DPS_History \<Rightarrow> DPS_UUID \<Rightarrow> DPS_History" where
  "FreePubHistory history ph = history\<lparr>recs := (recs history)(ph := None)\<rparr>"

text \<open>The three calls with which a record leaves the history\<close>

definition discard :: "DPS_History \<Rightarrow> DPS_UUID \<Rightarrow> DPS_History" where
  "discard history ph =
     (let h = UnlinkPub history ph in FreePubHistory (h\<lparr>root := Remove (root h) ph\<rparr>) ph)"

section \<open>Operations\<close>

definition DPS_DeletePubHistory :: "DPS_History \<Rightarrow> DPS_UUID \<Rightarrow> DPS_Status \<times> DPS_History" where
  "DPS_DeletePubHistory history pubId =
     (case Find (root history) pubId of
        None \<Rightarrow> (DPS_ERR_MISSING, history)
      | Some ph \<Rightarrow> (DPS_OK, discard history ph))"

function freshen_loop :: "u64 \<Rightarrow> DPS_History \<Rightarrow> DPS_History option" where
  "freshen_loop now history =
     (case order history of
        [] \<Rightarrow> Some history
      | ph # _ \<Rightarrow>
          (case exp_of history ph of
             None \<Rightarrow> None
           | Some ex \<Rightarrow> if now \<ge> ex then freshen_loop now (discard history ph) else Some history))"
  by pat_completeness auto

termination
  by (relation "measure (\<lambda>(now, h). length (order h))")
    (auto simp: discard_def UnlinkPub_def FreePubHistory_def Let_def)

declare freshen_loop.simps [simp del]

definition DPS_FreshenHistory :: "u64 \<Rightarrow> DPS_History \<Rightarrow> DPS_History option" where
  "DPS_FreshenHistory now history =
     (if count history > HISTORY_THRESHOLD then freshen_loop now history else Some history)"

text \<open>The addresses a publication came from; \<open>alloc\<close> says whether a new entry can be allocated.\<close>

fun update_addrs ::
  "bool \<Rightarrow> u32 \<Rightarrow> u16 \<Rightarrow> DPS_NodeAddress \<Rightarrow> DPS_NodeAddressList list \<Rightarrow> DPS_NodeAddressList list" where
  "update_addrs alloc sequenceNum hop a [] =
     (if alloc then [\<lparr>na_sn = max 0 sequenceNum, na_hopCount = min hop hop, na_addr = a\<rparr>] else [])"
| "update_addrs alloc sequenceNum hop a (phAddr # next) =
     (if DPS_SameAddr (na_addr phAddr) a
      then phAddr\<lparr>na_sn := max (na_sn phAddr) sequenceNum, na_hopCount := min (na_hopCount phAddr) hop\<rparr> # next
      else phAddr # update_addrs alloc sequenceNum hop a next)"

definition update_record ::
  "bool \<Rightarrow> u64 \<Rightarrow> u32 \<Rightarrow> bool \<Rightarrow> u16 \<Rightarrow> u16 \<Rightarrow> DPS_NodeAddress \<Rightarrow> DPS_PubHistory \<Rightarrow> DPS_PubHistory" where
  "update_record alloc now sequenceNum ack ttl hop a ph =
     ph\<lparr>sn := max (sn ph) sequenceNum, ackRequested := ack,
        addrs := (if a_type a \<noteq> DPS_UNKNOWN then update_addrs alloc sequenceNum hop a (addrs ph) else addrs ph),
        expiration := now + DPS_SECS_TO_MS (ucast ttl) + PUB_HISTORY_LIFETIME\<rparr>"

text \<open>What \<open>calloc\<close> returns for a record\<close>

definition zero_record :: DPS_PubHistory where
  "zero_record = \<lparr>sn = 0, ackRequested = False, addrs = [], expiration = 0\<rparr>"

text \<open>\<open>alloc\<close> and \<open>allocAddr\<close> say whether the two allocations succeed; \<open>now\<close> is the time of the loop.\<close>

definition DPS_UpdatePubHistory ::
  "bool \<Rightarrow> bool \<Rightarrow> u64 \<Rightarrow> DPS_History \<Rightarrow> DPS_UUID \<Rightarrow> u32 \<Rightarrow> bool \<Rightarrow> u16 \<Rightarrow> u16 \<Rightarrow> DPS_NodeAddress \<Rightarrow>
   (DPS_Status \<times> DPS_History) option" where
  "DPS_UpdatePubHistory alloc allocAddr now history pubId sequenceNum ack ttl hop a =
     (if \<not> alloc then Some (DPS_ERR_RESOURCES, history)
      else
        (case Insert (root history) pubId of
           (new, t) \<Rightarrow>
             (let h = (if new then history\<lparr>root := t, recs := (recs history)(pubId \<mapsto> zero_record)\<rparr>
                       else UnlinkPub history pubId)
              in case recs h pubId of
                   None \<Rightarrow> None
                 | Some ph \<Rightarrow>
                     map_option (Pair DPS_OK)
                       (LinkPub (h\<lparr>recs := (recs h)(pubId \<mapsto> update_record allocAddr now sequenceNum ack ttl hop a ph)\<rparr>)
                          pubId))))"

text \<open>A look at the record of a publication: \<open>None\<close> is an access to a record that is not allocated,
  \<open>Some None\<close> that there is none.\<close>

definition find_record :: "DPS_History \<Rightarrow> DPS_UUID \<Rightarrow> DPS_PubHistory option option" where
  "find_record history pubId =
     (case Find (root history) pubId of
        None \<Rightarrow> Some None
      | Some ph \<Rightarrow> (case recs history ph of None \<Rightarrow> None | Some r \<Rightarrow> Some (Some r)))"

definition DPS_PublicationIsStale :: "DPS_History \<Rightarrow> DPS_UUID \<Rightarrow> u32 \<Rightarrow> bool option" where
  "DPS_PublicationIsStale history pubId sequenceNum =
     map_option (\<lambda>r. case r of None \<Rightarrow> False | Some ph \<Rightarrow> sequenceNum \<le> sn ph) (find_record history pubId)"

text \<open>The tree is not reset: \<open>root\<close> keeps naming the records that have been freed.\<close>

definition DPS_HistoryFree :: "DPS_History \<Rightarrow> DPS_History" where
  "DPS_HistoryFree history =
     (fold (\<lambda>ph h. FreePubHistory h ph) (order history) history)\<lparr>order := [], count := 0\<rparr>"

text \<open>The bound \<open>hopCount\<close> is that of the first address throughout.\<close>

fun closer :: "u16 \<Rightarrow> DPS_NodeAddressList list \<Rightarrow> DPS_NodeAddress \<Rightarrow> DPS_NodeAddress" where
  "closer hopCount [] a = a"
| "closer hopCount (na # next) a = closer hopCount next (if na_hopCount na < hopCount then na_addr na else a)"

definition DPS_LookupPublisherForAck ::
  "DPS_History \<Rightarrow> DPS_UUID \<Rightarrow> (DPS_Status \<times> u32 \<times> DPS_NodeAddress option) option" where
  "DPS_LookupPublisherForAck history pubId =
     map_option (\<lambda>r.
       case r of
         Some ph \<Rightarrow>
           (case (ackRequested ph, addrs ph) of
              (True, na # next) \<Rightarrow> (DPS_OK, sn ph, Some (closer (na_hopCount na) next (na_addr na)))
            | _ \<Rightarrow> (DPS_ERR_MISSING, 0, None))
       | None \<Rightarrow> (DPS_ERR_MISSING, 0, None)) (find_record history pubId)"

definition DPS_PublicationReceivedFrom ::
  "DPS_History \<Rightarrow> DPS_UUID \<Rightarrow> u32 \<Rightarrow> DPS_NodeAddress \<Rightarrow> DPS_NodeAddress \<Rightarrow> bool option" where
  "DPS_PublicationReceivedFrom history pubId sequenceNum source destination =
     (if DPS_SameAddr source destination then Some True
      else
        map_option (\<lambda>r.
          case r of
            None \<Rightarrow> False
          | Some ph \<Rightarrow> list_ex (\<lambda>phAddr. sequenceNum \<le> na_sn phAddr \<and> DPS_SameAddr (na_addr phAddr) destination) (addrs ph))
          (find_record history pubId))"

definition empty_history :: DPS_History where
  "empty_history = \<lparr>root = Leaf, order = [], count = 0, recs = Map.empty\<rparr>"

section \<open>The tree is a search tree\<close>

lemma compare_order:
  "DPS_UUIDCompare a b = 0 \<longleftrightarrow> a = b" "DPS_UUIDCompare a b < 0 \<longleftrightarrow> a < b"
  by (auto simp: less_DPS_UUID_def compare_num uuid_num_eq_iff[symmetric])

lemma Find_bst: "bst t \<Longrightarrow> Find t x = (if x \<in> set_tree t then Some x else None)"
  by (induction t) (auto simp: compare_order Let_def)

lemma Insert_bst:
  "bst t \<Longrightarrow> bst (snd (Insert t x)) \<and> set_tree (snd (Insert t x)) = insert x (set_tree t) \<and>
   (fst (Insert t x) \<longleftrightarrow> x \<notin> set_tree t) \<and> (\<not> fst (Insert t x) \<longrightarrow> snd (Insert t x) = t)"
proof (induction t)
  case (Node l a r)
  have b: "bst l" "bst r" "\<forall>y \<in> set_tree l. y < a" "\<forall>y \<in> set_tree r. a < y" using Node.prems by auto
  note l = Node.IH(1)[OF b(1)] and r = Node.IH(2)[OF b(2)]
  show ?case
  proof (cases x a rule: linorder_cases)
    case less
    then have "x \<notin> set_tree r" "Insert (Node l a r) x = (fst (Insert l x), Node (snd (Insert l x)) a r)"
      using b(4) by (auto simp: compare_order Let_def split: prod.splits)
    then show ?thesis using l b(2-4) less by (auto simp del: Insert.simps)
  next
    case equal
    then show ?thesis using Node.prems by (simp add: compare_order)
  next
    case greater
    then have "x \<notin> set_tree l" "Insert (Node l a r) x = (fst (Insert r x), Node l a (snd (Insert r x)))"
      using b(3) by (auto simp: compare_order Let_def split: prod.splits)
    then show ?thesis using r b(1,3,4) greater by (auto simp del: Insert.simps)
  qed
qed simp

lemma rightmost_max:
  "bst t \<Longrightarrow> t \<noteq> Leaf \<Longrightarrow> rightmost t y \<in> set_tree t \<and> (\<forall>x \<in> set_tree t. x \<le> rightmost t y)"
proof (induction t arbitrary: y)
  case (Node l a r)
  show ?case
  proof (cases "r = Leaf")
    case False
    then have "rightmost r a \<in> set_tree r \<and> (\<forall>x \<in> set_tree r. x \<le> rightmost r a)" using Node by auto
    then show ?thesis using Node.prems by force
  qed (use Node.prems in force)
qed simp

lemma leftmost_min:
  "bst t \<Longrightarrow> t \<noteq> Leaf \<Longrightarrow> leftmost t y \<in> set_tree t \<and> (\<forall>x \<in> set_tree t. leftmost t y \<le> x)"
proof (induction t arbitrary: y)
  case (Node l a r)
  show ?case
  proof (cases "l = Leaf")
    case False
    then have "leftmost l a \<in> set_tree l \<and> (\<forall>x \<in> set_tree l. leftmost l a \<le> x)" using Node by auto
    then show ?thesis using Node.prems by force
  qed (use Node.prems in force)
qed simp

lemma Remove_bst: "bst t \<Longrightarrow> bst (Remove t x) \<and> set_tree (Remove t x) = set_tree t - {x}"
proof (induction t arbitrary: x)
  case (Node l a r)
  note ihl = Node.IH(1) and ihr = Node.IH(2)
  have b: "bst l" "bst r" "\<forall>y \<in> set_tree l. y < a" "\<forall>y \<in> set_tree r. a < y" using Node.prems by auto
  show ?case
  proof (cases x a rule: linorder_cases)
    case less
    then show ?thesis using ihl[OF b(1), of x] b by auto
  next
    case greater
    then show ?thesis using ihr[OF b(2), of x] b by auto
  next
    case equal
    show ?thesis
    proof (cases "l = Leaf \<or> r = Leaf")
      case True
      then show ?thesis using equal b by force
    next
      case False
      have m: "rightmost l x \<in> set_tree l" "\<And>y. y \<in> set_tree l \<Longrightarrow> y \<noteq> rightmost l x \<Longrightarrow> y < rightmost l x"
        "leftmost r x \<in> set_tree r" "\<And>y. y \<in> set_tree r \<Longrightarrow> y \<noteq> leftmost r x \<Longrightarrow> leftmost r x < y"
        using rightmost_max[OF b(1), of x] leftmost_min[OF b(2), of x] False by force+
      then have "\<forall>y \<in> set_tree r. rightmost l x < y" "\<forall>y \<in> set_tree l. y < leftmost r x"
        using b(3,4) by (meson order.strict_trans)+
      then show ?thesis
        using equal False m ihl[OF b(1), of "rightmost l x"] ihr[OF b(2), of "leftmost r x"] b
        by (auto simp: Let_def)
    qed
  qed
qed simp

section \<open>The invariant\<close>

definition exp_at :: "DPS_History \<Rightarrow> DPS_UUID \<Rightarrow> u64" where
  "exp_at h x = expiration (the (recs h x))"

definition hist_ok :: "DPS_History \<Rightarrow> bool" where
  "hist_ok h \<longleftrightarrow> bst (root h) \<and> distinct (order h) \<and> set_tree (root h) = set (order h) \<and> dom (recs h) = set (order h) \<and>
     sorted (map (exp_at h) (order h)) \<and> length (order h) < 2 ^ 32 \<and> count h = word_of_nat (length (order h))"

text \<open>The invariant without the record \<open>x\<close>, which is in the tree but not in the list.\<close>

definition hist_pending :: "DPS_History \<Rightarrow> DPS_UUID \<Rightarrow> bool" where
  "hist_pending h x \<longleftrightarrow> bst (root h) \<and> distinct (x # order h) \<and> set_tree (root h) = set (x # order h) \<and>
     dom (recs h) = set (x # order h) \<and> sorted (map (exp_at h) (order h)) \<and> length (order h) + 1 < 2 ^ 32 \<and>
     count h = word_of_nat (length (order h))"

lemma hist_ok_empty: "hist_ok empty_history"
  by (simp add: hist_ok_def empty_history_def)

lemma count_nat: "hist_ok h \<Longrightarrow> unat (count h) = length (order h)"
  by (simp add: hist_ok_def unsigned_of_nat take_bit_nat_eq_self)

lemma find_record_ok: "hist_ok h \<Longrightarrow> find_record h x = Some (recs h x)"
  by (auto simp: find_record_def Find_bst hist_ok_def split: option.splits)

lemma exp_of_at: "x \<in> dom (recs h) \<Longrightarrow> exp_of h x = Some (exp_at h x)"
  by (auto simp: exp_of_def exp_at_def)

lemma link_back_spec:
  assumes "set l \<subseteq> dom (recs h)" "\<exists>y \<in> set l. exp_at h y \<le> ex"
  shows "link_back h ex x l = Some (takeWhile (\<lambda>y. ex < exp_at h y) l @ x # dropWhile (\<lambda>y. ex < exp_at h y) l)"
  using assms
proof (induction l)
  case (Cons a l)
  then show ?case
    by (cases "ex < exp_at h a") (auto simp: exp_of_at not_less dest: leD)
qed simp

lemma link_back_sorted:
  fixes f :: "'a \<Rightarrow> 'b :: linorder" and x :: 'a
  assumes "sorted (map f l)"
  defines "a \<equiv> takeWhile (\<lambda>y. f x < f y) (rev l)" and "b \<equiv> dropWhile (\<lambda>y. f x < f y) (rev l)"
  shows "sorted (map f (rev (a @ x # b)))"
proof -
  have e: "rev l = a @ b" by (simp add: a_def b_def)
  then have l: "l = rev b @ rev a" by (metis rev_append rev_rev_ident)
  have s: "sorted (map f (rev b) @ map f (rev a))" using assms(1) unfolding l map_append .
  have a: "\<forall>y \<in> set a. f x < f y" unfolding a_def by (auto dest: set_takeWhileD)
  have b: "f y \<le> f x" if "y \<in> set b" for y
  proof (cases b)
    case (Cons c cs)
    then have c: "\<not> f x < f c" using hd_dropWhile[of "\<lambda>y. f x < f y" "rev l"] by (simp add: b_def)
    have "sorted (map f (rev cs) @ [f c])" using s Cons by (simp add: sorted_append)
    then have "f y \<le> f c" using that Cons by (auto simp: sorted_append)
    then show ?thesis using c by simp
  qed (use that in simp)
  show ?thesis using s a b by (auto simp: sorted_append rev_map[symmetric] less_imp_le) 
qed

lemma exp_at_cong: "recs h y = recs h' y \<Longrightarrow> exp_at h y = exp_at h' y"
  by (simp add: exp_at_def)

lemma LinkPub_ok:
  assumes "hist_pending h x"
  shows "\<exists>h'. LinkPub h x = Some h' \<and> hist_ok h' \<and> recs h' = recs h"
proof -
  have p: "bst (root h)" "distinct (x # order h)" "set_tree (root h) = set (x # order h)" "dom (recs h) = set (x # order h)"
    "sorted (map (exp_at h) (order h))" "length (order h) + 1 < 2 ^ 32" "count h = word_of_nat (length (order h))"
    using assms by (simp_all add: hist_pending_def)
  have len: "unat (count h) = length (order h)" using p(6,7) by (simp add: unsigned_of_nat take_bit_nat_eq_self)
  have ok: "hist_ok (h\<lparr>order := l, count := c\<rparr>)"
    if "sorted (map (exp_at h) l)" "set l = set (x # order h)" "length l = length (order h) + 1" "c = word_of_nat (length l)" for l c
  proof -
    have "exp_at (h\<lparr>order := l, count := c\<rparr>) = exp_at h" by (rule ext) (simp add: exp_at_def)
    moreover have "distinct l" using p(2) that(2,3) by (metis card_distinct distinct_card length_Cons Suc_eq_plus1)
    ultimately show ?thesis using p(1,3,4,6) that by (simp add: hist_ok_def)
  qed
  show ?thesis
  proof (cases "order h")
    case Nil
    then have "count h = 0" using p(7) by simp
    then show ?thesis using ok[of "[x]" 1] Nil by (auto simp: LinkPub_def)
  next
    case (Cons s r)
    have c: "count h \<noteq> 0" using len Cons by (metis length_0_conv list.distinct(1) unsigned_0)
    have ex: "exp_of h x = Some (exp_at h x)" "exp_of h s = Some (exp_at h s)" using p(4) Cons by (simp_all add: exp_of_at)
    have n: "count h + 1 = word_of_nat (length (order h) + 1)" using p(7) by simp
    show ?thesis
    proof (cases "exp_at h x \<le> exp_at h s")
      case True
      then have "sorted (map (exp_at h) (x # order h))" using p(5) Cons by auto
      then show ?thesis using ok[of "x # order h" "count h + 1"] True n ex c Cons by (auto simp: LinkPub_def)
    next
      case False
      let ?a = "takeWhile (\<lambda>y. exp_at h x < exp_at h y) (rev (order h))" and ?b = "dropWhile (\<lambda>y. exp_at h x < exp_at h y) (rev (order h))"
      have "link_back h (exp_at h x) x (rev (order h)) = Some (?a @ x # ?b)"
        by (rule link_back_spec) (use p(4) Cons False in auto)
      moreover have "set (rev (?a @ x # ?b)) = set (x # order h)"
        by (metis (no_types, lifting) Un_insert_right list.set(2) set_append set_rev takeWhile_dropWhile_id)
      moreover have "length (rev (?a @ x # ?b)) = length (order h) + 1"
        by (metis (no_types, lifting) add_Suc_right length_Cons length_append length_rev takeWhile_dropWhile_id Suc_eq_plus1)
      ultimately show ?thesis
        using ok[OF link_back_sorted[OF p(5), of x], of "count h + 1"] False n ex c Cons by (auto simp: LinkPub_def)
    qed
  qed
qed

section \<open>What the operations do to the records\<close>

lemma count_pred: "0 < n \<Longrightarrow> word_of_nat n - (1 :: u32) = word_of_nat (n - 1)"
  by (cases n) auto

lemma sorted_exp_cong:
  "(\<And>y. y \<in> set l \<Longrightarrow> recs h y = recs g y) \<Longrightarrow> sorted (map (exp_at h) l) \<longleftrightarrow> sorted (map (exp_at g) l)"
  by (metis (no_types, lifting) exp_at_cong map_cong)

lemma unlink_pending:
  assumes "hist_ok h" "x \<in> set (order h)"
  shows "hist_pending (UnlinkPub h x) x" "recs (UnlinkPub h x) = recs h"
proof -
  have "sorted (map (exp_at h) (remove1 x (order h)))"
    using assms(1) unfolding hist_ok_def by (metis (no_types, lifting) sorted_map_remove1)
  then have "sorted (map (exp_at (UnlinkPub h x)) (remove1 x (order h)))"
    by (subst sorted_exp_cong[of _ _ h]) (simp_all add: UnlinkPub_def)
  moreover have "0 < length (order h)" using assms(2) by (auto simp: length_pos_if_in_set)
  ultimately show "hist_pending (UnlinkPub h x) x"
    using assms by (auto simp: hist_pending_def hist_ok_def UnlinkPub_def set_remove1_eq count_pred length_remove1)
  show "recs (UnlinkPub h x) = recs h" by (simp add: UnlinkPub_def)
qed

lemma discard_ok:
  assumes "hist_ok h" "x \<in> set (order h)"
  shows "hist_ok (discard h x)" "recs (discard h x) = (recs h)(x := None)" "order (discard h x) = remove1 x (order h)"
proof -
  note p = unlink_pending(1)[OF assms]
  have "sorted (map (exp_at (discard h x)) (order (UnlinkPub h x)))"
    using p by (subst sorted_exp_cong[of _ _ "UnlinkPub h x"]) (auto simp: discard_def Let_def FreePubHistory_def hist_pending_def)
  moreover have "order (discard h x) = order (UnlinkPub h x)" "count (discard h x) = count (UnlinkPub h x)"
    "root (discard h x) = Remove (root (UnlinkPub h x)) x" "recs (discard h x) = (recs (UnlinkPub h x))(x := None)"
    by (simp_all add: discard_def Let_def FreePubHistory_def)
  moreover have "bst (Remove (root (UnlinkPub h x)) x)" "set_tree (Remove (root (UnlinkPub h x)) x) = set (order (UnlinkPub h x))"
    using p Remove_bst[of "root (UnlinkPub h x)" x] by (auto simp: hist_pending_def)
  ultimately show "hist_ok (discard h x)" using p by (auto simp: hist_ok_def hist_pending_def)
  show "recs (discard h x) = (recs h)(x := None)" "order (discard h x) = remove1 x (order h)"
    by (simp_all add: discard_def Let_def FreePubHistory_def UnlinkPub_def)
qed

lemma hist_ok_dom: "hist_ok h \<Longrightarrow> dom (recs h) = set (order h)"
  by (simp add: hist_ok_def)

lemma delete_ok:
  assumes "hist_ok h"
  shows "DPS_DeletePubHistory h x =
    (if recs h x = None then (DPS_ERR_MISSING, h) else (DPS_OK, discard h x))"
  using assms hist_ok_dom[OF assms] by (auto simp: DPS_DeletePubHistory_def Find_bst hist_ok_def dom_def)

text \<open>The record that an update starts from\<close>

definition old_record :: "DPS_History \<Rightarrow> DPS_UUID \<Rightarrow> DPS_PubHistory" where
  "old_record h x = (case recs h x of None \<Rightarrow> zero_record | Some r \<Rightarrow> r)"

lemma update_ok:
  assumes "hist_ok h" "length (order h) + 1 < 2 ^ 32"
  shows "\<exists>h'. DPS_UpdatePubHistory True al now h x s ack ttl hop a = Some (DPS_OK, h') \<and> hist_ok h' \<and>
    recs h' = (recs h)(x \<mapsto> update_record al now s ack ttl hop a (old_record h x))"
proof -
  let ?u = "update_record al now s ack ttl hop a (old_record h x)"
  define g where "g = (if fst (Insert (root h) x) then h\<lparr>root := snd (Insert (root h) x), recs := (recs h)(x \<mapsto> zero_record)\<rparr>
                       else UnlinkPub h x)"
  have i: "bst (snd (Insert (root h) x))" "set_tree (snd (Insert (root h) x)) = insert x (set_tree (root h))"
    "fst (Insert (root h) x) \<longleftrightarrow> x \<notin> set (order h)"
    using Insert_bst[of "root h" x] assms(1) by (auto simp: hist_ok_def)
  have g: "recs g x = Some (old_record h x)" "(recs g)(x \<mapsto> ?u) = (recs h)(x \<mapsto> ?u)"
    using i(3) hist_ok_dom[OF assms(1)] by (auto simp: g_def old_record_def UnlinkPub_def split: option.splits)
  have "hist_pending (g\<lparr>recs := (recs g)(x \<mapsto> ?u)\<rparr>) x"
  proof (cases "x \<in> set (order h)")
    case True
    then have gu: "g = UnlinkPub h x" using i(3) by (simp add: g_def)
    have p: "hist_pending g x" using unlink_pending(1)[OF assms(1) True] gu by simp
    have "sorted (map (exp_at (g\<lparr>recs := (recs g)(x \<mapsto> ?u)\<rparr>)) (order g))"
      using p by (subst sorted_exp_cong[of _ _ g]) (auto simp: hist_pending_def)
    then show ?thesis using p by (auto simp: hist_pending_def)
  next
    case False
    then have gn: "g = h\<lparr>root := snd (Insert (root h) x), recs := (recs h)(x \<mapsto> zero_record)\<rparr>" using i(3) by (simp add: g_def)
    have "sorted (map (exp_at (g\<lparr>recs := (recs g)(x \<mapsto> ?u)\<rparr>)) (order h))"
      using assms False gn by (subst sorted_exp_cong[of _ _ h]) (auto simp: hist_ok_def)
    then show ?thesis using assms False i(1,2) gn by (auto simp: hist_pending_def hist_ok_def)
  qed
  from LinkPub_ok[OF this] obtain h' where h': "LinkPub (g\<lparr>recs := (recs g)(x \<mapsto> ?u)\<rparr>) x = Some h'" "hist_ok h'"
    "recs h' = (recs h)(x \<mapsto> ?u)" using g(2) by auto
  have "DPS_UpdatePubHistory True al now h x s ack ttl hop a = Some (DPS_OK, h')"
    using h'(1) g(1) unfolding DPS_UpdatePubHistory_def g_def[unfolded fst_def snd_def] Let_def
    by (auto simp: g_def split: prod.splits)
  then show ?thesis using h'(2,3) by blast
qed

lemma freshen_loop_ok:
  "hist_ok h \<Longrightarrow> \<exists>h'. freshen_loop now h = Some h' \<and> hist_ok h' \<and> recs h' = recs h |` {x. now < exp_at h x}"
proof (induction now h rule: freshen_loop.induct)
  case (1 now h)
  note ih = "1.IH" and ok = "1.prems"
  show ?case
  proof (cases "order h")
    case Nil
    then have "recs h = Map.empty" using hist_ok_dom[OF ok] by simp
    then show ?thesis using Nil ok by (simp add: freshen_loop.simps[of now h])
  next
    case (Cons ph rest)
    then have ph: "ph \<in> set (order h)" by simp
    then have ex: "exp_of h ph = Some (exp_at h ph)" using hist_ok_dom[OF ok] by (simp add: exp_of_at)
    show ?thesis
    proof (cases "exp_at h ph \<le> now")
      case True
      have r: "recs (discard h ph) |` {x. now < exp_at (discard h ph) x} = recs h |` {x. now < exp_at h x}"
        using True by (auto simp: discard_ok(2)[OF ok ph] exp_at_def restrict_map_def fun_eq_iff not_less)
      show ?thesis
        using ih[OF Cons ex True discard_ok(1)[OF ok ph]] Cons ex True unfolding r
        by (simp add: freshen_loop.simps[of now h])
    next
      case False
      then have "\<forall>x \<in> set (order h). now < exp_at h x" using ok Cons by (auto simp: hist_ok_def)
      then have "recs h |` {x. now < exp_at h x} = recs h"
        using hist_ok_dom[OF ok] by (auto simp: restrict_map_def fun_eq_iff) (metis domIff)
      then show ?thesis using False Cons ex ok by (simp add: freshen_loop.simps[of now h])
    qed
  qed
qed

lemma freshen_ok:
  assumes "hist_ok h"
  shows "\<exists>h'. DPS_FreshenHistory now h = Some h' \<and> hist_ok h' \<and>
    recs h' = (if 10 < length (order h) then recs h |` {x. now < exp_at h x} else recs h)"
proof -
  have "count h > HISTORY_THRESHOLD \<longleftrightarrow> 10 < length (order h)"
    using count_nat[OF assms] by (simp add: word_less_nat_alt HISTORY_THRESHOLD_def)
  then show ?thesis using freshen_loop_ok[OF assms] assms by (simp add: DPS_FreshenHistory_def)
qed

section \<open>Duplicate suppression\<close>

text \<open>
  What a node needs of its history to forward every publication once: noting an arrival makes
  exactly the sequence numbers up to the one that arrived stale, for that publication only. The first
  argument of \<open>inv\<close> bounds the number of arrivals noted so far.
\<close>

locale dedup =
  fixes inv :: "nat \<Rightarrow> 'h \<Rightarrow> bool"
    and cap :: nat
    and stale :: "'h \<Rightarrow> 'k \<Rightarrow> 'n :: linorder \<Rightarrow> bool option"
    and arrive :: "'m \<Rightarrow> 'h \<Rightarrow> 'h option"
    and key :: "'m \<Rightarrow> 'k"
    and num :: "'m \<Rightarrow> 'n"
  assumes stale_defined: "inv n h \<Longrightarrow> \<exists>b. stale h k s = Some b"
    and arrive_stale: "inv n h \<Longrightarrow> n < cap \<Longrightarrow> \<exists>h'. arrive m h = Some h' \<and> inv (n + 1) h' \<and>
      (\<forall>k s. stale h' k s = Some (stale h k s = Some True \<or> (key m = k \<and> s \<le> num m)))"
begin

fun arrive_all :: "'m list \<Rightarrow> 'h \<Rightarrow> 'h option" where
  "arrive_all [] h = Some h"
| "arrive_all (m # ms) h = Option.bind (arrive m h) (arrive_all ms)"

lemma arrive_all_stale:
  "inv n h \<Longrightarrow> n + length ms \<le> cap \<Longrightarrow> \<exists>h'. arrive_all ms h = Some h' \<and> inv (n + length ms) h' \<and>
    (\<forall>k s. stale h' k s = Some (stale h k s = Some True \<or> (\<exists>m \<in> set ms. key m = k \<and> s \<le> num m)))"
proof (induction ms arbitrary: n h)
  case Nil
  have "stale h k s = Some (stale h k s = Some True)" for k s
    using stale_defined[OF Nil.prems(1), of k s] by auto
  then show ?case using Nil.prems by auto
next
  case (Cons m ms)
  then obtain h1 where h1: "arrive m h = Some h1" "inv (n + 1) h1"
    "\<And>k s. stale h1 k s = Some (stale h k s = Some True \<or> (key m = k \<and> s \<le> num m))"
    using arrive_stale[of n h m] by auto
  obtain h2 where h2: "arrive_all ms h1 = Some h2" "inv (n + 1 + length ms) h2"
    "\<And>k s. stale h2 k s = Some (stale h1 k s = Some True \<or> (\<exists>m \<in> set ms. key m = k \<and> s \<le> num m))"
    using Cons.IH[OF h1(2)] Cons.prems(2) by auto
  have "stale h2 k s = Some (stale h k s = Some True \<or> (\<exists>m \<in> set (m # ms). key m = k \<and> s \<le> num m))" for k s
    unfolding h2(3) h1(3) by auto
  then show ?case using h1(1) h2(1,2) by (intro exI[of _ h2]) simp
qed

end

text \<open>An arrival: the arguments with which a publication is entered into the history.\<close>

record arrival =
  at_time :: u64
  pub_id :: DPS_UUID
  seq_num :: u32
  ack_wanted :: bool
  time_to_live :: u16
  hops :: u16
  sender :: DPS_NodeAddress

definition note_arrival :: "arrival \<Rightarrow> DPS_History \<Rightarrow> DPS_History option" where
  "note_arrival m h =
     map_option snd (DPS_UpdatePubHistory True True (at_time m) h (pub_id m) (seq_num m) (ack_wanted m)
       (time_to_live m) (hops m) (sender m))"

fun note_arrivals :: "arrival list \<Rightarrow> DPS_History \<Rightarrow> DPS_History option" where
  "note_arrivals [] h = Some h"
| "note_arrivals (m # ms) h = Option.bind (note_arrival m h) (note_arrivals ms)"

definition hist_inv :: "nat \<Rightarrow> DPS_History \<Rightarrow> bool" where
  "hist_inv n h \<longleftrightarrow> hist_ok h \<and> length (order h) \<le> n"

lemma order_card: "hist_ok h \<Longrightarrow> length (order h) = card (dom (recs h))"
  by (simp add: hist_ok_def distinct_card)

lemma stale_record:
  "hist_ok h \<Longrightarrow> DPS_PublicationIsStale h x s = Some (case recs h x of None \<Rightarrow> False | Some r \<Rightarrow> s \<le> sn r)"
  by (simp add: DPS_PublicationIsStale_def find_record_ok)

definition noted :: "arrival \<Rightarrow> DPS_History \<Rightarrow> DPS_PubHistory" where
  "noted m h = update_record True (at_time m) (seq_num m) (ack_wanted m) (time_to_live m) (hops m) (sender m)
     (old_record h (pub_id m))"

lemma note_arrival_ok:
  assumes "hist_inv n h" "n < 2 ^ 32 - 1"
  shows "\<exists>h'. note_arrival m h = Some h' \<and> hist_inv (n + 1) h' \<and> recs h' = (recs h)(pub_id m \<mapsto> noted m h)"
proof -
  have h: "hist_ok h" "length (order h) + 1 < 2 ^ 32" using assms by (auto simp: hist_inv_def)
  obtain h' where h': "DPS_UpdatePubHistory True True (at_time m) h (pub_id m) (seq_num m) (ack_wanted m) (time_to_live m) (hops m) (sender m) =
      Some (DPS_OK, h')" "hist_ok h'" "recs h' = (recs h)(pub_id m \<mapsto> noted m h)"
    using update_ok[OF h] unfolding noted_def by blast
  have "card (dom (recs h')) \<le> card (dom (recs h)) + 1"
    using h'(3) hist_ok_dom[OF h(1)] by (simp add: card_insert_if)
  then have "length (order h') \<le> n + 1" using order_card[OF h(1)] order_card[OF h'(2)] assms(1) by (simp add: hist_inv_def)
  then show ?thesis using h' by (simp add: note_arrival_def hist_inv_def)
qed

interpretation hdup: dedup hist_inv "2 ^ 32 - 1" DPS_PublicationIsStale note_arrival pub_id seq_num
proof
  show "\<exists>b. DPS_PublicationIsStale h k s = Some b" if "hist_inv n h" for n h k s
    using that by (simp add: stale_record hist_inv_def)
  show "\<exists>h'. note_arrival m h = Some h' \<and> hist_inv (n + 1) h' \<and>
      (\<forall>k s. DPS_PublicationIsStale h' k s = Some (DPS_PublicationIsStale h k s = Some True \<or> (pub_id m = k \<and> s \<le> seq_num m)))"
    if "hist_inv n h" "n < 2 ^ 32 - 1" for n h m
  proof -
    note n = note_arrival_ok[OF that, of m]
    obtain h' where h': "note_arrival m h = Some h'" "hist_inv (n + 1) h'"
      "recs h' = (recs h)(pub_id m \<mapsto> noted m h)" using n by blast
    have "DPS_PublicationIsStale h' k s = Some (DPS_PublicationIsStale h k s = Some True \<or> (pub_id m = k \<and> s \<le> seq_num m))" for k s
      using h'(2) that(1)
      by (auto simp: hist_inv_def stale_record h'(3) noted_def update_record_def old_record_def zero_record_def le_max_iff_disj split: option.splits)
    then show ?thesis using h'(1,2) by blast
  qed
qed

lemma note_arrivals_all: "note_arrivals ms h = hdup.arrive_all ms h"
proof (induction ms arbitrary: h)
  case (Cons m ms)
  then show ?case by (cases "note_arrival m h") auto
qed simp

text \<open>C33: The history suppresses duplicates and nothing else: after any sequence of arrivals a publication
  is stale exactly when a publication with its identifier and at least its sequence number has
  arrived. No record is accessed that is not allocated.\<close>

theorem history_suppresses_duplicates:
  assumes "length ms < 2 ^ 32"
  shows "\<exists>h. note_arrivals ms empty_history = Some h \<and>
    (\<forall>id s. DPS_PublicationIsStale h id s = Some (\<exists>m \<in> set ms. pub_id m = id \<and> s \<le> seq_num m))"
proof -
  have i: "hist_inv 0 empty_history" using hist_ok_empty by (simp add: hist_inv_def empty_history_def)
  have "\<not> DPS_PublicationIsStale empty_history id s = Some True" for id s
    by (simp add: stale_record hist_ok_empty) (simp add: empty_history_def)
  then show ?thesis
    using hdup.arrive_all_stale[OF i, of ms] assms by (auto simp: note_arrivals_all)
qed

theorem history_suppresses_duplicates_witness:
  defines "m \<equiv> \<lparr>at_time = 5, pub_id = UUID 1 2, seq_num = 7, ack_wanted = True, time_to_live = 0, hops = 1,
      sender = \<lparr>a_type = DPS_UDP, inaddr = AF_INET 1 2, path = []\<rparr>\<rparr>"
  shows "\<exists>h. note_arrivals [m] empty_history = Some h \<and> DPS_PublicationIsStale h (UUID 1 2) 7 = Some True \<and>
    DPS_PublicationIsStale h (UUID 1 2) 8 = Some False \<and> DPS_PublicationIsStale h (UUID 2 2) 7 = Some False"
  using history_suppresses_duplicates[of "[m]"] by (auto simp: m_def)

text \<open>Tree, list and records stay consistent: an update enters or replaces exactly the record of its
  publication, keeps the highest sequence number, and leaves a search tree and a list sorted by
  expiration over the same records.\<close>

theorem history_update_record:
  assumes "hist_ok h" "length (order h) + 1 < 2 ^ 32"
  shows "\<exists>h'. DPS_UpdatePubHistory True al now h x s ack ttl hop a = Some (DPS_OK, h') \<and> hist_ok h' \<and>
    recs h' = (recs h)(x \<mapsto> update_record al now s ack ttl hop a (old_record h x))"
  using update_ok[OF assms] .

theorem history_update_record_witness:
  "\<exists>h'. DPS_UpdatePubHistory True True 0 empty_history (UUID 1 2) 7 False 60 1 \<lparr>a_type = DPS_UNKNOWN, inaddr = AF_UNSPEC 0 0, path = []\<rparr> =
      Some (DPS_OK, h') \<and> hist_ok h' \<and>
    recs h' = [UUID 1 2 \<mapsto> \<lparr>sn = 7, ackRequested = False, addrs = [], expiration = 70000\<rparr>]"
  using history_update_record[OF hist_ok_empty, of True 0 "UUID 1 2" 7 False 60 1 "\<lparr>a_type = DPS_UNKNOWN, inaddr = AF_UNSPEC 0 0, path = []\<rparr>"]
  by (simp add: empty_history_def update_record_def old_record_def zero_record_def DPS_SECS_TO_MS_def PUB_HISTORY_LIFETIME_def)

text \<open>C34: Freshening a history of more than ten records removes exactly the records that have expired,
  and a smaller history is left as it is; deleting a record removes exactly that record, or reports
  that it is missing.\<close>

theorem history_forgets_expired:
  assumes "hist_ok h"
  shows "(\<exists>h'. DPS_FreshenHistory now h = Some h' \<and> hist_ok h' \<and>
      recs h' = (if 10 < length (order h) then recs h |` {x. now < exp_at h x} else recs h)) \<and>
    (if recs h x = None then DPS_DeletePubHistory h x = (DPS_ERR_MISSING, h)
     else \<exists>h'. DPS_DeletePubHistory h x = (DPS_OK, h') \<and> hist_ok h' \<and> recs h' = (recs h)(x := None))"
  using freshen_ok[OF assms] delete_ok[OF assms, of x] discard_ok[OF assms, of x] hist_ok_dom[OF assms] by (auto simp: dom_def)

theorem history_forgets_expired_witness:
  defines "r \<equiv> \<lparr>sn = 4, ackRequested = True, addrs = [], expiration = 9\<rparr>"
  defines "h \<equiv> \<lparr>root = Node Leaf (UUID 1 2) Leaf, order = [UUID 1 2], count = 1, recs = [UUID 1 2 \<mapsto> r]\<rparr>"
  shows "(\<exists>h'. DPS_FreshenHistory 9 h = Some h' \<and> hist_ok h' \<and> recs h' = [UUID 1 2 \<mapsto> r]) \<and>
    (\<exists>h'. DPS_DeletePubHistory h (UUID 1 2) = (DPS_OK, h') \<and> hist_ok h' \<and> recs h' = Map.empty)"
proof -
  have "hist_ok h" by (simp add: h_def hist_ok_def)
  moreover have "recs h = [UUID 1 2 \<mapsto> r]" "length (order h) = 1" by (simp_all add: h_def)
  ultimately show ?thesis using history_forgets_expired[of h 9 "UUID 1 2"] by simp
qed

section \<open>Addresses of a publication\<close>

lemma update_addrs_same:
  assumes "DPS_SameAddr a d" "\<forall>e \<in> set l. DPS_SameAddr (na_addr e) a \<longrightarrow> DPS_SameAddr (na_addr e) d" "s' \<le> s"
  shows "list_ex (\<lambda>e. s' \<le> na_sn e \<and> DPS_SameAddr (na_addr e) d) (update_addrs True s hop a l)"
  using assms(2) by (induction l) (use assms(1,3) in \<open>auto simp: le_max_iff_disj\<close>)

text \<open>C35: A publication is not sent back where it came from: once its arrival from an address is noted,
  \<open>DPS_PublicationReceivedFrom\<close> holds for every form of that address and for its sequence number
  and all before.\<close>

theorem publication_not_returned:
  assumes "hist_ok h" "length (order h) + 1 < 2 ^ 32" "addr_ok a" "addr_ok d" "DPS_SameAddr a d"
    and "\<forall>e \<in> set (addrs (old_record h x)). addr_ok (na_addr e)" "s' \<le> s"
  shows "\<exists>h'. DPS_UpdatePubHistory True True now h x s ack ttl hop a = Some (DPS_OK, h') \<and>
    DPS_PublicationReceivedFrom h' x s' source d = Some True"
proof -
  obtain h' where h': "DPS_UpdatePubHistory True True now h x s ack ttl hop a = Some (DPS_OK, h')" "hist_ok h'"
    "recs h' = (recs h)(x \<mapsto> update_record True now s ack ttl hop a (old_record h x))" using update_ok[OF assms(1,2)] by blast
  have t: "a_type a \<noteq> DPS_UNKNOWN" using assms(3) by (auto simp: addr_ok_def)
  have "list_ex (\<lambda>e. s' \<le> na_sn e \<and> DPS_SameAddr (na_addr e) d) (update_addrs True s hop a (addrs (old_record h x)))"
    by (rule update_addrs_same) (use assms(3-7) in \<open>auto simp: SameAddr_canon\<close>)
  then have "DPS_PublicationReceivedFrom h' x s' source d = Some True"
    using t by (simp add: DPS_PublicationReceivedFrom_def find_record_ok[OF h'(2)] h'(3) update_record_def)
  then show ?thesis using h'(1) by blast
qed

theorem publication_not_returned_witness:
  "\<exists>h'. DPS_UpdatePubHistory True True 0 empty_history (UUID 1 2) 7 False 60 1 \<lparr>a_type = DPS_UDP, inaddr = AF_INET 1 0x0100007F, path = []\<rparr> =
      Some (DPS_OK, h') \<and>
    DPS_PublicationReceivedFrom h' (UUID 1 2) 6 \<lparr>a_type = DPS_UDP, inaddr = AF_INET 9 9, path = []\<rparr>
      \<lparr>a_type = DPS_UDP, inaddr = AF_INET6 1 [0, 0, 0, 0, 0, 0, 0, 0, 0, 0, 0xFF, 0xFF, 127, 0, 0, 1], path = []\<rparr> = Some True"
proof -
  let ?a = "\<lparr>a_type = DPS_UDP, inaddr = AF_INET 1 0x0100007F, path = []\<rparr>" and
    ?d = "\<lparr>a_type = DPS_UDP, inaddr = AF_INET6 1 [0, 0, 0, 0, 0, 0, 0, 0, 0, 0, 0xFF, 0xFF, 127, 0, 0, 1], path = []\<rparr>"
  have "addr_ok ?a" "addr_ok ?d" by (simp_all add: addr_ok_def)
  moreover have "DPS_SameAddr ?a ?d" by code_simp
  moreover have "addrs (old_record empty_history (UUID 1 2)) = []" by (simp add: old_record_def empty_history_def zero_record_def)
  ultimately show ?thesis
    using publication_not_returned[OF hist_ok_empty, of ?a ?d "UUID 1 2" 6 7] by (simp add: empty_history_def)
qed

lemma closer_last: "closer n l a = last (a # map na_addr (filter (\<lambda>e. na_hopCount e < n) l))"
  by (induction l arbitrary: a) auto

text \<open>An acknowledgement is sent to the address of the publication that was recorded last among those
  with fewer hops than the first one, or to the first one; it need not be the one with the fewest
  hops, as the publication recorded from three addresses shows.\<close>

theorem ack_address_choice:
  assumes "hist_ok h"
  shows "DPS_LookupPublisherForAck h x =
    Some (case recs h x of
        None \<Rightarrow> (DPS_ERR_MISSING, 0, None)
      | Some r \<Rightarrow>
          if ackRequested r \<and> addrs r \<noteq> []
          then (DPS_OK, sn r, Some (na_addr (last (hd (addrs r) # filter (\<lambda>e. na_hopCount e < na_hopCount (hd (addrs r))) (tl (addrs r))))))
          else (DPS_ERR_MISSING, 0, None))"
  by (auto simp: DPS_LookupPublisherForAck_def find_record_ok[OF assms] closer_last last_map split: option.splits list.splits bool.splits)

theorem ack_address_choice_witness:
  defines "ad i \<equiv> \<lparr>a_type = DPS_UDP, inaddr = AF_INET i 1, path = []\<rparr>"
  defines "r \<equiv> \<lparr>sn = 4, ackRequested = True, addrs = [\<lparr>na_sn = 4, na_hopCount = 5, na_addr = ad 1\<rparr>,
      \<lparr>na_sn = 4, na_hopCount = 2, na_addr = ad 2\<rparr>, \<lparr>na_sn = 4, na_hopCount = 3, na_addr = ad 3\<rparr>], expiration = 9\<rparr>"
  shows "DPS_LookupPublisherForAck \<lparr>root = Node Leaf (UUID 1 2) Leaf, order = [UUID 1 2], count = 1, recs = [UUID 1 2 \<mapsto> r]\<rparr> (UUID 1 2) =
    Some (DPS_OK, 4, Some (ad 3))"
proof -
  have "hist_ok \<lparr>root = Node Leaf (UUID 1 2) Leaf, order = [UUID 1 2], count = 1, recs = [UUID 1 2 \<mapsto> r]\<rparr>"
    by (simp add: hist_ok_def)
  from ack_address_choice[OF this] show ?thesis by (simp add: r_def)
qed

section \<open>Freeing the history\<close>

lemma free_all: "recs (fold (\<lambda>ph h. FreePubHistory h ph) l h) = recs h |` (- set l)"
  "root (fold (\<lambda>ph h. FreePubHistory h ph) l h) = root h"
  by (induction l arbitrary: h) (auto simp: FreePubHistory_def restrict_map_def fun_eq_iff)

text \<open>Everything is freed, but the tree is left in place: a lookup after \<open>DPS_HistoryFree\<close> would follow
  a pointer to a freed record.\<close>

lemma history_free_dangling:
  assumes "hist_ok h"
  shows "recs (DPS_HistoryFree h) = Map.empty"
    and "recs h x \<noteq> None \<Longrightarrow> find_record (DPS_HistoryFree h) x = None"
proof -
  show e: "recs (DPS_HistoryFree h) = Map.empty"
    using hist_ok_dom[OF assms] by (auto simp: DPS_HistoryFree_def free_all restrict_map_def fun_eq_iff domIff)
  show "find_record (DPS_HistoryFree h) x = None" if "recs h x \<noteq> None"
  proof -
    have "x \<in> set_tree (root h)" using that hist_ok_dom[OF assms] assms by (auto simp: hist_ok_def dom_def)
    then have "Find (root (DPS_HistoryFree h)) x = Some x" using assms by (simp add: DPS_HistoryFree_def free_all Find_bst hist_ok_def)
    then show ?thesis using e by (simp add: find_record_def)
  qed
qed

end
