(* ===== verification/Topics.thy ===== *)
theory Topics
  imports Bit_Vector
begin

text \<open>
  Topic strings (\<^verbatim>\<open>src/topics.c\<close>): the syntax check for wild cards, the strings a topic adds to a
  Bloom filter, and the exact match of a publication topic with a subscription topic. A C string is
  the list of its bytes before the terminating NUL, and a pointer into a string is the rest of the
  string from there. The main result is that the Bloom filter test never misses: a topic that
  matches as a string also matches in the filter.
\<close>

section \<open>Strings\<close>

definition strchr_p :: "u8 list \<Rightarrow> u8 \<Rightarrow> bool" where
  "strchr_p s c = (c = 0 \<or> c \<in> set s)"

definition strcspn :: "u8 list \<Rightarrow> u8 list \<Rightarrow> nat" where
  "strcspn s reject = length (takeWhile (\<lambda>c. c \<notin> set reject) s)"

text \<open>The byte a pointer points to\<close>

definition deref :: "u8 list \<Rightarrow> u8" where
  "deref s = (case s of [] \<Rightarrow> 0 | c # _ \<Rightarrow> c)"

definition FINAL_WILDC :: u8 where "FINAL_WILDC = 35"
definition INFIX_WILDC :: u8 where "INFIX_WILDC = 43"
definition WILDCARDS :: "u8 list" where "WILDCARDS = [43, 35]"

definition ANY_WILDC :: "u8 \<Rightarrow> bool" where
  "ANY_WILDC c = (c = FINAL_WILDC \<or> c = INFIX_WILDC)"

datatype DPS_TopicType = DPS_SubTopic | DPS_PubTopic | DPS_PubNoWild

definition DPS_MAX_TOPIC_STRLEN :: nat where "DPS_MAX_TOPIC_STRLEN = 2048"

section \<open>Operations\<close>

text \<open>The loop over the wild cards: \<open>Some\<close> is a return from inside it.\<close>

function wc_loop :: "u8 list \<Rightarrow> u8 list \<Rightarrow> u8 list \<Rightarrow> DPS_Status option" where
  "wc_loop topic separators [] = None"
| "wc_loop topic separators (c # rest) =
     (if length (c # rest) \<noteq> length topic \<and>
         \<not> strchr_p separators (topic ! (length topic - length (c # rest) - 1)) then Some DPS_ERR_INVALID
      else if rest = [] then Some (if ANY_WILDC c then DPS_OK else DPS_ERR_INVALID)
      else if c \<noteq> INFIX_WILDC then Some DPS_ERR_INVALID
      else if \<not> strchr_p separators (deref rest) then Some DPS_ERR_INVALID
      else wc_loop topic separators (drop (strcspn (tl rest) WILDCARDS) (tl rest)))"
  by pat_completeness auto
termination
  by (relation "measure (\<lambda>(topic, separators, wc). length wc)") auto

text \<open>
  The results are the status and the first wild card. \<open>None\<close> is the read in front of an empty
  topic; no caller passes one.
\<close>

definition CheckWildcarding ::
  "u8 list \<Rightarrow> u8 list \<Rightarrow> DPS_TopicType \<Rightarrow> (DPS_Status \<times> u8 list option) option" where
  "CheckWildcarding topic separators topicType =
     (let wc = drop (strcspn topic WILDCARDS) topic;
          end_ok = (if strchr_p separators (last topic) then DPS_ERR_INVALID else DPS_OK)
      in if wc \<noteq> [] then
           (if topicType \<noteq> DPS_SubTopic then Some (DPS_ERR_INVALID, None)
            else if length wc = length topic \<and> deref wc = FINAL_WILDC \<and> tl wc \<noteq> []
            then Some (DPS_ERR_INVALID, None)
            else (case wc_loop topic separators wc of
                    Some ret \<Rightarrow> Some (ret, Some wc)
                  | None \<Rightarrow> Some (end_ok, Some wc)))
         else if topic = [] then None
         else Some (end_ok, None))"

text \<open>
  The loop over the separators of a topic: the strings it inserts, the separators it collected in
  \<open>segment\<close> and whether every copy into \<open>segment\<close> succeeded.
\<close>

function add_loop :: "u8 list \<Rightarrow> DPS_TopicType \<Rightarrow> u8 list \<Rightarrow> u8 list option \<Rightarrow> u8 list \<Rightarrow> u8 list \<Rightarrow>
    u8 list list \<times> u8 list \<times> bool" where
  "add_loop separators topicType topic wc [] segment = ([], segment, True)"
| "add_loop separators topicType topic wc (c # tp) segment =
     (let segment' = segment @ [c];
          prefix = length segment';
          pre = (if topicType = DPS_PubTopic then [take (length topic - length tp) topic] else []);
          len = strcspn tp separators;
          after_wc = (case wc of None \<Rightarrow> True | Some w \<Rightarrow> length tp < length w)
      in if after_wc \<and> (deref tp \<noteq> INFIX_WILDC \<or> tl tp = []) then
           (if len > length topic - prefix then (pre, segment', False)
            else (case add_loop separators topicType topic wc (drop len tp) segment' of
                    (ins, seg, ok) \<Rightarrow> (pre @ (segment' @ take len tp @ take 1 (drop len tp)) # ins, seg, ok)))
         else (case add_loop separators topicType topic wc (drop len tp) segment' of
                 (ins, seg, ok) \<Rightarrow> (pre @ ins, seg, ok)))"
  by pat_completeness auto
termination
  by (relation "measure (\<lambda>(separators, topicType, topic, wc, tp, segment). length tp)") auto

text \<open>\<open>mem\<close> tells whether the allocation of the scratch string succeeds.\<close>

definition DPS_AddTopic ::
  "bool \<Rightarrow> (u8 list \<Rightarrow> u8 list) \<Rightarrow> Configuration \<Rightarrow> DPS_BitVector option \<Rightarrow> u8 list option \<Rightarrow> u8 list option \<Rightarrow>
   DPS_TopicType \<Rightarrow> DPS_Status \<times> DPS_BitVector option" where
  "DPS_AddTopic mem sha2 config bfp topicp separatorsp topicType =
     (case (bfp, topicp, separatorsp) of
        (Some bf, Some topic, Some separators) \<Rightarrow>
          (let tlen = min (length topic) (DPS_MAX_TOPIC_STRLEN + 1); ins = bloom_insert_all sha2 config in
           if tlen > DPS_MAX_TOPIC_STRLEN then (DPS_ERR_INVALID, bfp)
           else if strchr_p separators (deref topic) then (DPS_ERR_INVALID, bfp)
           else (case CheckWildcarding topic separators topicType of
                   None \<Rightarrow> (DPS_ERR_INVALID, bfp)
                 | Some (ret, wc) \<Rightarrow>
                     if ret \<noteq> DPS_OK then (ret, bfp)
                     else
                       (let tp = drop (strcspn topic separators) topic;
                            first = (case wc of
                                       None \<Rightarrow> [topic]
                                     | Some w \<Rightarrow> if length w = length topic then []
                                                 else [take (length topic - length w) topic])
                        in if wc = None \<and> topicType \<noteq> DPS_PubTopic then (DPS_OK, Some (ins bf first))
                           else if \<not> mem then (DPS_ERR_RESOURCES, Some (ins bf first))
                           else (case add_loop separators topicType topic wc tp [] of
                                   (mid, segment, ok) \<Rightarrow>
                                     if \<not> ok then (DPS_ERR_RESOURCES, Some (ins bf (first @ mid)))
                                     else if topicType = DPS_PubTopic then
                                       (DPS_OK, Some (ins bf (first @ mid @ [segment @ [INFIX_WILDC]] @
                                          map (\<lambda>p. take p segment @ [FINAL_WILDC]) (rev [0..<length segment + 1]))))
                                     else (DPS_OK, Some (ins bf (first @ mid)))))))
      | _ \<Rightarrow> (DPS_ERR_NULL, bfp))"

definition DPS_MatchTopic ::
  "bool \<Rightarrow> bool \<Rightarrow> (u8 list \<Rightarrow> u8 list) \<Rightarrow> Configuration \<Rightarrow> DPS_BitVector \<Rightarrow> u8 list \<Rightarrow> u8 list \<Rightarrow> bool" where
  "DPS_MatchTopic mem1 mem2 sha2 config bf topic separators =
     (case DPS_BitVectorAlloc mem1 config of
        None \<Rightarrow> False
      | Some tmp \<Rightarrow>
          (case DPS_AddTopic mem2 sha2 config (Some tmp) (Some topic) (Some separators) DPS_SubTopic of
             (ret, tmp') \<Rightarrow> if ret = DPS_OK then DPS_BitVectorIncludes (Some bf) tmp' else False))"

text \<open>
  The match of two topics, without the final comparison of what is left of the strings: the
  three outcomes are a return of success inside the loop, a mismatch, and the rests of both
  strings at the end of the loop.
\<close>

datatype match_end = Matched | Mismatch | Ended "u8 list" "u8 list"

function match_loop :: "u8 list \<Rightarrow> u8 list \<Rightarrow> u8 list \<Rightarrow> match_end" where
  "match_loop separators [] sub = Ended [] sub"
| "match_loop separators (p # pub) [] = Ended (p # pub) []"
| "match_loop separators (p # pub) (s # sub) =
     (if ANY_WILDC s then
        (let len = strcspn (p # pub) separators; pub' = drop len (p # pub) in
         if len \<noteq> 0 \<and> sub = [] \<and> s = FINAL_WILDC then Matched
         else if len \<noteq> 0 \<and> sub = [] \<and> s = INFIX_WILDC \<and> pub' = [] then Matched
         else if deref pub' \<noteq> deref sub then Mismatch
         else match_loop separators (tl pub') (tl sub))
      else if p \<noteq> s then Mismatch
      else match_loop separators pub sub)"
  by pat_completeness auto
termination
  by (relation "measure (\<lambda>(separators, pub, sub). length pub + length sub)") auto

text \<open>\<open>Inl\<close> is an error status, \<open>Inr\<close> the value of \<open>*match\<close>. Only the check of an empty topic,
  which is excluded before, could read in front of a string.\<close>

definition DPS_MatchTopicString ::
  "u8 list option \<Rightarrow> u8 list option \<Rightarrow> u8 list option \<Rightarrow> bool \<Rightarrow> bool res" where
  "DPS_MatchTopicString pubp subp sepp noWild =
     (case (pubp, subp, sepp) of
        (Some pub, Some sub, Some separators) \<Rightarrow>
          if pub = [] \<or> sub = [] \<or> separators = [] then Inl DPS_ERR_INVALID
          else (case CheckWildcarding pub separators DPS_PubTopic of
             None \<Rightarrow> Inl DPS_ERR_INVALID
           | Some (ret, _) \<Rightarrow>
               if ret \<noteq> DPS_OK then Inl ret
               else (case CheckWildcarding sub separators DPS_SubTopic of
                  None \<Rightarrow> Inl DPS_ERR_INVALID
                | Some (ret, wc) \<Rightarrow>
                    if ret \<noteq> DPS_OK then Inl ret
                    else if noWild \<and> wc \<noteq> None then Inr False
                    else (case match_loop separators pub sub of
                            Matched \<Rightarrow> Inr True
                          | Mismatch \<Rightarrow> Inr False
                          | Ended p s \<Rightarrow> Inr (p = [] \<and> s = []))))
      | _ \<Rightarrow> Inl DPS_ERR_NULL)"

text \<open>One subscription topic against all publication topics, and all subscription topics\<close>

fun match_any :: "u8 list list \<Rightarrow> u8 list \<Rightarrow> u8 list \<Rightarrow> bool \<Rightarrow> DPS_Status \<Rightarrow> DPS_Status \<times> bool" where
  "match_any [] sub separators noWild ret = (ret, False)"
| "match_any (p # pubs) sub separators noWild ret =
     (case DPS_MatchTopicString (Some p) (Some sub) (Some separators) noWild of
        Inl e \<Rightarrow> (e, False)
      | Inr ok \<Rightarrow> if ok then (DPS_OK, True) else match_any pubs sub separators noWild DPS_OK)"

fun match_all :: "u8 list list \<Rightarrow> u8 list list \<Rightarrow> u8 list \<Rightarrow> bool \<Rightarrow> DPS_Status \<Rightarrow> DPS_Status \<times> bool" where
  "match_all pubs [] separators noWild ret = (ret, True)"
| "match_all pubs (s # subs) separators noWild ret =
     (case match_any pubs s separators noWild ret of
        (ret', ok) \<Rightarrow>
          if ok then match_all pubs subs separators noWild ret'
          else (ret', False))"

text \<open>The value of \<open>*match\<close> after an error return has no meaning and is given as false.\<close>

definition DPS_MatchTopicList ::
  "u8 list list option \<Rightarrow> u8 list list option \<Rightarrow> u8 list option \<Rightarrow> bool \<Rightarrow> DPS_Status \<times> bool" where
  "DPS_MatchTopicList pubs subs separators noWild =
     (case (pubs, subs, separators) of
        (Some ps, Some ss, Some seps) \<Rightarrow> match_all ps ss seps noWild DPS_ERR_INVALID
      | _ \<Rightarrow> (DPS_ERR_NULL, False))"

section \<open>The strings a topic adds\<close>

abbreviation is_sep :: "u8 list \<Rightarrow> u8 \<Rightarrow> bool" where
  "is_sep seps c \<equiv> c \<in> set seps"

abbreviation seps_of :: "u8 list \<Rightarrow> u8 list \<Rightarrow> u8 list" where
  "seps_of seps s \<equiv> filter (is_sep seps) s"

definition first_seg :: "u8 list \<Rightarrow> u8 list \<Rightarrow> u8 list" where
  "first_seg seps s = takeWhile (\<lambda>c. c \<notin> set seps) s"

definition rest_seg :: "u8 list \<Rightarrow> u8 list \<Rightarrow> u8 list" where
  "rest_seg seps s = dropWhile (\<lambda>c. c \<notin> set seps) s"

lemma seg_split: "first_seg seps s @ rest_seg seps s = s"
  by (simp add: first_seg_def rest_seg_def)

lemma take_strcspn [simp]: "take (strcspn s seps) s = first_seg seps s" "drop (strcspn s seps) s = rest_seg seps s"
  by (simp_all add: strcspn_def first_seg_def rest_seg_def takeWhile_eq_take[symmetric] dropWhile_eq_drop[symmetric])

lemma rest_seg_cases: "rest_seg seps s = [] \<or> (\<exists>c t. rest_seg seps s = c # t \<and> is_sep seps c)"
  by (cases "rest_seg seps s") (auto simp: rest_seg_def dropWhile_eq_Cons_conv)

lemma seps_of_first_seg [simp]: "seps_of seps (first_seg seps s) = []"
  by (auto simp: first_seg_def filter_empty_conv dest: set_takeWhileD)

lemma first_seg_sep: "is_sep seps c \<Longrightarrow> c \<notin> set (first_seg seps s)"
  by (auto simp: first_seg_def dest: set_takeWhileD)

definition seg_wanted :: "u8 list option \<Rightarrow> u8 list \<Rightarrow> bool" where
  "seg_wanted wc tp \<longleftrightarrow> (case wc of None \<Rightarrow> True | Some w \<Rightarrow> length tp < length w) \<and>
     (deref tp \<noteq> INFIX_WILDC \<or> tl tp = [])"

definition loop_string :: "u8 list \<Rightarrow> DPS_TopicType \<Rightarrow> u8 list option \<Rightarrow> u8 list \<Rightarrow> u8 \<Rightarrow> u8 list \<Rightarrow> u8 list \<Rightarrow> bool" where
  "loop_string seps ty wc pre c tp x \<longleftrightarrow>
     (ty = DPS_PubTopic \<and> x = pre @ [c]) \<or>
     (seg_wanted wc tp \<and> x = seps_of seps (pre @ [c]) @ first_seg seps tp @ take 1 (rest_seg seps tp))"

text \<open>The copies into the scratch string always fit, and the loop inserts the expected strings.\<close>

lemma add_loop_strings:
  assumes "topic = pre0 @ tp0" "tp0 = [] \<or> is_sep seps (hd tp0)"
  shows "\<exists>ins. add_loop seps ty topic wc tp0 (seps_of seps pre0) = (ins, seps_of seps topic, True) \<and>
    (\<forall>x. x \<in> set ins \<longleftrightarrow> (\<exists>pre c tp. topic = pre @ c # tp \<and> is_sep seps c \<and> length pre0 \<le> length pre \<and>
        loop_string seps ty wc pre c tp x))"
  using assms
proof (induction tp0 arbitrary: pre0 rule: length_induct)
  case (1 tp0)
  show ?case
  proof (cases tp0)
    case Nil
    then show ?thesis using 1(2) by auto
  next
    case (Cons c tp)
    let ?r = "rest_seg seps tp" and ?f = "first_seg seps tp" and ?pre1 = "pre0 @ c # first_seg seps tp"
    have c: "is_sep seps c" using 1(3) Cons by simp
    have t: "topic = ?pre1 @ ?r" using 1(2) Cons seg_split[of seps tp] by simp
    have "length ?r < length tp0" using Cons by (simp add: rest_seg_def length_dropWhile_le le_imp_less_Suc)
    moreover have "?r = [] \<or> is_sep seps (hd ?r)" using rest_seg_cases[of seps tp] by auto
    ultimately obtain ins where ins: "add_loop seps ty topic wc ?r (seps_of seps ?pre1) = (ins, seps_of seps topic, True)"
      "\<forall>x. x \<in> set ins \<longleftrightarrow> (\<exists>pre c tp. topic = pre @ c # tp \<and> is_sep seps c \<and> length ?pre1 \<le> length pre \<and>
         loop_string seps ty wc pre c tp x)"
      using 1(1) t by blast
    have seg: "seps_of seps ?pre1 = seps_of seps pre0 @ [c]" using c by simp
    have fits: "\<not> strcspn tp seps > length topic - length (seps_of seps pre0 @ [c])"
    proof -
      have "length (seps_of seps pre0) \<le> length pre0" by (rule length_filter_le)
      moreover have "strcspn tp seps \<le> length tp" by (simp add: strcspn_def length_takeWhile_le)
      moreover have "length topic = length pre0 + 1 + length tp" using 1(2) Cons by simp
      ultimately show ?thesis by (simp only: length_append list.size)
    qed
    have pre: "take (length topic - length tp) topic = pre0 @ [c]" using 1(2) Cons by simp
    have splits: "(\<exists>pre d t. topic = pre @ d # t \<and> is_sep seps d \<and> length pre0 \<le> length pre \<and> Q pre d t) \<longleftrightarrow>
      Q pre0 c tp \<or> (\<exists>pre d t. topic = pre @ d # t \<and> is_sep seps d \<and> length ?pre1 \<le> length pre \<and> Q pre d t)"
      (is "?A = (_ \<or> ?B)") for Q
    proof
      assume ?A
      then obtain pre d t where s: "topic = pre @ d # t" "is_sep seps d" "length pre0 \<le> length pre" "Q pre d t" by blast
      have e: "pre0 @ c # tp = pre @ d # t" using s(1) 1(2) Cons by simp
      show "Q pre0 c tp \<or> ?B"
      proof (cases "length pre = length pre0")
        case True
        then show ?thesis using e s(4) by simp
      next
        case False
        then obtain us where us: "pre = pre0 @ us" "us \<noteq> []"
          using e s(3) by (metis append_eq_append_conv_if append_take_drop_id append.right_neutral)
        then obtain us' where us': "us = c # us'" "tp = us' @ d # t" using e by (cases us) auto
        have "length ?f \<le> length us'"
        proof (rule ccontr)
          assume "\<not> length ?f \<le> length us'"
          then have "d \<in> set ?f"
            using us'(2) seg_split[of seps tp] by (metis append_eq_append_conv_if in_set_conv_decomp not_le nth_append_length nth_mem take_eq_Nil list.set_intros(1) nth_append)
          then show False using s(2) first_seg_sep by blast
        qed
        then show ?thesis using s us us' by auto
      qed
    next
      assume "Q pre0 c tp \<or> ?B"
      then show ?A using 1(2) Cons c by fastforce
    qed
    show ?thesis
    proof (cases "seg_wanted wc tp")
      case True
      have "add_loop seps ty topic wc tp0 (seps_of seps pre0) =
        ((if ty = DPS_PubTopic then [pre0 @ [c]] else []) @
         (seps_of seps pre0 @ [c] @ ?f @ take 1 ?r) # ins, seps_of seps topic, True)"
        using True fits ins(1) pre seg unfolding Cons by (simp add: Let_def seg_wanted_def)
      then show ?thesis using ins(2) True c unfolding splits by (auto simp: loop_string_def)
    next
      case False
      have "add_loop seps ty topic wc tp0 (seps_of seps pre0) =
        ((if ty = DPS_PubTopic then [pre0 @ [c]] else []) @ ins, seps_of seps topic, True)"
        using False fits ins(1) pre seg unfolding Cons by (auto simp: Let_def seg_wanted_def)
      then show ?thesis using ins(2) False c unfolding splits by (auto simp: loop_string_def)
    qed
  qed
qed

section \<open>Alignment of a matching pair of topics\<close>

text \<open>Separators are not wild cards, and C strings hold no NUL.\<close>

definition seps_ok :: "u8 list \<Rightarrow> bool" where
  "seps_ok seps \<longleftrightarrow> 0 \<notin> set seps \<and> FINAL_WILDC \<notin> set seps \<and> INFIX_WILDC \<notin> set seps"

definition wild_ok :: "u8 list \<Rightarrow> u8 list \<Rightarrow> bool" where
  "wild_ok seps s \<longleftrightarrow> (\<forall>a w b. s = a @ w # b \<longrightarrow> ANY_WILDC w \<longrightarrow>
     (a = [] \<or> is_sep seps (last a)) \<and> (b = [] \<or> w = INFIX_WILDC \<and> is_sep seps (hd b)))"

definition matches :: "u8 list \<Rightarrow> u8 list \<Rightarrow> u8 list \<Rightarrow> bool" where
  "matches seps p s \<longleftrightarrow> match_loop seps p s \<in> {Matched, Ended [] []}"

lemma matches_simps [simp]:
  "matches seps [] s \<longleftrightarrow> s = []"
  "matches seps (p # pub) [] \<longleftrightarrow> False"
  by (simp_all add: matches_def)

lemma matches_plain: "\<not> ANY_WILDC s \<Longrightarrow> matches seps (p # pub) (s # sub) \<longleftrightarrow> p = s \<and> matches seps pub sub"
  by (simp add: matches_def)

lemma matches_wild:
  assumes "seps_ok seps" "0 \<notin> set (p # pub)" "ANY_WILDC s" "sub = [] \<or> is_sep seps (hd sub)"
    and "matches seps (p # pub) (s # sub)"
  shows "(sub = [] \<and> s = FINAL_WILDC) \<or> (sub = [] \<and> s = INFIX_WILDC \<and> rest_seg seps (p # pub) = []) \<or>
    (\<exists>c pt st. sub = c # st \<and> is_sep seps c \<and> rest_seg seps (p # pub) = c # pt \<and> matches seps pt st)"
proof -
  let ?r = "rest_seg seps (p # pub)" and ?len = "strcspn (p # pub) seps"
  have e: "drop ?len (p # pub) = ?r" by (rule take_strcspn(2))
  have ml: "match_loop seps (p # pub) (s # sub) =
    (if ?len \<noteq> 0 \<and> sub = [] \<and> s = FINAL_WILDC then Matched
     else if ?len \<noteq> 0 \<and> sub = [] \<and> s = INFIX_WILDC \<and> ?r = [] then Matched
     else if deref ?r \<noteq> deref sub then Mismatch
     else match_loop seps (tl ?r) (tl sub))"
    using assms(3) e by (simp add: Let_def)
  have r0: "?r = c # t \<Longrightarrow> is_sep seps c \<and> c \<noteq> 0" for c t
    using rest_seg_cases[of seps "p # pub"] assms(1) by (auto simp: seps_ok_def)
  have wild: "s = FINAL_WILDC \<or> s = INFIX_WILDC" using assms(3) by (auto simp: ANY_WILDC_def)
  show ?thesis
  proof (cases sub)
    case Nil
    then show ?thesis
      using assms(5) wild r0 unfolding matches_def ml
      by (cases ?r) (auto simp: deref_def split: if_splits)
  next
    case (Cons c st)
    then have c: "is_sep seps c" "c \<noteq> 0" using assms(1,4) by (auto simp: seps_ok_def)
    then show ?thesis
      using Cons assms(5) unfolding matches_def ml
      by (cases ?r) (auto simp: deref_def split: if_splits)
  qed
qed

lemma wild_ok_tl: "wild_ok seps (a @ c # s) \<Longrightarrow> is_sep seps c \<Longrightarrow> wild_ok seps s"
  unfolding wild_ok_def
proof (intro allI impI)
  fix x w b
  assume h: "\<forall>a' w b. a @ c # s = a' @ w # b \<longrightarrow> ANY_WILDC w \<longrightarrow>
     (a' = [] \<or> is_sep seps (last a')) \<and> (b = [] \<or> w = INFIX_WILDC \<and> is_sep seps (hd b))"
    and c: "is_sep seps c" and s: "s = x @ w # b" and w: "ANY_WILDC w"
  from h[rule_format, of "a @ c # x" w b] s w
  have *: "is_sep seps (last (a @ c # x))" "b = [] \<or> w = INFIX_WILDC \<and> is_sep seps (hd b)" by auto
  then show "(x = [] \<or> is_sep seps (last x)) \<and> (b = [] \<or> w = INFIX_WILDC \<and> is_sep seps (hd b))"
    by (cases "x = []") auto
qed

text \<open>Every separator of the subscription stands at a separator of the publication, with the same
  separators in front of it and matching rests behind it.\<close>

lemma match_at_sep:
  assumes "seps_ok seps" "0 \<notin> set p" "matches seps p s" "s = spre @ c # stp" "is_sep seps c"
    and "\<And>a w b. s = a @ w # b \<Longrightarrow> ANY_WILDC w \<Longrightarrow> b = [] \<or> is_sep seps (hd b)"
  shows "\<exists>ppre ptp. p = ppre @ c # ptp \<and> seps_of seps ppre = seps_of seps spre \<and> matches seps ptp stp"
  using assms
proof (induction "length p + length s" arbitrary: p s spre rule: less_induct)
  case less
  note IH = less.hyps and ok = less.prems(1) and z = less.prems(2) and m = less.prems(3)
    and s = less.prems(4) and c = less.prems(5) and w = less.prems(6)
  obtain h t where st: "s = h # t" using s by (metis append_is_Nil_conv list.discI neq_Nil_conv)
  obtain p1 pt where p: "p = p1 # pt" using m st by (cases p) auto
  show ?case
  proof (cases "ANY_WILDC h")
    case True
    then have hs: "\<not> is_sep seps h" using ok by (auto simp: ANY_WILDC_def seps_ok_def)
    have tt: "t = [] \<or> is_sep seps (hd t)" using w[of "[]" h t] st True by simp
    have "t \<noteq> []" using s st hs c by (cases spre) auto
    with matches_wild[OF ok _ True tt, of p1 pt] m z st p obtain d pt' t' where d: "t = d # t'" "is_sep seps d"
      "rest_seg seps p = d # pt'" "matches seps pt' t'" by auto
    have pe: "p = first_seg seps p @ d # pt'" using seg_split[of seps p] d(3) by simp
    obtain spre' where sp: "spre = h # spre'" "t = spre' @ c # stp" using s st hs c by (cases spre) auto
    show ?thesis
    proof (cases spre')
      case Nil
      then have "c = d" "stp = t'" using sp d by auto
      then show ?thesis using pe d sp Nil hs
        by (intro exI[of _ "first_seg seps p"] exI[of _ pt']) auto
    next
      case (Cons e spre'')
      then have t': "t' = spre'' @ c # stp" "e = d" using sp d by auto
      have l: "length pt' + length t' < length p + length s"
        using arg_cong[OF pe, of length] st d by simp
      have zz: "0 \<notin> set pt'" using z pe by (metis in_set_conv_decomp Un_iff set_append list.set_intros(2))
      obtain ppre ptp where "pt' = ppre @ c # ptp" "seps_of seps ppre = seps_of seps spre''" "matches seps ptp stp"
        using IH[OF l ok zz d(4) t'(1) c] w st d(1) by (metis append_Cons)
      then show ?thesis
        using pe d sp Cons t' hs by (intro exI[of _ "first_seg seps p @ d # ppre"] exI[of _ ptp]) auto
    qed
  next
    case False
    then have eq: "p1 = h" "matches seps pt t" using m st p matches_plain by auto
    show ?thesis
    proof (cases spre)
      case Nil
      then show ?thesis using s st p eq by (intro exI[of _ "[]"] exI[of _ pt]) auto
    next
      case (Cons e spre')
      then have t: "t = spre' @ c # stp" "e = h" using s st by auto
      have l: "length pt + length t < length p + length s" using st p by simp
      obtain ppre ptp where "pt = ppre @ c # ptp" "seps_of seps ppre = seps_of seps spre'" "matches seps ptp stp"
        using IH[OF l ok _ eq(2) t(1) c] w st z p by (metis append_Cons list.set_intros(2))
      then show ?thesis using p eq Cons t by (intro exI[of _ "h # ppre"] exI[of _ ptp]) auto
    qed
  qed
qed

lemma first_seg_Cons: "first_seg seps (c # t) = (if is_sep seps c then [] else c # first_seg seps t)"
  "rest_seg seps (c # t) = (if is_sep seps c then c # t else rest_seg seps t)"
  "first_seg seps [] = []" "rest_seg seps [] = []"
  by (simp_all add: first_seg_def rest_seg_def)

lemma sep_not_wild: "seps_ok seps \<Longrightarrow> is_sep seps c \<Longrightarrow> \<not> ANY_WILDC c"
  by (auto simp: seps_ok_def ANY_WILDC_def)

lemma match_segment:
  assumes "seps_ok seps" "matches seps p s" "\<forall>w \<in> set (first_seg seps s). \<not> ANY_WILDC w"
  shows "first_seg seps p = first_seg seps s \<and> take 1 (rest_seg seps p) = take 1 (rest_seg seps s)"
  using assms
proof (induction s arbitrary: p)
  case Nil
  then show ?case by (cases p) (auto simp: first_seg_Cons)
next
  case (Cons c t)
  obtain p1 pt where p: "p = p1 # pt" using Cons.prems(2) by (cases p) auto
  have "\<not> ANY_WILDC c"
    using Cons.prems(1,3) sep_not_wild by (cases "is_sep seps c") (auto simp: first_seg_Cons)
  then have e: "p1 = c" "matches seps pt t" using Cons.prems(2) p matches_plain by auto
  show ?case
    using Cons.IH[OF Cons.prems(1) e(2)] Cons.prems(3) p e by (auto simp: first_seg_Cons)
qed

lemma match_prefix:
  "matches seps p (v @ s) \<Longrightarrow> \<forall>c \<in> set v. \<not> ANY_WILDC c \<Longrightarrow> \<exists>p'. p = v @ p' \<and> matches seps p' s"
proof (induction v arbitrary: p)
  case (Cons c v)
  then obtain p1 pt where p: "p = p1 # pt" by (cases p) auto
  with Cons.prems have "p1 = c" "matches seps pt (v @ s)" using matches_plain by auto
  then show ?case using Cons.IH[of pt] Cons.prems(2) p by auto
qed simp

lemma strcspn_wild:
  obtains n w where "s = n @ w" "drop (strcspn s WILDCARDS) s = w" "take (strcspn s WILDCARDS) s = n"
    "\<forall>c \<in> set n. \<not> ANY_WILDC c" "w = [] \<or> ANY_WILDC (hd w)"
proof (rule that[of "first_seg WILDCARDS s" "rest_seg WILDCARDS s"])
  have mem: "is_sep WILDCARDS c \<longleftrightarrow> ANY_WILDC c" for c
    by (auto simp: WILDCARDS_def ANY_WILDC_def FINAL_WILDC_def INFIX_WILDC_def)
  show "\<forall>c \<in> set (first_seg WILDCARDS s). \<not> ANY_WILDC c"
    using mem first_seg_sep by blast
  show "rest_seg WILDCARDS s = [] \<or> ANY_WILDC (hd (rest_seg WILDCARDS s))"
    using mem rest_seg_cases[of WILDCARDS s] by auto
qed (simp_all add: seg_split)

lemma wc_loop_wild:
  assumes "seps_ok seps" "0 \<notin> set topic" "topic = pre @ wc" "wc_loop topic seps wc \<in> {None, Some DPS_OK}"
    and "wc = a @ w # b" "ANY_WILDC w"
  shows "(pre @ a = [] \<or> is_sep seps (last (pre @ a))) \<and> (b = [] \<or> w = INFIX_WILDC \<and> is_sep seps (hd b))"
  using assms
proof (induction "length wc" arbitrary: wc pre a rule: less_induct)
  case less
  note ok = less.prems(1) and z = less.prems(2) and t = less.prems(3) and l = less.prems(4)
  obtain c rest where wc: "wc = c # rest"
    using less.prems(5) by (metis append_is_Nil_conv list.discI neq_Nil_conv)
  have sp: "strchr_p seps d \<longleftrightarrow> is_sep seps d" if "d \<in> set topic" for d
    using that z by (auto simp: strchr_p_def)
  have before: "pre = [] \<or> is_sep seps (last pre)"
  proof (cases "pre = []")
    case False
    then have "topic ! (length topic - length wc - 1) = last pre" using t by (simp add: nth_append last_conv_nth)
    moreover have "last pre \<in> set topic" using False t by simp
    ultimately show ?thesis using l sp False t unfolding wc by (auto split: if_splits)
  qed simp
  show ?case
  proof (cases a)
    case Nil
    then have "w = c" "b = rest" using less.prems(5) wc by auto
    moreover have "rest = [] \<or> (c = INFIX_WILDC \<and> is_sep seps (hd rest))"
      using l t sp[of "hd rest"] unfolding wc by (cases rest) (auto simp: deref_def split: if_splits)
    ultimately show ?thesis using before Nil by simp
  next
    case (Cons c' a')
    then have r: "rest = a' @ w # b" "c' = c" using less.prems(5) wc by auto
    obtain d rest' where d: "rest = d # rest'"
      using r(1) by (metis append_is_Nil_conv list.discI neq_Nil_conv)
    have ds: "is_sep seps d"
      using l t sp[of d] d unfolding wc by (auto simp: deref_def split: if_splits)
    obtain a2 where a2: "a' = d # a2" "rest' = a2 @ w # b"
      using r d ds less.prems(6) sep_not_wild[OF ok] by (cases a') auto
    obtain n w' where n: "rest' = n @ w'" "drop (strcspn rest' WILDCARDS) rest' = w'" "\<forall>c \<in> set n. \<not> ANY_WILDC c"
      using strcspn_wild[of rest'] by metis
    have "length n \<le> length a2"
    proof (rule ccontr)
      assume "\<not> length n \<le> length a2"
      then have "w \<in> set n" using a2(2) n(1)
        by (metis append_eq_append_conv_if in_set_conv_decomp not_le nth_append_length nth_mem nth_append)
      then show False using n(3) less.prems(6) by blast
    qed
    then obtain a3 where a3: "a2 = n @ a3" "w' = a3 @ w # b"
      using append_prefixD[of a2 "w # b" n w'] a2(2) n(1) by auto
    have "wc_loop topic seps w' \<in> {None, Some DPS_OK}"
      using l d n(2) unfolding wc by (auto split: if_splits)
    moreover have "topic = (pre @ c # d # n) @ w'" using t wc d n by simp
    moreover have "length w' < length wc" using wc d n by simp
    ultimately have "(pre @ c # d # n) @ a3 = [] \<or> is_sep seps (last ((pre @ c # d # n) @ a3))"
      "b = [] \<or> w = INFIX_WILDC \<and> is_sep seps (hd b)"
      using less.hyps[of w' "pre @ c # d # n" a3] ok z a3(2) less.prems(6) by auto
    then show ?thesis using Cons r a2 a3 by simp
  qed
qed

section \<open>The filter of a publication holds the strings of a matching subscription\<close>

definition topic_strings :: "u8 list \<Rightarrow> DPS_TopicType \<Rightarrow> u8 list \<Rightarrow> u8 list option \<Rightarrow> u8 list list" where
  "topic_strings seps ty topic wc =
     (let first = (case wc of
                     None \<Rightarrow> [topic]
                   | Some w \<Rightarrow> if length w = length topic then [] else [take (length topic - length w) topic]);
          (mid, segment, ok) = add_loop seps ty topic wc (rest_seg seps topic) []
      in if wc = None \<and> ty \<noteq> DPS_PubTopic then first
         else if ty = DPS_PubTopic then
           first @ mid @ [segment @ [INFIX_WILDC]] @
             map (\<lambda>p. take p segment @ [FINAL_WILDC]) (rev [0..<length segment + 1])
         else first @ mid)"

lemma add_loop_start:
  "\<exists>ins. add_loop seps ty topic wc (rest_seg seps topic) [] = (ins, seps_of seps topic, True) \<and>
    (\<forall>x. x \<in> set ins \<longleftrightarrow> (\<exists>pre c tp. topic = pre @ c # tp \<and> is_sep seps c \<and> loop_string seps ty wc pre c tp x))"
proof -
  have "rest_seg seps topic = [] \<or> is_sep seps (hd (rest_seg seps topic))"
    using rest_seg_cases[of seps topic] by auto
  from add_loop_strings[OF seg_split[of seps topic, symmetric] this, of ty wc] obtain ins where
    i: "add_loop seps ty topic wc (rest_seg seps topic) [] = (ins, seps_of seps topic, True)"
    "\<forall>x. x \<in> set ins \<longleftrightarrow> (\<exists>pre c tp. topic = pre @ c # tp \<and> is_sep seps c \<and>
       length (first_seg seps topic) \<le> length pre \<and> loop_string seps ty wc pre c tp x)" by auto
  have "length (first_seg seps topic) \<le> length pre" if "topic = pre @ c # tp" "is_sep seps c" for pre c tp
  proof (rule ccontr)
    assume "\<not> length (first_seg seps topic) \<le> length pre"
    then have "c \<in> set (first_seg seps topic)"
      using that(1) seg_split[of seps topic] by (metis in_set_conv_decomp not_le nth_append nth_append_length nth_mem)
    then show False using that(2) first_seg_sep by blast
  qed
  then show ?thesis using i by blast
qed

lemma AddTopic_OK:
  assumes "DPS_AddTopic True sha2 config (Some bf) (Some topic) (Some seps) ty = (DPS_OK, r)"
  obtains wc where "CheckWildcarding topic seps ty = Some (DPS_OK, wc)" "topic \<noteq> []"
    "r = Some (bloom_insert_all sha2 config bf (topic_strings seps ty topic wc))"
proof -
  have ne: "topic \<noteq> []" using assms by (auto simp: DPS_AddTopic_def strchr_p_def deref_def Let_def split: if_splits)
  obtain wc where wc: "CheckWildcarding topic seps ty = Some (DPS_OK, wc)"
    using assms by (auto simp: DPS_AddTopic_def Let_def split: if_splits option.splits)
  have "r = Some (bloom_insert_all sha2 config bf (topic_strings seps ty topic wc))"
    using assms add_loop_start[of seps ty topic wc]
    by (auto simp: DPS_AddTopic_def Let_def wc topic_strings_def split: if_splits)
  then show thesis using that wc ne by blast
qed

lemma CheckWildcarding_sub:
  assumes "seps_ok seps" "0 \<notin> set topic" "CheckWildcarding topic seps DPS_SubTopic = Some (DPS_OK, wc)"
  shows "wild_ok seps topic"
    and "wc = None \<Longrightarrow> \<forall>c \<in> set topic. \<not> ANY_WILDC c"
    and "wc = Some w \<Longrightarrow> \<exists>v. topic = v @ w \<and> w \<noteq> [] \<and> ANY_WILDC (hd w) \<and> (\<forall>c \<in> set v. \<not> ANY_WILDC c)"
proof -
  obtain n w' where n: "topic = n @ w'" "drop (strcspn topic WILDCARDS) topic = w'" "\<forall>c \<in> set n. \<not> ANY_WILDC c"
    "w' = [] \<or> ANY_WILDC (hd w')" using strcspn_wild[of topic] by metis
  have w: "wc = (if w' = [] then None else Some w')"
    using assms(3) n(2) by (auto simp: CheckWildcarding_def Let_def split: if_splits option.splits)
  show "wc = None \<Longrightarrow> \<forall>c \<in> set topic. \<not> ANY_WILDC c" using w n by (auto split: if_splits)
  show "wc = Some w \<Longrightarrow> \<exists>v. topic = v @ w \<and> w \<noteq> [] \<and> ANY_WILDC (hd w) \<and> (\<forall>c \<in> set v. \<not> ANY_WILDC c)" for w
    using w n by (auto split: if_splits)
  show "wild_ok seps topic"
    unfolding wild_ok_def
  proof (intro allI impI)
    fix a x b assume t: "topic = a @ x # b" and x: "ANY_WILDC x"
    have "length n \<le> length a"
    proof (rule ccontr)
      assume "\<not> length n \<le> length a"
      then have "x \<in> set n" using t n(1) by (metis in_set_conv_decomp not_le nth_append nth_append_length nth_mem)
      then show False using n(3) x by blast
    qed
    then obtain a' where a': "a = n @ a'" "w' = a' @ x # b"
      using append_prefixD[of a "x # b" n w'] t n(1) by auto
    have "wc_loop topic seps w' \<in> {None, Some DPS_OK}"
      using assms(3) n(2) a' by (auto simp: CheckWildcarding_def Let_def split: if_splits option.splits)
    from wc_loop_wild[OF assms(1,2) n(1) this a'(2) x] a'
    show "(a = [] \<or> is_sep seps (last a)) \<and> (b = [] \<or> x = INFIX_WILDC \<and> is_sep seps (hd b))" by simp
  qed
qed

lemma pub_strings:
  assumes "wc = None"
  shows "topic \<in> set (topic_strings seps DPS_PubTopic topic wc)"
    and "topic = pre @ c # tp \<Longrightarrow> is_sep seps c \<Longrightarrow> pre @ [c] \<in> set (topic_strings seps DPS_PubTopic topic wc)"
    and "topic = pre @ c # tp \<Longrightarrow> is_sep seps c \<Longrightarrow> deref tp \<noteq> INFIX_WILDC \<Longrightarrow>
      seps_of seps (pre @ [c]) @ first_seg seps tp @ take 1 (rest_seg seps tp) \<in> set (topic_strings seps DPS_PubTopic topic wc)"
    and "seps_of seps topic @ [INFIX_WILDC] \<in> set (topic_strings seps DPS_PubTopic topic wc)"
    and "k \<le> length (seps_of seps topic) \<Longrightarrow> take k (seps_of seps topic) @ [FINAL_WILDC] \<in> set (topic_strings seps DPS_PubTopic topic wc)"
proof -
  obtain ins where i: "add_loop seps DPS_PubTopic topic wc (rest_seg seps topic) [] = (ins, seps_of seps topic, True)"
    "\<forall>x. x \<in> set ins \<longleftrightarrow> (\<exists>pre c tp. topic = pre @ c # tp \<and> is_sep seps c \<and> loop_string seps DPS_PubTopic wc pre c tp x)"
    using add_loop_start by blast
  have s: "set (topic_strings seps DPS_PubTopic topic wc) = {topic} \<union> set ins \<union> {seps_of seps topic @ [INFIX_WILDC]} \<union>
    (\<lambda>p. take p (seps_of seps topic) @ [FINAL_WILDC]) ` {0..<length (seps_of seps topic) + 1}"
  proof -
    define tails where "tails = map (\<lambda>p. take p (seps_of seps topic) @ [FINAL_WILDC]) (rev [0..<length (seps_of seps topic) + 1])"
    have "set tails = (\<lambda>p. take p (seps_of seps topic) @ [FINAL_WILDC]) ` {0..<length (seps_of seps topic) + 1}"
      unfolding tails_def set_map set_rev set_upt ..
    moreover have "topic_strings seps DPS_PubTopic topic wc = [topic] @ ins @ [seps_of seps topic @ [INFIX_WILDC]] @ tails"
      using assms i(1) unfolding topic_strings_def tails_def by simp
    ultimately show ?thesis by auto
  qed
  show "topic \<in> set (topic_strings seps DPS_PubTopic topic wc)" "seps_of seps topic @ [INFIX_WILDC] \<in> set (topic_strings seps DPS_PubTopic topic wc)"
    unfolding s by auto
  show "k \<le> length (seps_of seps topic) \<Longrightarrow> take k (seps_of seps topic) @ [FINAL_WILDC] \<in> set (topic_strings seps DPS_PubTopic topic wc)"
    unfolding s by auto
  have ins: "x \<in> set (topic_strings seps DPS_PubTopic topic wc)"
    if "topic = pre @ c # tp" "is_sep seps c" "loop_string seps DPS_PubTopic wc pre c tp x" for x
    using that i(2) unfolding s by blast
  show "topic = pre @ c # tp \<Longrightarrow> is_sep seps c \<Longrightarrow> pre @ [c] \<in> set (topic_strings seps DPS_PubTopic topic wc)"
    by (rule ins) (simp_all add: loop_string_def)
  show "topic = pre @ c # tp \<Longrightarrow> is_sep seps c \<Longrightarrow> deref tp \<noteq> INFIX_WILDC \<Longrightarrow>
      seps_of seps (pre @ [c]) @ first_seg seps tp @ take 1 (rest_seg seps tp) \<in> set (topic_strings seps DPS_PubTopic topic wc)"
    by (rule ins) (simp_all add: loop_string_def seg_wanted_def assms)
qed

lemma CheckWildcarding_pub:
  assumes "CheckWildcarding topic seps ty = Some (DPS_OK, wc)" "ty \<noteq> DPS_SubTopic"
  shows "wc = None \<and> (\<forall>c \<in> set topic. \<not> ANY_WILDC c)"
proof -
  obtain n w' where n: "topic = n @ w'" "drop (strcspn topic WILDCARDS) topic = w'" "\<forall>c \<in> set n. \<not> ANY_WILDC c"
    using strcspn_wild[of topic] by metis
  then show ?thesis
    using assms by (auto simp: CheckWildcarding_def Let_def split: if_splits)
qed

lemma sub_strings_in_pub:
  assumes ok: "seps_ok seps" "0 \<notin> set pub" "0 \<notin> set sub"
    and cp: "CheckWildcarding pub seps DPS_PubTopic = Some (DPS_OK, pw)"
    and cs: "CheckWildcarding sub seps DPS_SubTopic = Some (DPS_OK, sw)"
    and m: "matches seps pub sub"
  shows "set (topic_strings seps DPS_SubTopic sub sw) \<subseteq> set (topic_strings seps DPS_PubTopic pub pw)"
proof
  fix x assume x: "x \<in> set (topic_strings seps DPS_SubTopic sub sw)"
  note P = pub_strings[where topic=pub and seps=seps and wc=pw] and W = CheckWildcarding_sub[OF ok(1,3) cs]
  have pw: "pw = None" "\<forall>c \<in> set pub. \<not> ANY_WILDC c" using CheckWildcarding_pub[OF cp] by auto
  let ?P = "set (topic_strings seps DPS_PubTopic pub pw)"
  show "x \<in> ?P"
  proof (cases sw)
    case None
    then obtain p' where "pub = sub @ p'" "matches seps p' []" using match_prefix[of seps pub sub "[]"] m W(2) by auto
    then have "pub = sub" by (cases p') auto
    then show ?thesis using x None P(1)[OF pw(1)] by (auto simp: topic_strings_def split: prod.splits)
  next
    case (Some w)
    obtain v where v: "sub = v @ w" "w \<noteq> []" "ANY_WILDC (hd w)" "\<forall>c \<in> set v. \<not> ANY_WILDC c" using W(3)[OF Some] by blast
    consider (first) "v \<noteq> []" "x = v" | (seg) pre c tp where "sub = pre @ c # tp" "is_sep seps c" "seg_wanted sw tp"
      "x = seps_of seps (pre @ [c]) @ first_seg seps tp @ take 1 (rest_seg seps tp)"
      using x add_loop_start[of seps DPS_SubTopic sub sw] Some v(1)
      by (auto simp: topic_strings_def loop_string_def split: if_splits)
    then show ?thesis
    proof cases
      case first
      have "is_sep seps (last v)"
        using W(1) v first(1) unfolding wild_ok_def by (metis append_Nil2 hd_Cons_tl)
      moreover have ve: "v = butlast v @ [last v]" using first(1) by simp
      moreover obtain p' where "pub = v @ p'" using match_prefix[of seps pub v w] m v by auto
      ultimately have "butlast v @ [last v] \<in> ?P"
        using P(2)[OF pw(1), where pre="butlast v" and c="last v" and tp=p'] by (metis append.assoc append_Cons append_Nil)
      then show ?thesis using first ve by simp
    next
      case seg
      have follow: "b = [] \<or> is_sep seps (hd b)" if "sub = a @ y # b" "ANY_WILDC y" for a y b
        using W(1) that unfolding wild_ok_def by blast
      have "\<exists>ppre ptp. pub = ppre @ c # ptp \<and> seps_of seps ppre = seps_of seps pre \<and> matches seps ptp tp"
        by (rule match_at_sep[OF ok(1,2) m seg(1,2)]) (rule follow)
      then obtain ppre ptp where p: "pub = ppre @ c # ptp" "seps_of seps ppre = seps_of seps pre" "matches seps ptp tp"
        by blast
      have so: "seps_of seps (ppre @ [c]) = seps_of seps (pre @ [c])" using p(2) by simp
      have wt: "wild_ok seps tp" using wild_ok_tl W(1) seg(1,2) by metis
      show ?thesis
      proof (cases "ANY_WILDC (deref tp)")
        case True
        then obtain y b where tp: "tp = y # b" "ANY_WILDC y"
          by (cases tp) (auto simp: deref_def ANY_WILDC_def FINAL_WILDC_def INFIX_WILDC_def)
        have b: "b = []"
          using seg(3) tp wt unfolding seg_wanted_def wild_ok_def
          by (metis append_Nil deref_def list.sel(3) list.simps(5))
        obtain q qs where ptp: "ptp = q # qs" using p(3) tp by (cases ptp) auto
        have xs: "x = seps_of seps (ppre @ [c]) @ [y]"
          using seg(4) so tp b sep_not_wild[OF ok(1)] by (auto simp: first_seg_Cons)
        have z: "0 \<notin> set (q # qs)" using ok(2) p(1) ptp by auto
        from matches_wild[OF ok(1) z tp(2), of b] p(3) ptp tp b
        have "y = FINAL_WILDC \<or> y = INFIX_WILDC \<and> rest_seg seps ptp = []" by auto
        then show ?thesis
        proof
          assume y: "y = FINAL_WILDC"
          have "take (length (seps_of seps (ppre @ [c]))) (seps_of seps pub) = seps_of seps (ppre @ [c])"
            using p(1) seg(2) by simp
          then show ?thesis
            using P(5)[OF pw(1), where k="length (seps_of seps (ppre @ [c]))"] p(1) xs y by simp
        next
          assume y: "y = INFIX_WILDC \<and> rest_seg seps ptp = []"
          then have "ptp = first_seg seps ptp" using seg_split[of seps ptp] by simp
          then have "seps_of seps ptp = []" by (metis seps_of_first_seg)
          then have "seps_of seps pub = seps_of seps (ppre @ [c])" using p(1) by simp
          then show ?thesis using P(4)[OF pw(1)] xs y by simp
        qed
      next
        case False
        have nw: "\<forall>y \<in> set (first_seg seps tp). \<not> ANY_WILDC y"
        proof (intro ballI notI)
          fix y assume y: "y \<in> set (first_seg seps tp)" "ANY_WILDC y"
          then obtain a b where f: "first_seg seps tp = a @ y # b" by (meson split_list)
          then have tp: "tp = a @ y # (b @ rest_seg seps tp)" using seg_split[of seps tp] by simp
          then have "a = [] \<or> is_sep seps (last a)" using wt y(2) unfolding wild_ok_def by blast
          moreover have "a \<noteq> [] \<Longrightarrow> last a \<in> set (first_seg seps tp)" using f by simp
          ultimately have "a = []" using first_seg_sep by blast
          then have "deref tp = y" using tp by (cases tp) (auto simp: deref_def)
          then show False using y(2) False by simp
        qed
        note ms = match_segment[OF ok(1) p(3) nw]
        have "deref ptp \<noteq> INFIX_WILDC"
          using pw(2) p(1) by (cases ptp) (auto simp: deref_def ANY_WILDC_def INFIX_WILDC_def)
        then have "seps_of seps (ppre @ [c]) @ first_seg seps ptp @ take 1 (rest_seg seps ptp) \<in> ?P"
          using P(3)[OF pw(1) p(1) seg(2)] by blast
        then show ?thesis using ms so seg(4) by simp
      qed
    qed
  qed
qed

section \<open>Properties\<close>

lemma MatchTopicString_True:
  assumes "DPS_MatchTopicString (Some pub) (Some sub) (Some seps) noWild = Inr True"
  shows "matches seps pub sub"
    and "\<exists>pw. CheckWildcarding pub seps DPS_PubTopic = Some (DPS_OK, pw)"
    and "\<exists>sw. CheckWildcarding sub seps DPS_SubTopic = Some (DPS_OK, sw)"
  using assms
  by (auto simp: DPS_MatchTopicString_def matches_def split: if_splits option.splits match_end.splits)

lemma match_any_True:
  "match_any pubs sub seps noWild ret = (st, True) \<Longrightarrow>
   \<exists>p \<in> set pubs. DPS_MatchTopicString (Some p) (Some sub) (Some seps) noWild = Inr True"
  by (induction pubs sub seps noWild ret rule: match_any.induct) (auto split: sum.splits if_splits)

lemma match_all_True:
  "match_all pubs subs seps noWild ret = (DPS_OK, True) \<Longrightarrow> s \<in> set subs \<Longrightarrow>
   \<exists>p \<in> set pubs. DPS_MatchTopicString (Some p) (Some s) (Some seps) noWild = Inr True"
proof (induction pubs subs seps noWild ret rule: match_all.induct)
  case (2 pubs s' subs seps noWild ret)
  then show ?case by (auto split: prod.splits if_splits dest: match_any_True)
qed simp

text \<open>The topics of a publication or subscription, added one after the other as
  \<open>DPS_InitPublication\<close> and \<open>DPS_Subscribe\<close> do\<close>

fun add_topics :: "(u8 list \<Rightarrow> u8 list) \<Rightarrow> Configuration \<Rightarrow> DPS_BitVector \<Rightarrow> u8 list \<Rightarrow> DPS_TopicType \<Rightarrow> u8 list list \<Rightarrow>
    DPS_Status \<times> DPS_BitVector" where
  "add_topics sha2 config bf seps ty [] = (DPS_OK, bf)"
| "add_topics sha2 config bf seps ty (t # ts) =
     (case DPS_AddTopic True sha2 config (Some bf) (Some t) (Some seps) ty of
        (ret, bf') \<Rightarrow> if ret \<noteq> DPS_OK then (ret, the bf') else add_topics sha2 config (the bf') seps ty ts)"

lemma bloom_insert_all_append:
  "bloom_insert_all sha2 config (bloom_insert_all sha2 config bf xs) ys = bloom_insert_all sha2 config bf (xs @ ys)"
  by (simp add: bloom_insert_all_def)

lemma add_topics_strings:
  assumes "add_topics sha2 config bf seps ty ts = (DPS_OK, bf')"
  shows "\<exists>strs. bf' = bloom_insert_all sha2 config bf strs \<and>
    set strs = (\<Union>t \<in> set ts. \<Union>wc \<in> {wc. CheckWildcarding t seps ty = Some (DPS_OK, wc)}. set (topic_strings seps ty t wc)) \<and>
    (\<forall>t \<in> set ts. \<exists>wc. CheckWildcarding t seps ty = Some (DPS_OK, wc))"
  using assms
proof (induction ts arbitrary: bf)
  case Nil
  then show ?case by (intro exI[of _ "[]"]) (simp add: bloom_insert_all_def)
next
  case (Cons t ts)
  obtain r where r: "DPS_AddTopic True sha2 config (Some bf) (Some t) (Some seps) ty = (DPS_OK, r)"
    "add_topics sha2 config (the r) seps ty ts = (DPS_OK, bf')"
    using Cons.prems by (auto split: prod.splits if_splits)
  obtain wc where wc: "CheckWildcarding t seps ty = Some (DPS_OK, wc)"
    "r = Some (bloom_insert_all sha2 config bf (topic_strings seps ty t wc))"
    using AddTopic_OK[OF r(1)] by blast
  obtain strs where s: "bf' = bloom_insert_all sha2 config (the r) strs"
    "set strs = (\<Union>t \<in> set ts. \<Union>wc \<in> {wc. CheckWildcarding t seps ty = Some (DPS_OK, wc)}. set (topic_strings seps ty t wc))"
    "\<forall>t \<in> set ts. \<exists>wc. CheckWildcarding t seps ty = Some (DPS_OK, wc)"
    using Cons.IH[OF r(2)] by blast
  show ?case
    using wc s by (intro exI[of _ "topic_strings seps ty t wc @ strs"]) (auto simp: bloom_insert_all_append)
qed

text \<open>C17: No matching publication is missed in the Bloom filter: if each topic of a subscription, wild
  cards included, matches some topic of a publication as a string, then the filter built from
  the publication's topics includes the filter built from the subscription's topics.\<close>

theorem bloom_match_complete:
  assumes "seps_ok seps" "\<forall>t \<in> set pubs \<union> set subs. 0 \<notin> set t"
    and "bv_wf e" "bv_set e = {}" "0 < bv_len e" "0 < numHashes config" "subs \<noteq> []"
    and "DPS_MatchTopicList (Some pubs) (Some subs) (Some seps) noWild = (DPS_OK, True)"
    and "add_topics sha2 config e seps DPS_PubTopic pubs = (DPS_OK, pubBf)"
    and "add_topics sha2 config e seps DPS_SubTopic subs = (DPS_OK, subBf)"
  shows "DPS_BitVectorIncludes (Some pubBf) (Some subBf)"
proof -
  obtain ps where ps: "pubBf = bloom_insert_all sha2 config e ps"
    "set ps = (\<Union>t \<in> set pubs. \<Union>wc \<in> {wc. CheckWildcarding t seps DPS_PubTopic = Some (DPS_OK, wc)}. set (topic_strings seps DPS_PubTopic t wc))"
    using add_topics_strings[OF assms(9)] by blast
  obtain ss where ss: "subBf = bloom_insert_all sha2 config e ss"
    "set ss = (\<Union>t \<in> set subs. \<Union>wc \<in> {wc. CheckWildcarding t seps DPS_SubTopic = Some (DPS_OK, wc)}. set (topic_strings seps DPS_SubTopic t wc))"
    using add_topics_strings[OF assms(10)] by blast
  have mt: "\<exists>p \<in> set pubs. DPS_MatchTopicString (Some p) (Some s) (Some seps) noWild = Inr True" if "s \<in> set subs" for s
    using match_all_True[of pubs subs seps noWild DPS_ERR_INVALID s] assms(8) that by (simp add: DPS_MatchTopicList_def)
  have sub: "set ss \<subseteq> set ps"
  proof
    fix x assume "x \<in> set ss"
    then obtain s sw where s: "s \<in> set subs" "CheckWildcarding s seps DPS_SubTopic = Some (DPS_OK, sw)"
      "x \<in> set (topic_strings seps DPS_SubTopic s sw)" unfolding ss(2) by auto
    obtain p where p: "p \<in> set pubs" "DPS_MatchTopicString (Some p) (Some s) (Some seps) noWild = Inr True" using mt[OF s(1)] by blast
    obtain pw where pw: "CheckWildcarding p seps DPS_PubTopic = Some (DPS_OK, pw)" using MatchTopicString_True(2)[OF p(2)] by blast
    have "x \<in> set (topic_strings seps DPS_PubTopic p pw)"
      using sub_strings_in_pub[OF assms(1) _ _ pw s(2) MatchTopicString_True(1)[OF p(2)]] s p assms(2) by auto
    then show "x \<in> set ps" unfolding ps(2) using p(1) pw by auto
  qed
  obtain s where "s \<in> set subs" using assms(7) by (cases subs) auto
  then obtain p pw where "p \<in> set pubs" "CheckWildcarding p seps DPS_PubTopic = Some (DPS_OK, pw)"
    using mt MatchTopicString_True(2) by metis
  moreover from this have "p \<in> set (topic_strings seps DPS_PubTopic p pw)"
    using pub_strings(1) CheckWildcarding_pub by blast
  ultimately have "ps \<noteq> []" using ps(2) by (cases ps) auto
  note P = bloom_insert_all_ok[OF assms(3,5), of sha2 config ps] and S = bloom_insert_all_ok[OF assms(3,5), of sha2 config ss]
  have "bloom_set sha2 config (bv_len e) (hd ps) \<noteq> {}" using assms(6) by (simp add: bloom_set_def)
  then have "bv_set pubBf \<noteq> {}" using P ps(1) \<open>ps \<noteq> []\<close> by (metis UN_iff Un_iff empty_iff equals0I ex_in_conv list.set_sel(1))
  then show ?thesis
    using P S sub assms(4) ps(1) ss(1) bloom_set_mono[OF sub, of sha2 config "bv_len e"] by (simp add: Includes_ok)
qed

lemma rest_seg_length: "rest_seg seps s = d # st \<Longrightarrow> length st < length s"
  using arg_cong[OF seg_split[of seps s], of length] by simp

text \<open>The reference matcher: segment by segment\<close>

function seg_match :: "u8 list \<Rightarrow> u8 list \<Rightarrow> u8 list \<Rightarrow> bool" where
  "seg_match seps p s =
     (if s = [FINAL_WILDC] then first_seg seps p \<noteq> []
      else if first_seg seps s \<noteq> [INFIX_WILDC] \<and> first_seg seps p \<noteq> first_seg seps s then False
      else (case (rest_seg seps p, rest_seg seps s) of
              ([], []) \<Rightarrow> first_seg seps s = [INFIX_WILDC] \<longrightarrow> first_seg seps p \<noteq> []
            | (c # pt, d # st) \<Rightarrow> c = d \<and> seg_match seps pt st
            | _ \<Rightarrow> False))"
  by pat_completeness auto
termination
  by (relation "measure (\<lambda>(seps, p, s). length s)") (auto dest: rest_seg_length[OF sym])

declare seg_match.simps [simp del]

lemma match_prefix_iff:
  "\<forall>c \<in> set v. \<not> ANY_WILDC c \<Longrightarrow> matches seps p (v @ s) \<longleftrightarrow> (\<exists>p'. p = v @ p' \<and> matches seps p' s)"
proof (induction v arbitrary: p)
  case (Cons c v)
  then show ?case by (cases p) (auto simp: matches_plain)
qed simp

lemma first_rest_append:
  "\<forall>c \<in> set v. \<not> is_sep seps c \<Longrightarrow> r = [] \<or> is_sep seps (hd r) \<Longrightarrow> first_seg seps (v @ r) = v \<and> rest_seg seps (v @ r) = r"
  by (induction v) (cases r; auto simp: first_seg_Cons)+

lemma matches_wild_iff:
  assumes "seps_ok seps" "0 \<notin> set p" "ANY_WILDC y" "b = [] \<or> y = INFIX_WILDC \<and> is_sep seps (hd b)"
  shows "matches seps p (y # b) \<longleftrightarrow> seg_match seps p (y # b) \<and> b = [] \<or>
    (\<exists>c pt st. b = c # st \<and> rest_seg seps p = c # pt \<and> matches seps pt st)"
proof (cases p)
  case Nil
  have "\<not> is_sep seps y" using assms(1,3) sep_not_wild by blast
  then show ?thesis using Nil assms(3)
    unfolding seg_match.simps[of seps p "y # b"] by (auto simp: first_seg_Cons ANY_WILDC_def)
next
  case (Cons p1 pt)
  let ?r = "rest_seg seps p" and ?len = "strcspn p seps"
  have len: "?len = 0 \<longleftrightarrow> first_seg seps p = []" by (simp add: strcspn_def first_seg_def)
  have lr: "first_seg seps p = [] \<Longrightarrow> ?r \<noteq> []" using seg_split[of seps p] Cons by auto
  have ns: "\<not> is_sep seps y" using assms(1,3) sep_not_wild by blast
  have ne: "FINAL_WILDC \<noteq> INFIX_WILDC" by (simp add: FINAL_WILDC_def INFIX_WILDC_def)
  have ml: "match_loop seps p (y # b) =
    (if ?len \<noteq> 0 \<and> b = [] \<and> y = FINAL_WILDC then Matched
     else if ?len \<noteq> 0 \<and> b = [] \<and> y = INFIX_WILDC \<and> ?r = [] then Matched
     else if deref ?r \<noteq> deref b then Mismatch
     else match_loop seps (tl ?r) (tl b))"
    using assms(3) Cons take_strcspn(2)[of p seps] by (simp add: Let_def)
  have r0: "?r = c # t \<Longrightarrow> c \<noteq> 0" for c t
    using rest_seg_cases[of seps p] assms(1) by (auto simp: seps_ok_def)
  show ?thesis
  proof (cases b)
    case Nil
    have "y = FINAL_WILDC \<or> y = INFIX_WILDC" using assms(3) by (auto simp: ANY_WILDC_def)
    then show ?thesis
      using Nil ns ne r0 lr unfolding matches_def ml seg_match.simps[of seps p "y # b"]
      by (cases ?r) (auto simp: deref_def len first_seg_Cons split: if_splits)
  next
    case (Cons c st)
    then have "c \<noteq> 0" using assms(1,4) by (auto simp: seps_ok_def)
    then show ?thesis using Cons unfolding matches_def ml by (cases ?r) (auto simp: deref_def)
  qed
qed

lemma matches_seg_match:
  assumes "seps_ok seps" "0 \<notin> set p" "wild_ok seps s"
  shows "matches seps p s \<longleftrightarrow> seg_match seps p s"
  using assms
proof (induction "length s" arbitrary: p s rule: less_induct)
  case less
  let ?f = "first_seg seps s" and ?r = "rest_seg seps s"
  have s: "s = ?f @ ?r" using seg_split[of seps s] by simp
  have p: "p = first_seg seps p @ rest_seg seps p" using seg_split[of seps p] by simp
  have IH: "matches seps pt st \<longleftrightarrow> seg_match seps pt st" if "?r = d # st" "0 \<notin> set pt" for d pt st
  proof (rule less.hyps[OF _ less.prems(1) that(2)])
    show "length st < length s" using arg_cong[OF s, of length] that(1) by simp
    show "wild_ok seps st" using wild_ok_tl[of seps ?f d st] less.prems(3) s that(1) rest_seg_cases[of seps s] by auto
  qed
  have pt0: "0 \<notin> set pt" if "rest_seg seps p = c # pt" for c pt using less.prems(2) p that by (metis Un_iff list.set_intros(2) set_append)
  show ?case
  proof (cases "s \<noteq> [] \<and> ANY_WILDC (hd s)")
    case True
    then obtain y b where y: "s = y # b" "ANY_WILDC y" by (cases s) auto
    have b: "b = [] \<or> y = INFIX_WILDC \<and> is_sep seps (hd b)"
      using less.prems(3) y unfolding wild_ok_def by (metis append_Nil)
    have ns: "\<not> is_sep seps y" using less.prems(1) y sep_not_wild by blast
    show ?thesis
    proof (cases b)
      case Nil
      then show ?thesis using matches_wild_iff[OF less.prems(1,2) y(2) b] y(1) by simp
    next
      case (Cons c st)
      then have f: "?f = [y]" "?r = c # st" "y = INFIX_WILDC" using y ns b by (auto simp: first_seg_Cons)
      have "matches seps p s \<longleftrightarrow> (\<exists>pt. rest_seg seps p = c # pt \<and> seg_match seps pt st)"
        using matches_wild_iff[OF less.prems(1,2) y(2) b] y(1) Cons IH[OF f(2)] pt0 by auto
      then show ?thesis
        using f y Cons unfolding seg_match.simps[of seps p s] by (cases "rest_seg seps p") auto
    qed
  next
    case False
    have nw: "\<forall>c \<in> set ?f. \<not> ANY_WILDC c"
    proof (intro ballI notI)
      fix c assume c: "c \<in> set ?f" "ANY_WILDC c"
      then obtain a b where f: "?f = a @ c # b" by (meson split_list)
      then have "a = [] \<or> is_sep seps (last a)"
        using less.prems(3) c(2) s unfolding wild_ok_def by (metis append.assoc append_Cons)
      moreover have "a \<noteq> [] \<Longrightarrow> last a \<in> set ?f" using f by simp
      ultimately have "a = []" using first_seg_sep by blast
      then show False using f s c(2) False by (metis append_Cons append_Nil list.sel(1) list.discI)
    qed
    have nf: "s \<noteq> [FINAL_WILDC]" "?f \<noteq> [INFIX_WILDC]" using nw False by (auto simp: ANY_WILDC_def)
    have vf: "\<forall>c \<in> set ?f. \<not> is_sep seps c" using first_seg_sep by blast
    have "matches seps p s \<longleftrightarrow> (\<exists>p'. p = ?f @ p' \<and> matches seps p' ?r)"
      using match_prefix_iff[OF nw, of seps p ?r] s by simp
    also have "\<dots> \<longleftrightarrow> first_seg seps p = ?f \<and>
      (rest_seg seps p = [] \<and> ?r = [] \<or> (\<exists>c pt st. rest_seg seps p = c # pt \<and> ?r = c # st \<and> seg_match seps pt st))"
    proof (cases ?r)
      case Nil
      have m0: "matches seps p' [] \<longleftrightarrow> p' = []" for p' by (cases p') auto
      show ?thesis using first_rest_append[OF vf, of "[]"] p unfolding Nil m0 by (metis append_Nil2 list.distinct(1))
    next
      case (Cons d st)
      have d: "is_sep seps d" using rest_seg_cases[of seps s] Cons by auto
      have "matches seps p' (d # st) \<longleftrightarrow> (\<exists>pt. p' = d # pt \<and> matches seps pt st)" for p'
        using sep_not_wild[OF less.prems(1) d] by (cases p') (auto simp: matches_plain)
      then have "(\<exists>p'. p = ?f @ p' \<and> matches seps p' ?r) \<longleftrightarrow> (\<exists>pt. p = ?f @ d # pt \<and> matches seps pt st)"
        unfolding Cons by auto
      also have "\<dots> \<longleftrightarrow> (\<exists>pt. first_seg seps p = ?f \<and> rest_seg seps p = d # pt \<and> matches seps pt st)"
        using first_rest_append[OF vf, of "d # _"] d p by (metis list.sel(1))
      finally show ?thesis unfolding Cons using IH[OF Cons] pt0 by auto
    qed
    also have "\<dots> \<longleftrightarrow> seg_match seps p s"
      using nf unfolding seg_match.simps[of seps p s] by (cases "rest_seg seps p"; cases ?r) auto
    finally show ?thesis .
  qed
qed

text \<open>C32: The match of two topics that passes character by character over both strings decides the
  segment-wise match: equal segments, \<open>+\<close> for any one segment, which must not be empty at the
  end, and a final \<open>#\<close> for the rest when that does not start with an empty segment.\<close>

theorem topic_match_segments:
  assumes "seps_ok seps" "0 \<notin> set pub" "0 \<notin> set sub" "seps \<noteq> []" "pub \<noteq> []" "sub \<noteq> []"
    and "CheckWildcarding pub seps DPS_PubTopic = Some (DPS_OK, pw)"
    and "CheckWildcarding sub seps DPS_SubTopic = Some (DPS_OK, sw)"
  shows "DPS_MatchTopicString (Some pub) (Some sub) (Some seps) noWild =
    Inr ((noWild \<longrightarrow> sw = None) \<and> seg_match seps pub sub)"
proof -
  have "matches seps pub sub \<longleftrightarrow> seg_match seps pub sub"
    by (rule matches_seg_match[OF assms(1,2) CheckWildcarding_sub(1)[OF assms(1,3,8)]])
  then show ?thesis
    using assms(4-8)
    by (auto simp: DPS_MatchTopicString_def matches_def split: match_end.splits)
qed

text \<open>A topic that is not empty, not too long and has no separator at its ends is accepted for
  subscription and publication alike when it has no wild cards; a subscription then adds exactly
  the topic itself. With a wild card it is rejected for a publication, and the filter stays as it
  was.\<close>

theorem add_topic_plain:
  assumes "topic \<noteq> []" "length topic \<le> DPS_MAX_TOPIC_STRLEN" "0 \<notin> set topic"
    and "\<not> is_sep seps (hd topic)" "\<not> is_sep seps (last topic)"
  shows "if list_ex ANY_WILDC topic
    then DPS_AddTopic True sha2 config (Some bf) (Some topic) (Some seps) DPS_PubTopic = (DPS_ERR_INVALID, Some bf)
    else DPS_AddTopic True sha2 config (Some bf) (Some topic) (Some seps) DPS_SubTopic =
           (DPS_OK, Some (DPS_BitVectorBloomInsert sha2 config bf topic)) \<and>
         fst (DPS_AddTopic True sha2 config (Some bf) (Some topic) (Some seps) DPS_PubTopic) = DPS_OK"
proof -
  obtain n w where n: "topic = n @ w" "drop (strcspn topic WILDCARDS) topic = w" "\<forall>c \<in> set n. \<not> ANY_WILDC c"
    "w = [] \<or> ANY_WILDC (hd w)" using strcspn_wild[of topic] by metis
  have "hd topic \<in> set topic" "last topic \<in> set topic" using assms(1) by auto
  then have ends: "\<not> strchr_p seps (hd topic)" "\<not> strchr_p seps (last topic)"
    using assms(3-5) unfolding strchr_p_def by metis+
  have dt: "deref topic = hd topic" using assms(1) by (cases topic) (auto simp: deref_def)
  have w: "w \<noteq> [] \<longleftrightarrow> list_ex ANY_WILDC topic" using n by (cases w) (auto simp: list_ex_iff)
  show ?thesis
  proof (cases "w = []")
    case True
    then have "CheckWildcarding topic seps ty = Some (DPS_OK, None)" for ty
      using n(2) assms(1) ends(2) by (simp add: CheckWildcarding_def)
    then show ?thesis
      using True w ends(1) assms(2) add_loop_start[of seps DPS_PubTopic topic None]
      by (auto simp: DPS_AddTopic_def Let_def bloom_insert_all_def dt)
  next
    case False
    then show ?thesis
      using w n(2) ends(1) assms(2) by (auto simp: DPS_AddTopic_def Let_def CheckWildcarding_def dt)
  qed
qed

lemmas topic_eval = CheckWildcarding_def strcspn_def WILDCARDS_def Let_def strchr_p_def deref_def
  ANY_WILDC_def FINAL_WILDC_def INFIX_WILDC_def DPS_AddTopic_def DPS_MAX_TOPIC_STRLEN_def
  DPS_MatchTopicString_def DPS_MatchTopicList_def

theorem bloom_match_complete_witness:
  "\<exists>pubBf subBf.
     add_topics (\<lambda>d. replicate 32 (hd d)) \<lparr>bitLen = 64, numHashes = 3\<rparr> (bv64 0) [47] DPS_PubTopic [[97, 47, 98]] = (DPS_OK, pubBf) \<and>
     add_topics (\<lambda>d. replicate 32 (hd d)) \<lparr>bitLen = 64, numHashes = 3\<rparr> (bv64 0) [47] DPS_SubTopic [[97, 47, 43]] = (DPS_OK, subBf) \<and>
     DPS_BitVectorIncludes (Some pubBf) (Some subBf)"
proof -
  let ?h = "\<lambda>d. replicate 32 (hd d) :: u8 list" and ?c = "\<lparr>bitLen = 64, numHashes = 3\<rparr>"
  obtain pubBf where p: "add_topics ?h ?c (bv64 0) [47] DPS_PubTopic [[97, 47, 98]] = (DPS_OK, pubBf)"
    by (simp add: topic_eval)
  obtain subBf where s: "add_topics ?h ?c (bv64 0) [47] DPS_SubTopic [[97, 47, 43]] = (DPS_OK, subBf)"
    by (simp add: topic_eval)
  have "DPS_MatchTopicList (Some [[97, 47, 98]]) (Some [[97, 47, 43]]) (Some [47]) False = (DPS_OK, True)"
    by (simp add: topic_eval)
  then have "DPS_BitVectorIncludes (Some pubBf) (Some subBf)"
    using bloom_match_complete[of "[47]" "[[97, 47, 98]]" "[[97, 47, 43]]" "bv64 0" ?c False ?h pubBf subBf] p s
    by (simp add: seps_ok_def FINAL_WILDC_def INFIX_WILDC_def bv64_subset)
  then show ?thesis using p s by blast
qed

theorem topic_match_segments_witness:
  "DPS_MatchTopicString (Some [97, 47, 98]) (Some [97, 47, 43]) (Some [47]) False = Inr (seg_match [47] [97, 47, 98] [97, 47, 43])"
proof -
  have "CheckWildcarding [97, 47, 98] [47] DPS_PubTopic = Some (DPS_OK, None)"
    "CheckWildcarding [97, 47, 43] [47] DPS_SubTopic = Some (DPS_OK, Some [43])"
    by (simp_all add: topic_eval)
  from topic_match_segments[OF _ _ _ _ _ _ this, of False] show ?thesis
    by (simp add: seps_ok_def FINAL_WILDC_def INFIX_WILDC_def)
qed


theorem add_topic_plain_witness:
  "DPS_AddTopic True (\<lambda>d. replicate 32 0) \<lparr>bitLen = 64, numHashes = 3\<rparr> (Some (bv64 0)) (Some [97, 47, 35]) (Some [47]) DPS_PubTopic
   = (DPS_ERR_INVALID, Some (bv64 0))"
  using add_topic_plain[of "[97, 47, 35]" "[47]" "\<lambda>d. replicate 32 0" "\<lparr>bitLen = 64, numHashes = 3\<rparr>" "bv64 0"]
  by (simp add: DPS_MAX_TOPIC_STRLEN_def ANY_WILDC_def FINAL_WILDC_def)

end
