(* ===== verification/Node_State.thy ===== *)
theory Node_State
  imports Count_Vector Pub_History Topics "HOL-Library.Monad_Syntax"
begin

text \<open>
  The state of a node (\<^verbatim>\<open>src/node.h\<close>, \<^verbatim>\<open>src/pub.h\<close>, \<^verbatim>\<open>src/sub.h\<close>) and the
  operations of \<^verbatim>\<open>src/dps.c\<close> and \<^verbatim>\<open>src/sub.c\<close> on its remote nodes and interests.

  A remote node is an allocated object: the list \<open>remoteNodes\<close> holds the objects with their
  addresses, and an object that is not in the list has been freed. An operation in the \<open>option\<close> type
  returns \<open>None\<close> when the code would use a freed object or fail an assertion; the theorems show when
  this cannot happen. Bit vectors are owned by one place each and are plain values here. What the
  node does to the outside, waking the other tasks of the node, sending a message or calling the
  application, is appended to \<open>events\<close>.
\<close>

section \<open>Data\<close>

datatype RemoteNodeState =
  REMOTE_NEW | REMOTE_ACTIVE | REMOTE_LINKING | REMOTE_UNLINKING | REMOTE_MUTED | REMOTE_UNMUTING

datatype OpType = LINK_OP | UNLINK_OP

datatype SubsPendingState = SubsNonePending | SubsSendNow | SubsThrottled

datatype NodeRunState =
  DPS_NODE_CREATED | DPS_NODE_RUNNING | DPS_NODE_STOPPING | DPS_NODE_STOPPED | DPS_NODE_PAUSED

text \<open>A pending link or unlink operation; the application's callback and its data are known by the
  operation. The unlink operations of a shutdown have the internal callback \<open>OnShutdownUnlinkComplete\<close>.\<close>

record OnOpCompletion =
  c_op :: OpType
  c_addr :: DPS_NodeAddress
  c_shutdown :: bool

text \<open>A request to run on the node's thread: \<open>LinkExists\<close> for a remote node, or the end of a shutdown\<close>

datatype NodeRequest = Link_Exists nat | Shutdown_Request

record RemoteNode =
  completion :: "OnOpCompletion option"
  r_state :: RemoteNodeState
  in_revision :: u32
  in_meshId :: DPS_UUID
  in_needs :: "DPS_BitVector option"
  in_interests :: "DPS_BitVector option"
  linkRequested :: bool
  deltaInd :: bool
  sakCounter :: u8
  sendInterests :: bool
  sakPending :: bool
  lastSubMsgType :: u8
  out_revision :: u32
  out_needs :: "DPS_BitVector option"
  out_interests :: "DPS_BitVector option"
  out_delta :: "DPS_BitVector option"
  r_ep :: DPS_NetEndpoint

text \<open>A local subscription, with the part of its state the node looks at.\<close>

record DPS_Subscription =
  s_id :: nat
  s_bf :: "DPS_BitVector option"
  s_needs :: "DPS_BitVector option"
  s_topics :: "u8 list list"
  s_flags :: u8
  s_refCount :: nat

text \<open>
  A request to publish and a publication. The queue links of a request are the places of the request
  in the two queues of its publication, which are lists of the requests' identities. The topics of a
  publication are valid for as long as the list is not empty.
\<close>

type_synonym i16 = "16 word"

text \<open>A recipient or sender: the algorithm, an \<open>int8_t\<close>, and the key identifier (\<^verbatim>\<open>src/cose.h\<close>)\<close>

record COSE_Entity =
  cose_alg :: u8
  kid :: "u8 list"

definition no_entity :: COSE_Entity where "no_entity = \<lparr>cose_alg = 0, kid = []\<rparr>"

record DPS_PublishRequest =
  q_pub :: nat
  q_callback :: bool
  q_ttl :: i16
  q_expires :: u64
  q_hopCount :: u16
  q_status :: DPS_Status
  q_refCount :: nat
  q_seq :: u32
  q_bufs :: "u8 list list"

record DPS_Publication =
  p_ack :: bool
  p_handler :: bool
  p_id :: DPS_UUID
  p_bf :: "DPS_BitVector option"
  p_bfBuf :: "u8 list"
  p_topics :: "u8 list list"
  p_topicsBuf :: "u8 list"
  p_sender :: DPS_NodeAddress
  p_sendQueue :: "nat list"
  p_retainedQueue :: "nat list"
  p_flags :: u8
  p_refCount :: nat
  p_seq :: u32
  p_ttl :: i16
  p_recipients :: "COSE_Entity list"
  p_senderId :: COSE_Entity

text \<open>An acknowledgement to be sent (\<^verbatim>\<open>src/ack.h\<close>), with its serialized buffers\<close>

record PublicationAck =
  k_pub :: nat
  k_seq :: u32
  k_dest :: DPS_NodeAddress
  k_callback :: bool
  k_bufs :: "u8 list list"

text \<open>\<open>Handler\<close> is a call of the handler of a subscription, by its identity, with the identifier and
  sequence number of the publication and its data.\<close>

datatype event =
    Wake_Subs
  | Wake_Pubs
  | Wake_Free
  | Wake_Acks
  | Subs_Timer nat
  | Pubs_Timer u64
  | Sent DPS_NetEndpoint "u8 list"
  | Multicast_Sent "u8 list"
  | Handler nat DPS_UUID u32 "u8 list"
  | Ack_Handler DPS_UUID u32 "u8 list"
  | Publish_Complete nat DPS_Status
  | Ack_Complete nat DPS_Status
  | Link_Complete DPS_NodeAddress DPS_Status
  | Unlink_Complete DPS_NodeAddress
  | Link_Loss DPS_NodeAddress
  | Shutdown_Done

text \<open>
  Publications and requests are allocated objects too: \<open>pubs\<close> and \<open>reqs\<close> hold those that have not
  been freed, \<open>publications\<close> and \<open>freePubs\<close> are the two linked lists of publications. \<open>sending\<close> names the
  requests of the sends whose completion the network has not reported yet, and \<open>sendingAcks\<close> the
  acknowledgements.
\<close>

record DPS_Node =
  n_state :: NodeRunState
  subsPending :: SubsPendingState
  n_addr :: DPS_NodeAddress
  meshId :: DPS_UUID
  separators :: "u8 list"
  remoteNodes :: "(nat \<times> RemoteNode) list"
  nextRemote :: nat
  n_interests :: "DPS_CountVector option"
  n_needs :: "DPS_CountVector option"
  subscriptions :: "DPS_Subscription list"
  freeSubs :: "DPS_Subscription list"
  pubs :: "nat \<rightharpoonup> DPS_Publication"
  publications :: "nat list"
  freePubs :: "nat list"
  nextPub :: nat
  reqs :: "nat \<rightharpoonup> DPS_PublishRequest"
  nextReq :: nat
  sending :: "nat list"
  ackQueue :: "PublicationAck list"
  sendingAcks :: "PublicationAck list"
  n_signer :: COSE_Entity
  n_history :: DPS_History
  mcastSender :: bool
  netCtx :: bool
  requestQueue :: "NodeRequest list"
  onShutdown :: bool
  linkLossCB :: bool
  subsRate :: nat
  n_entropy :: entropy
  events :: "event list"

definition DPS_MaxMeshId :: DPS_UUID where "DPS_MaxMeshId = UUID (-1) (-1)"

definition emit :: "event \<Rightarrow> DPS_Node \<Rightarrow> DPS_Node" where
  "emit e node = node\<lparr>events := events node @ [e]\<rparr>"

section \<open>The list of remote nodes (src/dps.c)\<close>

definition deref_remote :: "DPS_Node \<Rightarrow> nat \<Rightarrow> RemoteNode option" where
  "deref_remote node remote = map_of (remoteNodes node) remote"

definition update_remote :: "nat \<Rightarrow> (RemoteNode \<Rightarrow> RemoteNode) \<Rightarrow> DPS_Node \<Rightarrow> DPS_Node option" where
  "update_remote remote f node =
     (if remote \<in> fst ` set (remoteNodes node)
      then Some (node\<lparr>remoteNodes := map (\<lambda>(i, r). (i, if i = remote then f r else r)) (remoteNodes node)\<rparr>)
      else None)"

definition IsValidRemoteNode :: "DPS_Node \<Rightarrow> nat \<Rightarrow> bool" where
  "IsValidRemoteNode node remote = list_ex (\<lambda>(i, r). i = remote) (remoteNodes node)"

definition InsertRemoteNode :: "DPS_Node \<Rightarrow> nat \<Rightarrow> RemoteNode \<Rightarrow> DPS_Node" where
  "InsertRemoteNode node remote r = node\<lparr>remoteNodes := (remote, r) # remoteNodes node\<rparr>"

text \<open>The loop runs into its assertion when the node is not in the list.\<close>

fun unlink_remote :: "nat \<Rightarrow> (nat \<times> RemoteNode) list \<Rightarrow> (nat \<times> RemoteNode) list option" where
  "unlink_remote remote [] = None"
| "unlink_remote remote ((i, r) # rest) =
     (if i = remote then Some rest else map_option ((#) (i, r)) (unlink_remote remote rest))"

definition RemoveRemoteNode :: "DPS_Node \<Rightarrow> nat \<Rightarrow> DPS_Node option" where
  "RemoveRemoteNode node remote =
     map_option (\<lambda>l. node\<lparr>remoteNodes := l\<rparr>) (unlink_remote remote (remoteNodes node))"

fun lookup_addr :: "DPS_NodeAddress \<Rightarrow> (nat \<times> RemoteNode) list \<Rightarrow> nat option" where
  "lookup_addr a [] = None"
| "lookup_addr a ((i, r) # rest) = (if DPS_SameAddr (addr (r_ep r)) a then Some i else lookup_addr a rest)"

definition DPS_LookupRemoteNode :: "DPS_Node \<Rightarrow> DPS_NodeAddress option \<Rightarrow> nat option" where
  "DPS_LookupRemoteNode node a =
     (case a of None \<Rightarrow> None | Some a \<Rightarrow> lookup_addr a (remoteNodes node))"

text \<open>What \<open>calloc\<close> returns for a remote node\<close>

definition zero_remote :: RemoteNode where
  "zero_remote = \<lparr>completion = None, r_state = REMOTE_NEW, in_revision = 0, in_meshId = UUID 0 0, in_needs = None,
     in_interests = None, linkRequested = False, deltaInd = False, sakCounter = 0, sendInterests = False,
     sakPending = False, lastSubMsgType = 0, out_revision = 0, out_needs = None, out_interests = None,
     out_delta = None, r_ep = \<lparr>addr = \<lparr>a_type = DPS_UNKNOWN, inaddr = AF_UNSPEC 0 0, path = []\<rparr>, cn = False\<rparr>\<rparr>"

text \<open>\<open>mem\<close> tells whether the allocation succeeds.\<close>

definition DPS_AddRemoteNode ::
  "bool \<Rightarrow> DPS_Node \<Rightarrow> DPS_NodeAddress \<Rightarrow> bool \<Rightarrow> (DPS_Status \<times> nat option \<times> DPS_Node) option" where
  "DPS_AddRemoteNode mem node a conn =
     (case DPS_LookupRemoteNode node (Some a) of
        Some remote \<Rightarrow>
          do {
            node \<leftarrow> update_remote remote
              (\<lambda>r. if \<not> cn (r_ep r) then r\<lparr>r_ep := (r_ep r)\<lparr>cn := conn\<rparr>\<rparr> else r) node;
            Some (DPS_ERR_EXISTS, Some remote, node)
          }
      | None \<Rightarrow>
          if a_type a = DPS_UNKNOWN then None
          else if \<not> mem then Some (DPS_ERR_RESOURCES, None, node)
          else
            (let remote = nextRemote node;
                 r = zero_remote\<lparr>r_ep := \<lparr>addr = a, cn = conn\<rparr>, in_meshId := DPS_MaxMeshId\<rparr>
             in Some (DPS_OK, Some remote, InsertRemoteNode (node\<lparr>nextRemote := remote + 1\<rparr>) remote r)))"

section \<open>Interests (src/dps.c, src/sub.c)\<close>

definition FreeOutboundInterests :: "RemoteNode \<Rightarrow> RemoteNode" where
  "FreeOutboundInterests remote = remote\<lparr>out_interests := None, out_needs := None\<rparr>"

text \<open>The two flags tell whether the allocations succeed.\<close>

definition DPS_ClearOutboundInterests ::
  "Configuration \<Rightarrow> bool \<Rightarrow> bool \<Rightarrow> RemoteNode \<Rightarrow> DPS_Status \<times> RemoteNode" where
  "DPS_ClearOutboundInterests config mem1 mem2 remote =
     (let i = (case out_interests remote of
                 Some v \<Rightarrow> Some (DPS_BitVectorClear v) | None \<Rightarrow> DPS_BitVectorAlloc mem1 config);
          n = (case out_needs remote of
                 Some v \<Rightarrow> Some (DPS_BitVectorClear v) | None \<Rightarrow> DPS_BitVectorAllocFH mem2);
          remote = remote\<lparr>out_interests := i, out_needs := n, deltaInd := False\<rparr>
      in if i = None \<or> n = None then (DPS_ERR_RESOURCES, FreeOutboundInterests remote) else (DPS_OK, remote))"

text \<open>Taking a vector out of a counting vector, where a failure is excluded by an assertion; a vector
  that is not there is left out.\<close>

definition cv_take :: "DPS_CountVector option \<Rightarrow> DPS_BitVector option \<Rightarrow> DPS_CountVector option option" where
  "cv_take cv v = (case DPS_CountVectorDel cv v of (ret, cv') \<Rightarrow> if ret = DPS_OK then Some cv' else None)"

definition cv_remove :: "DPS_CountVector option \<Rightarrow> DPS_BitVector option \<Rightarrow> DPS_CountVector option option" where
  "cv_remove cv v = (if v \<noteq> None then cv_take cv v else Some cv)"

definition DPS_ClearInboundInterests :: "DPS_Node \<Rightarrow> RemoteNode \<Rightarrow> (DPS_Node \<times> RemoteNode) option" where
  "DPS_ClearInboundInterests node remote =
     do {
       i \<leftarrow> cv_remove (n_interests node) (in_interests remote);
       n \<leftarrow> cv_remove (n_needs node) (in_needs remote);
       Some (node\<lparr>n_interests := i, n_needs := n\<rparr>, remote\<lparr>in_interests := None, in_needs := None\<rparr>)
     }"

text \<open>
  \<open>others cv v mem summary\<close> is the summary of the vectors in \<open>cv\<close> other than \<open>v\<close>: \<open>v\<close> is taken out,
  the summary is made and \<open>v\<close> is put back. An error of one of the counting operations is returned
  with the counting vector as it is then.
\<close>

definition others ::
  "DPS_CountVector option \<Rightarrow> DPS_BitVector option \<Rightarrow> (DPS_CountVector option \<Rightarrow> DPS_BitVector option) \<Rightarrow>
   (DPS_BitVector option) res \<times> DPS_CountVector option" where
  "others cv v summary =
     (case DPS_CountVectorDel cv v of
        (ret, cv1) \<Rightarrow>
          if ret \<noteq> DPS_OK then (Inl ret, cv1)
          else
            (let s = summary cv1 in
             case DPS_CountVectorAdd cv1 v of
               (ret, cv2) \<Rightarrow> if ret \<noteq> DPS_OK then (Inl ret, cv2) else (Inr s, cv2)))"

text \<open>
  The summaries that are announced to a remote node: the union of the interests and the
  intersection of the needs of everybody else.
\<close>

definition new_interests ::
  "bool \<Rightarrow> bool \<Rightarrow> DPS_Node \<Rightarrow> RemoteNode \<Rightarrow>
   ((DPS_BitVector option \<times> DPS_BitVector option) res \<times> DPS_Node) option" where
  "new_interests mem1 mem2 node destNode =
     (let union = DPS_CountVectorToUnion mem1;
          inter = (\<lambda>cv. case cv of None \<Rightarrow> None | Some c \<Rightarrow> DPS_CountVectorToIntersection mem2 c)
      in if in_interests destNode \<noteq> None then
           (case others (n_interests node) (in_interests destNode) union of
              (Inl e, cv) \<Rightarrow> Some (Inl e, node\<lparr>n_interests := cv\<rparr>)
            | (Inr i, cv) \<Rightarrow>
                (let node = node\<lparr>n_interests := cv\<rparr> in
                 case others (n_needs node) (in_needs destNode) inter of
                   (Inl e, cv) \<Rightarrow> Some (Inl e, node\<lparr>n_needs := cv\<rparr>)
                 | (Inr n, cv) \<Rightarrow> Some (Inr (i, n), node\<lparr>n_needs := cv\<rparr>)))
         else if in_needs destNode \<noteq> None then None
         else Some (Inr (union (n_interests node), inter (n_needs node)), node))"

text \<open>
  The delta against what was announced before, whether there are changes, and the new interests,
  whose count may have been computed on the way. The needs have to be unchanged when the interests
  are; this is an assertion, which a build with \<open>NDEBUG\<close> leaves out.
\<close>

definition outbound_delta ::
  "bool \<Rightarrow> Configuration \<Rightarrow> bool \<Rightarrow> RemoteNode \<Rightarrow> DPS_BitVector \<Rightarrow> DPS_BitVector \<Rightarrow>
   (DPS_Status \<times> bool \<times> RemoteNode \<times> DPS_BitVector option) option" where
  "outbound_delta ndebug config mem3 destNode i n =
     (case out_interests destNode of
        None \<Rightarrow> Some (DPS_OK, True, destNode\<lparr>deltaInd := False\<rparr>, Some i)
      | Some _ \<Rightarrow>
          (let d = (case out_delta destNode of None \<Rightarrow> DPS_BitVectorAlloc mem3 config | Some d \<Rightarrow> Some d) in
           if d = None then Some (DPS_ERR_RESOURCES, False, destNode, Some i)
           else
             (case DPS_BitVectorXor d (out_interests destNode) (Some i) (Some False) of
                (_, d', _, i', same) \<Rightarrow>
                  if same = Some True \<and> \<not> DPS_BitVectorEquals (out_needs destNode) (Some n) \<and> \<not> ndebug then None
                  else Some (DPS_OK, same \<noteq> Some True, destNode\<lparr>out_delta := d', deltaInd := True\<rparr>, i'))))"

text \<open>The results are the status, the node, the remote node and \<open>*changes\<close>.\<close>

definition DPS_UpdateOutboundInterests ::
  "bool \<Rightarrow> Configuration \<Rightarrow> (nat \<Rightarrow> bool) \<Rightarrow> DPS_Node \<Rightarrow> RemoteNode \<Rightarrow>
   (DPS_Status \<times> bool \<times> DPS_Node \<times> RemoteNode) option" where
  "DPS_UpdateOutboundInterests ndebug config mem node destNode =
     (if r_state destNode = REMOTE_UNLINKING then
        Some (DPS_OK, True, node, (FreeOutboundInterests destNode)\<lparr>out_revision := out_revision destNode + 1\<rparr>)
      else
        do {
          (new, node) \<leftarrow> new_interests (mem 0) (mem 1) node destNode;
          case new of
            Inl e \<Rightarrow> Some (e, False, node, destNode)
          | Inr (Some i, Some n) \<Rightarrow>
              do {
                (ret, changes, destNode, i) \<leftarrow> outbound_delta ndebug config (mem 2) destNode i n;
                if ret \<noteq> DPS_OK then Some (ret, False, node, destNode)
                else
                  (let r = (FreeOutboundInterests destNode)\<lparr>out_interests := i, out_needs := Some n\<rparr>
                   in Some (DPS_OK, changes, node, if changes then r\<lparr>out_revision := out_revision r + 1\<rparr> else r))
              }
          | _ \<Rightarrow> Some (DPS_ERR_RESOURCES, False, node, destNode)
        })"

text \<open>The vectors of a received message become the interests of the remote node, or are applied to
  them as a delta.\<close>

definition UpdateInboundInterests ::
  "DPS_Node \<Rightarrow> RemoteNode \<Rightarrow> DPS_BitVector \<Rightarrow> DPS_BitVector \<Rightarrow> bool \<Rightarrow> (DPS_Status \<times> DPS_Node \<times> RemoteNode) option" where
  "UpdateInboundInterests node remote interests needs isDelta =
     do {
       (i, node, remote) \<leftarrow>
         (case in_interests remote of
            None \<Rightarrow> Some (Some interests, node, remote)
          | Some _ \<Rightarrow>
              (let i = (if isDelta
                        then fst (snd (DPS_BitVectorXor (Some interests) (Some interests) (in_interests remote) None))
                        else Some interests)
               in do { (node, remote) \<leftarrow> DPS_ClearInboundInterests node remote; Some (i, node, remote) }));
       i \<leftarrow> i;
       (case DPS_BitVectorIsClear i of
          (clear, i) \<Rightarrow>
            if clear then Some (DPS_OK, node, remote)
            else
              Some (DPS_OK,
                node\<lparr>n_interests := snd (DPS_CountVectorAdd (n_interests node) (Some i)),
                     n_needs := snd (DPS_CountVectorAdd (n_needs node) (Some needs))\<rparr>,
                remote\<lparr>in_interests := Some i, in_needs := Some needs\<rparr>))
     }"

section \<open>Mesh identifiers (src/dps.c, src/sub.c)\<close>

fun min_mesh :: "nat option \<Rightarrow> (nat \<times> RemoteNode) list \<Rightarrow> DPS_UUID \<Rightarrow> DPS_UUID" where
  "min_mesh excluded [] minMeshId = minMeshId"
| "min_mesh excluded ((i, r) # rest) minMeshId =
     min_mesh excluded rest
       (if Some i = excluded \<or> (r_state r \<noteq> REMOTE_ACTIVE \<and> r_state r \<noteq> REMOTE_LINKING) then minMeshId
        else if DPS_UUIDCompare (in_meshId r) minMeshId < 0 then in_meshId r else minMeshId)"

definition DPS_MinMeshId :: "DPS_Node \<Rightarrow> nat option \<Rightarrow> DPS_UUID" where
  "DPS_MinMeshId node excluded = min_mesh excluded (remoteNodes node) (meshId node)"

definition MeshHasLoop :: "DPS_Node \<Rightarrow> nat \<Rightarrow> DPS_UUID \<Rightarrow> bool option" where
  "MeshHasLoop node src m =
     do {
       r \<leftarrow> deref_remote node src;
       Some (if DPS_UUIDCompare (in_meshId r) m = 0 then False
             else DPS_UUIDCompare m (DPS_MinMeshId node (Some src)) = 0)
     }"

definition DPS_MuteRemoteNode :: "DPS_Node \<Rightarrow> nat \<Rightarrow> RemoteNodeState \<Rightarrow> (DPS_Status \<times> DPS_Node) option" where
  "DPS_MuteRemoteNode node remote newState =
     do {
       r \<leftarrow> deref_remote node remote;
       if r_state r = REMOTE_MUTED \<or> r_state r = REMOTE_UNLINKING then Some (DPS_OK, node)
       else
         do {
           node \<leftarrow> RemoveRemoteNode node remote;
           Some (DPS_OK, InsertRemoteNode node remote
             ((FreeOutboundInterests (r\<lparr>r_state := newState\<rparr>))\<lparr>sendInterests := False\<rparr>))
         }
     }"

section \<open>Waking the tasks of the node (src/dps.c)\<close>

definition DPS_UpdateSubs :: "DPS_Node \<Rightarrow> SubsPendingState \<Rightarrow> DPS_Node" where
  "DPS_UpdateSubs node pending =
     (if n_state node = DPS_NODE_RUNNING then
        emit Wake_Subs (node\<lparr>subsPending :=
          (if subsPending node \<noteq> SubsSendNow \<and> pending = SubsThrottled then SubsThrottled else SubsSendNow)\<rparr>)
      else node)"

section \<open>Deleting a remote node (src/dps.c)\<close>

definition OnShutdown :: "DPS_Node \<Rightarrow> DPS_Node" where
  "OnShutdown node =
     (if onShutdown node \<and> remoteNodes node = [] then emit Shutdown_Done (node\<lparr>onShutdown := False\<rparr>) else node)"

definition call_completion :: "OnOpCompletion \<Rightarrow> DPS_Status \<Rightarrow> DPS_Node \<Rightarrow> DPS_Node" where
  "call_completion c status node =
     (if c_shutdown c then OnShutdown node
      else emit (case c_op c of LINK_OP \<Rightarrow> Link_Complete (c_addr c) status | UNLINK_OP \<Rightarrow> Unlink_Complete (c_addr c)) node)"

text \<open>The completion of a remote node has at most one request in the queue.\<close>

definition cancel_request :: "nat \<Rightarrow> DPS_Node \<Rightarrow> DPS_Node" where
  "cancel_request remote node = node\<lparr>requestQueue := remove1 (Link_Exists remote) (requestQueue node)\<rparr>"

text \<open>\<open>RemoteCompletion\<close> for the completion of a remote node that has been cleared\<close>

definition detached_completion :: "nat \<Rightarrow> OnOpCompletion \<Rightarrow> DPS_Status \<Rightarrow> DPS_Node \<Rightarrow> DPS_Node" where
  "detached_completion remote c status node =
     (let node = call_completion c status (cancel_request remote node)
      in if onShutdown node then OnShutdown node else node)"

definition DPS_DeleteRemoteNode :: "DPS_Node \<Rightarrow> nat \<Rightarrow> DPS_Node option" where
  "DPS_DeleteRemoteNode node remote =
     (if \<not> IsValidRemoteNode node remote then Some node
      else
        do {
          r \<leftarrow> deref_remote node remote;
          node \<leftarrow> RemoveRemoteNode node remote;
          (node, r) \<leftarrow> DPS_ClearInboundInterests node r;
          Some (case completion r of
                  Some c \<Rightarrow> detached_completion remote c DPS_ERR_MISSING node
                | None \<Rightarrow> if linkRequested r \<and> linkLossCB node then emit (Link_Loss (addr (r_ep r))) node else node)
        })"

definition DPS_SendComplete :: "DPS_Node \<Rightarrow> DPS_NodeAddress option \<Rightarrow> DPS_Status \<Rightarrow> DPS_Node option" where
  "DPS_SendComplete node a status =
     (if a \<noteq> None \<and> status \<noteq> DPS_OK then
        (case DPS_LookupRemoteNode node a of
           Some remote \<Rightarrow> DPS_DeleteRemoteNode node remote
         | None \<Rightarrow> Some node)
      else Some node)"

section \<open>Local subscriptions (src/sub.c)\<close>

definition SUB_FLAG_WAS_FREED :: u8 where "SUB_FLAG_WAS_FREED = 0x01"
definition SUB_FLAG_EXPIRED :: u8 where "SUB_FLAG_EXPIRED = 0x02"
definition SUB_FLAG_SERIALIZE :: u8 where "SUB_FLAG_SERIALIZE = 0x04"

text \<open>The topics are added to the filter one by one.\<close>

fun add_sub_topics ::
  "bool \<Rightarrow> (u8 list \<Rightarrow> u8 list) \<Rightarrow> Configuration \<Rightarrow> u8 list \<Rightarrow> DPS_BitVector \<Rightarrow> u8 list list \<Rightarrow> DPS_Status \<times> DPS_BitVector option" where
  "add_sub_topics mem3 sha2 config seps bf [] = (DPS_OK, Some bf)"
| "add_sub_topics mem3 sha2 config seps bf (t # ts) =
     (case DPS_AddTopic mem3 sha2 config (Some bf) (Some t) (Some seps) DPS_SubTopic of
        (ret, Some bf) \<Rightarrow> if ret = DPS_OK then add_sub_topics mem3 sha2 config seps bf ts else (ret, Some bf)
      | (ret, None) \<Rightarrow> (ret, None))"

text \<open>
  Subscribing a subscription of a started node. \<open>mem1\<close>, \<open>mem2\<close> and \<open>mem3\<close> tell whether the two vectors
  and the buffer for topic segments can be allocated. On an error before the subscription is linked
  the vectors stay with the caller's object, which is not part of the node.
\<close>

definition DPS_Subscribe ::
  "(u8 list \<Rightarrow> u8 list) \<Rightarrow> Configuration \<Rightarrow> bool \<Rightarrow> bool \<Rightarrow> bool \<Rightarrow> DPS_Node \<Rightarrow> DPS_Subscription \<Rightarrow> DPS_Status \<times> DPS_Node" where
  "DPS_Subscribe sha2 config mem1 mem2 mem3 node sub =
     (case (DPS_BitVectorAlloc mem1 config, DPS_BitVectorAllocFH mem2) of
        (Some bf, Some needs) \<Rightarrow>
          (case add_sub_topics mem3 sha2 config (separators node) bf (s_topics sub) of
             (ret, bf) \<Rightarrow>
               if ret \<noteq> DPS_OK then (ret, node)
               else
                 (case DPS_BitVectorFuzzyHash (Some needs) bf of
                    (_, needs, bf) \<Rightarrow>
                      (let sub = sub\<lparr>s_bf := bf, s_needs := needs\<rparr>;
                           node = node\<lparr>subscriptions := sub # subscriptions node\<rparr>
                       in case DPS_CountVectorAdd (n_interests node) bf of
                            (ret, cv) \<Rightarrow>
                              (let node = node\<lparr>n_interests := cv\<rparr> in
                               if ret \<noteq> DPS_OK then (ret, node)
                               else
                                 (case DPS_CountVectorAdd (n_needs node) needs of
                                    (ret, cv) \<Rightarrow>
                                      (let node = node\<lparr>n_needs := cv\<rparr> in
                                       (ret, if ret = DPS_OK then DPS_UpdateSubs node SubsSendNow else node)))))))
      | _ \<Rightarrow> (DPS_ERR_RESOURCES, node))"

definition FreeSubscription :: "DPS_Node \<Rightarrow> DPS_Subscription \<Rightarrow> DPS_Node option" where
  "FreeSubscription node sub =
     do {
       node \<leftarrow>
         (if s_flags sub AND SUB_FLAG_WAS_FREED = 0 then
            do {
              node \<leftarrow>
                (if sub \<in> set (subscriptions node) then
                   do {
                     i \<leftarrow> cv_take (n_interests node) (s_bf sub);
                     n \<leftarrow> cv_take (n_needs node) (s_needs sub);
                     Some (node\<lparr>subscriptions := remove1 sub (subscriptions node), n_interests := i, n_needs := n\<rparr>)
                   }
                 else Some node);
              Some (node\<lparr>freeSubs := sub\<lparr>s_flags := SUB_FLAG_WAS_FREED\<rparr> # freeSubs node\<rparr>)
            }
          else Some node);
       Some (if s_refCount sub = 0 then emit Wake_Free node else node)
     }"

definition DPS_DestroySubscription :: "DPS_Node \<Rightarrow> DPS_Subscription \<Rightarrow> (DPS_Status \<times> DPS_Node) option" where
  "DPS_DestroySubscription node sub =
     (if sub \<notin> set (subscriptions node) then Some (DPS_ERR_MISSING, node)
      else
        do {
          node \<leftarrow> FreeSubscription node sub;
          Some (DPS_OK, DPS_UpdateSubs node SubsSendNow)
        })"

section \<open>The vectors a node counts\<close>

fun olist :: "'a option \<Rightarrow> 'a list" where
  "olist None = []"
| "olist (Some x) = [x]"

definition interest_vectors :: "DPS_Node \<Rightarrow> DPS_BitVector list" where
  "interest_vectors node =
     concat (map (\<lambda>s. olist (s_bf s)) (subscriptions node)) @ concat (map (\<lambda>(i, r). olist (in_interests r)) (remoteNodes node))"

definition needs_vectors :: "DPS_Node \<Rightarrow> DPS_BitVector list" where
  "needs_vectors node =
     concat (map (\<lambda>s. olist (s_needs s)) (subscriptions node)) @ concat (map (\<lambda>(i, r). olist (in_needs r)) (remoteNodes node))"

text \<open>The counting vectors of the node count exactly the vectors of these two lists.\<close>

definition counts_ok :: "Configuration \<Rightarrow> DPS_Node \<Rightarrow> DPS_BitVector list \<Rightarrow> DPS_BitVector list \<Rightarrow> bool" where
  "counts_ok config node vs ws \<longleftrightarrow>
     (\<exists>cv. n_interests node = Some cv \<and> int_rep (bitLen config) cv (image_mset bv_set (mset vs))) \<and>
     (\<exists>cw. n_needs node = Some cw \<and> need_rep FH_BITVECTOR_LEN cw (image_mset bv_set (mset ws))) \<and>
     (\<forall>v \<in> set vs. bv_ok (bitLen config) v) \<and> (\<forall>w \<in> set ws. bv_ok FH_BITVECTOR_LEN w)"

definition remote_ok :: "RemoteNode \<Rightarrow> bool" where
  "remote_ok r \<longleftrightarrow> (in_interests r = None \<longleftrightarrow> in_needs r = None)"

definition node_inv :: "Configuration \<Rightarrow> DPS_Node \<Rightarrow> bool" where
  "node_inv config node \<longleftrightarrow>
     counts_ok config node (interest_vectors node) (needs_vectors node) \<and>
     distinct (map fst (remoteNodes node)) \<and> (\<forall>(i, r) \<in> set (remoteNodes node). i < nextRemote node \<and> remote_ok r) \<and>
     (\<forall>s \<in> set (subscriptions node). s_bf s \<noteq> None \<and> s_needs s \<noteq> None)"

lemma counts_ok_perm:
  "counts_ok config node vs ws \<Longrightarrow> mset vs' = mset vs \<Longrightarrow> mset ws' = mset ws \<Longrightarrow> counts_ok config node vs' ws'"
  unfolding counts_ok_def by (metis set_mset_mset)

lemma counts_ok_cong:
  "n_interests node' = n_interests node \<Longrightarrow> n_needs node' = n_needs node \<Longrightarrow>
   counts_ok config node' vs ws \<longleftrightarrow> counts_ok config node vs ws"
  by (simp add: counts_ok_def)

text \<open>Taking out and adding a vector\<close>

lemma take_interest:
  assumes "counts_ok config node (v # vs) ws"
  shows "\<exists>cv'. cv_take (n_interests node) (Some v) = Some (Some cv') \<and>
    counts_ok config (node\<lparr>n_interests := Some cv'\<rparr>) vs ws \<and>
    DPS_CountVectorDel (n_interests node) (Some v) = (DPS_OK, Some cv')"
proof -
  obtain cv where cv: "n_interests node = Some cv" "int_rep (bitLen config) cv (image_mset bv_set (mset (v # vs)))" "bv_ok (bitLen config) v"
    using assms by (auto simp: counts_ok_def)
  then have "cv_rep cv (image_mset bv_set (mset (v # vs)))" "cv_len cv = bitLen config" "bvUnion cv \<noteq> None" by (auto simp: int_rep_def)
  note d = cv_del_rep[OF this(1), of v]
  have "DPS_CountVectorDel (Some cv) (Some v) = (DPS_OK, Some (cv_del cv v))" "int_rep (bitLen config) (cv_del cv v) (image_mset bv_set (mset vs))"
    using d cv \<open>cv_len cv = bitLen config\<close> \<open>bvUnion cv \<noteq> None\<close> by (auto simp: int_rep_def)
  then show ?thesis using assms cv(1) by (auto simp: counts_ok_def cv_take_def)
qed

lemma take_need:
  assumes "counts_ok config node vs (w # ws)"
  shows "\<exists>cw'. cv_take (n_needs node) (Some w) = Some (Some cw') \<and>
    counts_ok config (node\<lparr>n_needs := Some cw'\<rparr>) vs ws \<and>
    DPS_CountVectorDel (n_needs node) (Some w) = (DPS_OK, Some cw')"
proof -
  obtain cw where cw: "n_needs node = Some cw" "need_rep FH_BITVECTOR_LEN cw (image_mset bv_set (mset (w # ws)))" "bv_ok FH_BITVECTOR_LEN w"
    using assms by (auto simp: counts_ok_def)
  then have "cv_rep cw (image_mset bv_set (mset (w # ws)))" "cv_len cw = FH_BITVECTOR_LEN" by (auto simp: need_rep_def)
  note d = cv_del_rep[OF this(1), of w]
  have "DPS_CountVectorDel (Some cw) (Some w) = (DPS_OK, Some (cv_del cw w))" "need_rep FH_BITVECTOR_LEN (cv_del cw w) (image_mset bv_set (mset ws))"
    using d cw \<open>cv_len cw = FH_BITVECTOR_LEN\<close> by (auto simp: need_rep_def)
  then show ?thesis using assms cw(1) by (auto simp: counts_ok_def cv_take_def)
qed

lemma add_interest:
  assumes "counts_ok config node vs ws" "bv_ok (bitLen config) v" "length vs < CV_MAX"
  shows "\<exists>cv'. DPS_CountVectorAdd (n_interests node) (Some v) = (DPS_OK, Some cv') \<and>
    counts_ok config (node\<lparr>n_interests := Some cv'\<rparr>) (v # vs) ws"
proof -
  obtain cv where cv: "n_interests node = Some cv" "int_rep (bitLen config) cv (image_mset bv_set (mset vs))"
    using assms(1) by (auto simp: counts_ok_def)
  then have r: "cv_rep cv (image_mset bv_set (mset vs))" "cv_len cv = bitLen config" "bvUnion cv \<noteq> None" by (auto simp: int_rep_def)
  note d = cv_add_rep[OF r(1), of v]
  have "DPS_CountVectorAdd (Some cv) (Some v) = (DPS_OK, Some (cv_add cv v))" "int_rep (bitLen config) (cv_add cv v) (image_mset bv_set (mset (v # vs)))"
    using d r assms(2,3) by (auto simp: int_rep_def)
  then show ?thesis using assms(1,2) cv(1) by (auto simp: counts_ok_def)
qed

lemma add_need:
  assumes "counts_ok config node vs ws" "bv_ok FH_BITVECTOR_LEN w" "length ws < CV_MAX"
  shows "\<exists>cw'. DPS_CountVectorAdd (n_needs node) (Some w) = (DPS_OK, Some cw') \<and>
    counts_ok config (node\<lparr>n_needs := Some cw'\<rparr>) vs (w # ws)"
proof -
  obtain cw where cw: "n_needs node = Some cw" "need_rep FH_BITVECTOR_LEN cw (image_mset bv_set (mset ws))"
    using assms(1) by (auto simp: counts_ok_def)
  then have r: "cv_rep cw (image_mset bv_set (mset ws))" "cv_len cw = FH_BITVECTOR_LEN" by (auto simp: need_rep_def)
  note d = cv_add_rep[OF r(1), of w]
  have "DPS_CountVectorAdd (Some cw) (Some w) = (DPS_OK, Some (cv_add cw w))" "need_rep FH_BITVECTOR_LEN (cv_add cw w) (image_mset bv_set (mset (w # ws)))"
    using d r assms(2,3) by (auto simp: need_rep_def)
  then show ?thesis using assms(1,2) cw(1) by (auto simp: counts_ok_def)
qed

lemma clear_inbound_ok:
  assumes "counts_ok config node (olist (in_interests r) @ vs) (olist (in_needs r) @ ws)"
  shows "\<exists>cv cw. DPS_ClearInboundInterests node r =
      Some (node\<lparr>n_interests := cv, n_needs := cw\<rparr>, r\<lparr>in_interests := None, in_needs := None\<rparr>) \<and>
    counts_ok config (node\<lparr>n_interests := cv, n_needs := cw\<rparr>) vs ws"
proof -
  have "\<exists>cv. cv_remove (n_interests node) (in_interests r) = Some cv \<and> counts_ok config (node\<lparr>n_interests := cv\<rparr>) vs (olist (in_needs r) @ ws)"
  proof (cases "in_interests r")
    case None
    then show ?thesis using assms by (simp add: cv_remove_def)
  next
    case (Some v)
    then show ?thesis using take_interest[of config node v vs "olist (in_needs r) @ ws"] assms by (auto simp: cv_remove_def)
  qed
  then obtain cv where cv: "cv_remove (n_interests node) (in_interests r) = Some cv"
    "counts_ok config (node\<lparr>n_interests := cv\<rparr>) vs (olist (in_needs r) @ ws)" by blast
  have "\<exists>cw. cv_remove (n_needs node) (in_needs r) = Some cw \<and> counts_ok config (node\<lparr>n_interests := cv, n_needs := cw\<rparr>) vs ws"
  proof (cases "in_needs r")
    case None
    then show ?thesis using cv(2) by (simp add: cv_remove_def)
  next
    case (Some w)
    then show ?thesis using take_need[of config "node\<lparr>n_interests := cv\<rparr>" vs w ws] cv(2) by (auto simp: cv_remove_def)
  qed
  then obtain cw where "cv_remove (n_needs node) (in_needs r) = Some cw" "counts_ok config (node\<lparr>n_interests := cv, n_needs := cw\<rparr>) vs ws"
    by blast
  then show ?thesis using cv(1) by (intro exI[of _ cv] exI[of _ cw]) (simp add: DPS_ClearInboundInterests_def)
qed


section \<open>The list of remote nodes\<close>

text \<open>The list around the remote node \<open>i\<close>\<close>

lemma remote_split:
  assumes "distinct (map fst (remoteNodes node))" "deref_remote node i = Some r"
  shows "\<exists>xs ys. remoteNodes node = xs @ (i, r) # ys \<and> i \<notin> fst ` set (xs @ ys)"
proof -
  have "(i, r) \<in> set (remoteNodes node)" using assms(2) by (auto simp: deref_remote_def dest: map_of_SomeD)
  then obtain xs ys where "remoteNodes node = xs @ (i, r) # ys" by (auto simp: in_set_conv_decomp)
  then show ?thesis using assms(1) by (intro exI[of _ xs] exI[of _ ys]) auto
qed

lemma unlink_split: "i \<notin> fst ` set xs \<Longrightarrow> unlink_remote i (xs @ (i, r) # ys) = Some (xs @ ys)"
  by (induction xs) auto

lemma update_split:
  assumes "remoteNodes node = xs @ (i, r) # ys" "i \<notin> fst ` set (xs @ ys)"
  shows "update_remote i f node = Some (node\<lparr>remoteNodes := xs @ (i, f r) # ys\<rparr>)"
proof -
  have "map (\<lambda>(j, r). (j, if j = i then f r else r)) zs = zs" if "i \<notin> fst ` set zs" for zs
    using that by (induction zs) auto
  then show ?thesis using assms by (simp add: update_remote_def image_Un)
qed

lemma deref_split: "remoteNodes node = xs @ (i, r) # ys \<Longrightarrow> i \<notin> fst ` set xs \<Longrightarrow> deref_remote node i = Some r"
  using map_of_eq_None_iff[of xs i] by (simp add: deref_remote_def map_add_def)

lemma valid_deref: "IsValidRemoteNode node i \<longleftrightarrow> deref_remote node i \<noteq> None"
  by (force simp: IsValidRemoteNode_def deref_remote_def list_ex_iff map_of_eq_None_iff image_iff)

lemma vectors_split:
  assumes "remoteNodes node = xs @ (i, r) # ys"
  shows "mset (interest_vectors node) =
      mset (olist (in_interests r)) + mset (interest_vectors (node\<lparr>remoteNodes := xs @ ys\<rparr>))"
    and "mset (needs_vectors node) =
      mset (olist (in_needs r)) + mset (needs_vectors (node\<lparr>remoteNodes := xs @ ys\<rparr>))"
  using assms by (simp_all add: interest_vectors_def needs_vectors_def)

text \<open>The events, and whatever else is not counted, do not matter for the invariant.\<close>

lemma node_inv_emit [simp]: "node_inv config (emit e node) \<longleftrightarrow> node_inv config node"
  by (simp add: node_inv_def counts_ok_def emit_def interest_vectors_def needs_vectors_def)

lemma node_inv_shutdown [simp]: "node_inv config (node\<lparr>onShutdown := b\<rparr>) \<longleftrightarrow> node_inv config node"
  by (simp add: node_inv_def counts_ok_def interest_vectors_def needs_vectors_def)

lemma node_inv_OnShutdown [simp]: "node_inv config (OnShutdown node) \<longleftrightarrow> node_inv config node"
  by (simp add: OnShutdown_def)

lemma node_inv_cancel [simp]: "node_inv config (cancel_request i node) \<longleftrightarrow> node_inv config node"
  by (simp add: node_inv_def counts_ok_def cancel_request_def interest_vectors_def needs_vectors_def)

lemma node_inv_detached [simp]: "node_inv config (detached_completion i c st node) \<longleftrightarrow> node_inv config node"
  by (simp add: detached_completion_def Let_def call_completion_def)

lemma node_inv_UpdateSubs [simp]: "node_inv config (DPS_UpdateSubs node p) \<longleftrightarrow> node_inv config node"
  by (simp add: node_inv_def counts_ok_def DPS_UpdateSubs_def emit_def interest_vectors_def needs_vectors_def)

text \<open>Replacing a remote node by one with the same inbound vectors\<close>

lemma node_inv_update:
  assumes "node_inv config node" "deref_remote node i = Some r" "in_interests r' = in_interests r" "in_needs r' = in_needs r"
  shows "\<exists>node'. update_remote i (\<lambda>_. r') node = Some node' \<and> node_inv config node' \<and> deref_remote node' i = Some r'"
proof -
  obtain xs ys where s: "remoteNodes node = xs @ (i, r) # ys" "i \<notin> fst ` set (xs @ ys)"
    using remote_split[OF _ assms(2)] assms(1) by (auto simp: node_inv_def)
  let ?n = "node\<lparr>remoteNodes := xs @ (i, r') # ys\<rparr>"
  have "interest_vectors ?n = interest_vectors node" "needs_vectors ?n = needs_vectors node"
    using s(1) assms(3,4) by (simp_all add: interest_vectors_def needs_vectors_def)
  moreover have "remote_ok r' \<longleftrightarrow> remote_ok r" using assms(3,4) by (simp add: remote_ok_def)
  ultimately have "node_inv config ?n"
    using assms(1) s by (auto simp: node_inv_def counts_ok_def)
  moreover have "deref_remote ?n i = Some r'" by (rule deref_split) (use s(2) in auto)
  ultimately show ?thesis using update_split[OF s] by auto
qed

lemma delete_remote_ok:
  assumes "node_inv config node"
  shows "\<exists>node'. DPS_DeleteRemoteNode node i = Some node' \<and> node_inv config node' \<and>
    remoteNodes node' = filter (\<lambda>p. fst p \<noteq> i) (remoteNodes node) \<and> subscriptions node' = subscriptions node"
proof (cases "deref_remote node i")
  case None
  then have "\<forall>p \<in> set (remoteNodes node). fst p \<noteq> i" by (auto simp: deref_remote_def map_of_eq_None_iff)
  then have "filter (\<lambda>p. fst p \<noteq> i) (remoteNodes node) = remoteNodes node" by (simp add: filter_id_conv)
  then show ?thesis using None assms by (simp add: DPS_DeleteRemoteNode_def valid_deref)
next
  case (Some r)
  obtain xs ys where s: "remoteNodes node = xs @ (i, r) # ys" "i \<notin> fst ` set (xs @ ys)"
    using remote_split[OF _ Some] assms by (auto simp: node_inv_def)
  let ?n = "node\<lparr>remoteNodes := xs @ ys\<rparr>"
  have rm: "RemoveRemoteNode node i = Some ?n" using s unlink_split[of i xs r ys] by (auto simp: RemoveRemoteNode_def)
  have "counts_ok config node (interest_vectors node) (needs_vectors node)" using assms by (simp add: node_inv_def)
  then have "counts_ok config ?n (olist (in_interests r) @ interest_vectors ?n) (olist (in_needs r) @ needs_vectors ?n)"
    by (subst counts_ok_cong[of _ node]) (auto elim: counts_ok_perm simp: vectors_split[OF s(1)])
  from clear_inbound_ok[OF this] obtain cv cw where c:
    "DPS_ClearInboundInterests ?n r = Some (?n\<lparr>n_interests := cv, n_needs := cw\<rparr>, r\<lparr>in_interests := None, in_needs := None\<rparr>)"
    "counts_ok config (?n\<lparr>n_interests := cv, n_needs := cw\<rparr>) (interest_vectors ?n) (needs_vectors ?n)" by blast
  let ?m = "?n\<lparr>n_interests := cv, n_needs := cw\<rparr>"
  have "interest_vectors ?m = interest_vectors ?n" "needs_vectors ?m = needs_vectors ?n"
    by (simp_all add: interest_vectors_def needs_vectors_def)
  then have m: "node_inv config ?m" using c(2) assms s by (auto simp: node_inv_def)
  have "filter (\<lambda>p. fst p \<noteq> i) xs = xs" "filter (\<lambda>p. fst p \<noteq> i) ys = ys" using s(2) by (force simp: filter_id_conv)+
  then have f: "filter (\<lambda>p. fst p \<noteq> i) (remoteNodes node) = xs @ ys" using s(1) by simp
  have keep: "remoteNodes (detached_completion i c st n) = remoteNodes n \<and> subscriptions (detached_completion i c st n) = subscriptions n"
    "remoteNodes (emit e n) = remoteNodes n \<and> subscriptions (emit e n) = subscriptions n" for c st n e
    by (simp_all add: detached_completion_def call_completion_def cancel_request_def OnShutdown_def emit_def Let_def)
  show ?thesis
    using Some rm c(1) m f keep by (simp add: DPS_DeleteRemoteNode_def valid_deref split: option.splits)
qed

section \<open>Interests of a remote node\<close>

text \<open>The vectors the node counts besides those of a remote node\<close>

definition other_interests :: "DPS_Node \<Rightarrow> nat \<Rightarrow> DPS_BitVector list" where
  "other_interests node i = interest_vectors (node\<lparr>remoteNodes := filter (\<lambda>p. fst p \<noteq> i) (remoteNodes node)\<rparr>)"

definition other_needs :: "DPS_Node \<Rightarrow> nat \<Rightarrow> DPS_BitVector list" where
  "other_needs node i = needs_vectors (node\<lparr>remoteNodes := filter (\<lambda>p. fst p \<noteq> i) (remoteNodes node)\<rparr>)"

lemma filter_split:
  "i \<notin> fst ` set (xs @ ys) \<Longrightarrow> filter (\<lambda>p. fst p \<noteq> i) (xs @ (i, r) # ys) = xs @ ys"
proof -
  assume "i \<notin> fst ` set (xs @ ys)"
  then have "filter (\<lambda>p. fst p \<noteq> i) xs = xs" "filter (\<lambda>p. fst p \<noteq> i) ys = ys" by (force simp: filter_id_conv)+
  then show ?thesis by simp
qed

lemma node_counts:
  assumes "node_inv config node" "deref_remote node i = Some r"
  shows "counts_ok config node (olist (in_interests r) @ other_interests node i) (olist (in_needs r) @ other_needs node i)"
proof -
  obtain xs ys where s: "remoteNodes node = xs @ (i, r) # ys" "i \<notin> fst ` set (xs @ ys)"
    using remote_split[OF _ assms(2)] assms(1) by (auto simp: node_inv_def)
  have "counts_ok config node (interest_vectors node) (needs_vectors node)" using assms by (simp add: node_inv_def)
  then show ?thesis
    unfolding other_interests_def other_needs_def s(1) filter_split[OF s(2)]
    by (rule counts_ok_perm) (simp_all add: vectors_split[OF s(1)])
qed

lemma node_inv_replace:
  assumes "node_inv config node" "deref_remote node i = Some r" "remote_ok r'"
    and "counts_ok config (node\<lparr>n_interests := cv, n_needs := cw\<rparr>)
           (olist (in_interests r') @ other_interests node i) (olist (in_needs r') @ other_needs node i)"
  shows "\<exists>node'. update_remote i (\<lambda>_. r') (node\<lparr>n_interests := cv, n_needs := cw\<rparr>) = Some node' \<and>
    node_inv config node' \<and> deref_remote node' i = Some r' \<and>
    other_interests node' i = other_interests node i \<and> other_needs node' i = other_needs node i"
proof -
  obtain xs ys where s: "remoteNodes node = xs @ (i, r) # ys" "i \<notin> fst ` set (xs @ ys)"
    using remote_split[OF _ assms(2)] assms(1) by (auto simp: node_inv_def)
  let ?m = "node\<lparr>n_interests := cv, n_needs := cw\<rparr>"
  let ?n = "?m\<lparr>remoteNodes := xs @ (i, r') # ys\<rparr>"
  have u: "update_remote i (\<lambda>_. r') ?m = Some ?n" by (rule update_split) (use s in auto)
  have o: "other_interests node i = interest_vectors (?n\<lparr>remoteNodes := xs @ ys\<rparr>)" "other_needs node i = needs_vectors (?n\<lparr>remoteNodes := xs @ ys\<rparr>)"
    unfolding other_interests_def other_needs_def s(1) filter_split[OF s(2)]
    by (simp_all add: interest_vectors_def needs_vectors_def)
  have sn: "remoteNodes ?n = xs @ (i, r') # ys" by simp
  have "counts_ok config ?n (interest_vectors ?n) (needs_vectors ?n)"
    using assms(4) by (subst counts_ok_cong[of _ ?m]) (auto elim: counts_ok_perm simp: vectors_split[OF sn] o)
  then have "node_inv config ?n" using assms(1,3) s by (auto simp: node_inv_def)
  moreover have "deref_remote ?n i = Some r'" by (rule deref_split) (use s(2) in auto)
  moreover have "other_interests ?n i = other_interests node i" "other_needs ?n i = other_needs node i"
    using o unfolding other_interests_def[of ?n] other_needs_def[of ?n] sn filter_split[OF s(2)] by simp_all
  ultimately show ?thesis using u by blast
qed

text \<open>What a received message makes of the interests of a remote node\<close>

definition received :: "RemoteNode \<Rightarrow> DPS_BitVector \<Rightarrow> bool \<Rightarrow> nat set" where
  "received r v isDelta =
     (case in_interests r of Some old \<Rightarrow> if isDelta then sym_diff (bv_set v) (bv_set old) else bv_set v | None \<Rightarrow> bv_set v)"

lemma set_interests_ok:
  assumes "counts_ok config node vs ws" "bv_ok (bitLen config) v" "bv_ok FH_BITVECTOR_LEN w" "length vs < CV_MAX" "length ws < CV_MAX"
  shows "\<exists>cv cw. snd (DPS_CountVectorAdd (n_interests node) (Some v)) = cv \<and> snd (DPS_CountVectorAdd (n_needs node) (Some w)) = cw \<and>
    counts_ok config (node\<lparr>n_interests := cv, n_needs := cw\<rparr>) (v # vs) (w # ws)"
proof -
  obtain cv where cv: "DPS_CountVectorAdd (n_interests node) (Some v) = (DPS_OK, Some cv)"
    "counts_ok config (node\<lparr>n_interests := Some cv\<rparr>) (v # vs) ws" using add_interest[OF assms(1,2,4)] by blast
  obtain cw where cw: "DPS_CountVectorAdd (n_needs node) (Some w) = (DPS_OK, Some cw)"
    "counts_ok config (node\<lparr>n_interests := Some cv, n_needs := Some cw\<rparr>) (v # vs) (w # ws)"
    using add_need[OF cv(2) assms(3,5)] by auto
  show ?thesis using cv(1) cw by simp
qed

lemma IsClear_bv_ok:
  "bv_ok n v \<Longrightarrow> \<exists>v'. DPS_BitVectorIsClear v = (bv_set v = {}, v') \<and> bv_ok n v' \<and> bv_set v' = bv_set v"
  using IsClear_ok[of v] by (cases "DPS_BitVectorIsClear v") (auto simp: bv_ok_def bv_set_def)

text \<open>The interests to store and the node without the old ones\<close>

lemma prepare_inbound:
  fixes isDelta :: bool
  assumes "node_inv config node" "deref_remote node i = Some r" "bv_ok (bitLen config) v"
  defines "step \<equiv> (case in_interests r of
      None \<Rightarrow> Some (Some v, node, r)
    | Some _ \<Rightarrow>
        (let j = (if isDelta then fst (snd (DPS_BitVectorXor (Some v) (Some v) (in_interests r) None)) else Some v)
         in do { (node, r) \<leftarrow> DPS_ClearInboundInterests node r; Some (j, node, r) }))"
  shows "\<exists>cv cw u. step = Some (Some u, node\<lparr>n_interests := cv, n_needs := cw\<rparr>, r\<lparr>in_interests := None, in_needs := None\<rparr>) \<and>
    bv_ok (bitLen config) u \<and> bv_set u = received r v isDelta \<and>
    counts_ok config (node\<lparr>n_interests := cv, n_needs := cw\<rparr>) (other_interests node i) (other_needs node i)"
proof -
  note c = node_counts[OF assms(1,2)]
  have ok: "remote_ok r" using assms(1,2) by (auto simp: node_inv_def deref_remote_def dest: map_of_SomeD)
  show ?thesis
  proof (cases "in_interests r")
    case None
    then have "r\<lparr>in_interests := None, in_needs := None\<rparr> = r" using ok by (cases r) (simp add: remote_ok_def)
    then show ?thesis using None c ok assms(3)
      by (intro exI[of _ "n_interests node"] exI[of _ "n_needs node"] exI[of _ v])
        (simp add: step_def received_def remote_ok_def)
  next
    case (Some old)
    have o: "bv_ok (bitLen config) old" using c Some by (simp add: counts_ok_def)
    have "\<exists>u. (if isDelta then fst (snd (DPS_BitVectorXor (Some v) (Some v) (Some old) None)) else Some v) = Some u \<and>
      bv_ok (bitLen config) u \<and> bv_set u = received r v isDelta"
    proof (cases isDelta)
      case True
      obtain u v' w' where "DPS_BitVectorXor (Some v) (Some v) (Some old) None = (DPS_OK, Some u, Some v', Some w', None)"
        "bv_wf u" "bv_len u = bv_len v" "bv_set u = sym_diff (bv_set v) (bv_set old)"
        by (rule Xor_ok[of v v old None]) (use assms(3) o in \<open>auto simp: bv_ok_def\<close>)
      then show ?thesis using True Some assms(3) by (simp add: received_def bv_ok_def)
    qed (use Some assms(3) in \<open>simp add: received_def\<close>)
    then show ?thesis using clear_inbound_ok[OF c] Some by (fastforce simp: step_def Let_def)
  qed
qed

lemma update_inbound_ok:
  assumes "node_inv config node" "deref_remote node i = Some r" "bv_ok (bitLen config) v" "bv_ok FH_BITVECTOR_LEN w"
    and "length (other_interests node i) < CV_MAX" "length (other_needs node i) < CV_MAX"
  shows "\<exists>cv cw r'. UpdateInboundInterests node r v w isDelta = Some (DPS_OK, node\<lparr>n_interests := cv, n_needs := cw\<rparr>, r') \<and>
    counts_ok config (node\<lparr>n_interests := cv, n_needs := cw\<rparr>)
      (olist (in_interests r') @ other_interests node i) (olist (in_needs r') @ other_needs node i) \<and>
    r' = r\<lparr>in_interests := in_interests r', in_needs := in_needs r'\<rparr> \<and>
    (case in_interests r' of None \<Rightarrow> received r v isDelta = {} \<and> in_needs r' = None
     | Some v' \<Rightarrow> bv_set v' = received r v isDelta \<and> received r v isDelta \<noteq> {} \<and> in_needs r' = Some w)"
proof -
  obtain cv cw u where st: "(case in_interests r of
      None \<Rightarrow> Some (Some v, node, r)
    | Some _ \<Rightarrow>
        (let j = (if isDelta then fst (snd (DPS_BitVectorXor (Some v) (Some v) (in_interests r) None)) else Some v)
         in do { (node, r) \<leftarrow> DPS_ClearInboundInterests node r; Some (j, node, r) })) =
      Some (Some u, node\<lparr>n_interests := cv, n_needs := cw\<rparr>, r\<lparr>in_interests := None, in_needs := None\<rparr>)"
    and u: "bv_ok (bitLen config) u" "bv_set u = received r v isDelta"
    and k: "counts_ok config (node\<lparr>n_interests := cv, n_needs := cw\<rparr>) (other_interests node i) (other_needs node i)"
    using prepare_inbound[OF assms(1-3), of isDelta] by blast
  obtain u' where u': "DPS_BitVectorIsClear u = (bv_set u = {}, u')" "bv_ok (bitLen config) u'" "bv_set u' = bv_set u"
    using IsClear_bv_ok[OF u(1)] by blast
  show ?thesis
  proof (cases "bv_set u = {}")
    case True
    then show ?thesis using k u(2)
      by (intro exI[of _ cv] exI[of _ cw] exI[of _ "r\<lparr>in_interests := None, in_needs := None\<rparr>"])
        (simp add: UpdateInboundInterests_def st u'(1))
  next
    case False
    let ?m = "node\<lparr>n_interests := cv, n_needs := cw\<rparr>"
    obtain cv' cw' where a: "snd (DPS_CountVectorAdd (n_interests ?m) (Some u')) = cv'" "snd (DPS_CountVectorAdd (n_needs ?m) (Some w)) = cw'"
      "counts_ok config (?m\<lparr>n_interests := cv', n_needs := cw'\<rparr>) (u' # other_interests node i) (w # other_needs node i)"
      using set_interests_ok[OF k u'(2) assms(4-6)] by blast
    then show ?thesis using False u(2) u'
      by (intro exI[of _ cv'] exI[of _ cw'] exI[of _ "r\<lparr>in_interests := Some u', in_needs := Some w\<rparr>"])
        (simp add: UpdateInboundInterests_def st)
  qed
qed

section \<open>What is announced to a remote node\<close>

lemma counts_ok_bound: "counts_ok config node vs ws \<Longrightarrow> length vs \<le> CV_MAX \<and> length ws \<le> CV_MAX"
  by (auto simp: counts_ok_def int_rep_def need_rep_def dest!: cv_rep_cap)

lemma union_ok:
  assumes "counts_ok config node vs ws"
  shows "\<exists>u. DPS_CountVectorToUnion True (n_interests node) = Some u \<and> bv_ok (bitLen config) u \<and> bv_set u = (\<Union>v \<in> set vs. bv_set v)"
proof -
  obtain cv where "n_interests node = Some cv" "int_rep (bitLen config) cv (image_mset bv_set (mset vs))"
    using assms by (auto simp: counts_ok_def)
  then show ?thesis using ToUnion_ok[of cv "image_mset bv_set (mset vs)"] by (auto simp: int_rep_def)
qed

definition needs_of :: "DPS_BitVector list \<Rightarrow> nat set" where
  "needs_of ws = (if ws = [] then {} else (\<Inter>w \<in> set ws. bv_set w))"

lemma inter_ok:
  assumes "counts_ok config node vs ws" "n_needs node = Some cw"
  shows "\<exists>u. DPS_CountVectorToIntersection True cw = Some u \<and> bv_ok FH_BITVECTOR_LEN u \<and> bv_set u = needs_of ws"
proof -
  have "need_rep FH_BITVECTOR_LEN cw (image_mset bv_set (mset ws))" using assms by (auto simp: counts_ok_def)
  then have "cv_rep cw (image_mset bv_set (mset ws))" "cv_len cw = FH_BITVECTOR_LEN" by (auto simp: need_rep_def)
  from ToIntersection_ok[OF this(1)] this(2) show ?thesis by (auto simp: needs_of_def)
qed

lemma others_interests_ok:
  assumes "counts_ok config node (v # vs) ws"
  shows "\<exists>u cv. others (n_interests node) (Some v) (DPS_CountVectorToUnion True) = (Inr (Some u), Some cv) \<and>
    bv_ok (bitLen config) u \<and> bv_set u = (\<Union>v \<in> set vs. bv_set v) \<and> counts_ok config (node\<lparr>n_interests := Some cv\<rparr>) (v # vs) ws"
proof -
  obtain cv1 where d: "DPS_CountVectorDel (n_interests node) (Some v) = (DPS_OK, Some cv1)"
    "counts_ok config (node\<lparr>n_interests := Some cv1\<rparr>) vs ws" using take_interest[OF assms] by blast
  obtain u where u: "DPS_CountVectorToUnion True (Some cv1) = Some u" "bv_ok (bitLen config) u" "bv_set u = (\<Union>v \<in> set vs. bv_set v)"
    using union_ok[OF d(2)] by auto
  have v: "bv_ok (bitLen config) v" "length vs < CV_MAX" using assms counts_ok_bound[OF assms] by (auto simp: counts_ok_def)
  obtain cv2 where "DPS_CountVectorAdd (Some cv1) (Some v) = (DPS_OK, Some cv2)"
    "counts_ok config (node\<lparr>n_interests := Some cv2\<rparr>) (v # vs) ws" using add_interest[OF d(2) v] by auto
  then show ?thesis using d(1) u by (simp add: others_def)
qed

lemma others_needs_ok:
  assumes "counts_ok config node vs (w # ws)"
  shows "\<exists>u cw. others (n_needs node) (Some w) (\<lambda>cv. case cv of None \<Rightarrow> None | Some c \<Rightarrow> DPS_CountVectorToIntersection True c) = (Inr (Some u), Some cw) \<and>
    bv_ok FH_BITVECTOR_LEN u \<and> bv_set u = needs_of ws \<and> counts_ok config (node\<lparr>n_needs := Some cw\<rparr>) vs (w # ws)"
proof -
  obtain cw1 where d: "DPS_CountVectorDel (n_needs node) (Some w) = (DPS_OK, Some cw1)"
    "counts_ok config (node\<lparr>n_needs := Some cw1\<rparr>) vs ws" using take_need[OF assms] by blast
  obtain u where u: "DPS_CountVectorToIntersection True cw1 = Some u" "bv_ok FH_BITVECTOR_LEN u" "bv_set u = needs_of ws"
    using inter_ok[OF d(2), of cw1] by auto
  have w: "bv_ok FH_BITVECTOR_LEN w" "length ws < CV_MAX" using assms counts_ok_bound[OF assms] by (auto simp: counts_ok_def)
  obtain cw2 where "DPS_CountVectorAdd (Some cw1) (Some w) = (DPS_OK, Some cw2)"
    "counts_ok config (node\<lparr>n_needs := Some cw2\<rparr>) vs (w # ws)" using add_need[OF d(2) w] by auto
  then show ?thesis using d(1) u by (simp add: others_def)
qed

lemma remote_ok_deref: "node_inv config node \<Longrightarrow> deref_remote node i = Some r \<Longrightarrow> remote_ok r"
  by (auto simp: node_inv_def deref_remote_def dest: map_of_SomeD)

text \<open>The union of the interests, and what all needs have in common, of everybody but the remote node \<open>i\<close>\<close>

definition wants :: "DPS_Node \<Rightarrow> nat \<Rightarrow> nat set" where
  "wants node i = (\<Union>v \<in> set (other_interests node i). bv_set v)"

definition requires :: "DPS_Node \<Rightarrow> nat \<Rightarrow> nat set" where
  "requires node i = needs_of (other_needs node i)"

lemma new_interests_ok:
  assumes "node_inv config node" "deref_remote node i = Some r"
  shows "\<exists>u n cv cw. new_interests True True node r = Some (Inr (Some u, Some n), node\<lparr>n_interests := cv, n_needs := cw\<rparr>) \<and>
    bv_ok (bitLen config) u \<and> bv_set u = wants node i \<and> bv_ok FH_BITVECTOR_LEN n \<and> bv_set n = requires node i \<and>
    counts_ok config (node\<lparr>n_interests := cv, n_needs := cw\<rparr>)
      (olist (in_interests r) @ other_interests node i) (olist (in_needs r) @ other_needs node i)"
proof -
  note c = node_counts[OF assms] and ok = remote_ok_deref[OF assms]
  show ?thesis
  proof (cases "in_interests r")
    case None
    then have n: "in_needs r = None" using ok by (simp add: remote_ok_def)
    obtain u where u: "DPS_CountVectorToUnion True (n_interests node) = Some u" "bv_ok (bitLen config) u" "bv_set u = wants node i"
      using union_ok[OF c] None by (auto simp: wants_def)
    obtain cw where cw: "n_needs node = Some cw" using c by (auto simp: counts_ok_def)
    obtain w where w: "DPS_CountVectorToIntersection True cw = Some w" "bv_ok FH_BITVECTOR_LEN w" "bv_set w = requires node i"
      using inter_ok[OF c cw] n by (auto simp: requires_def)
    show ?thesis using None n u cw w c
      by - (rule exI[of _ u], rule exI[of _ w], rule exI[of _ "n_interests node"], rule exI[of _ "n_needs node"], simp add: new_interests_def counts_ok_def)
  next
    case (Some v)
    then obtain w where w: "in_needs r = Some w" using ok by (cases "in_needs r") (auto simp: remote_ok_def)
    obtain u cv where u: "others (n_interests node) (Some v) (DPS_CountVectorToUnion True) = (Inr (Some u), Some cv)"
      "bv_ok (bitLen config) u" "bv_set u = wants node i"
      "counts_ok config (node\<lparr>n_interests := Some cv\<rparr>) (v # other_interests node i) (w # other_needs node i)"
      using others_interests_ok[of config node v "other_interests node i" "w # other_needs node i"] c Some w unfolding wants_def by auto
    obtain n cw where n: "others (n_needs node) (Some w) (\<lambda>cv. case cv of None \<Rightarrow> None | Some c \<Rightarrow> DPS_CountVectorToIntersection True c) = (Inr (Some n), Some cw)"
      "bv_ok FH_BITVECTOR_LEN n" "bv_set n = requires node i"
      "counts_ok config (node\<lparr>n_interests := Some cv, n_needs := Some cw\<rparr>) (v # other_interests node i) (w # other_needs node i)"
      using others_needs_ok[OF u(4)] unfolding requires_def by auto
    show ?thesis using Some w u n
      by - (rule exI[of _ u], rule exI[of _ n], rule exI[of _ "Some cv"], rule exI[of _ "Some cw"], simp add: new_interests_def Let_def)
  qed
qed


definition out_ok :: "Configuration \<Rightarrow> RemoteNode \<Rightarrow> bool" where
  "out_ok config r \<longleftrightarrow> (out_interests r = None \<longleftrightarrow> out_needs r = None) \<and>
     (\<forall>v. out_interests r = Some v \<longrightarrow> bv_ok (bitLen config) v) \<and> (\<forall>w. out_needs r = Some w \<longrightarrow> bv_ok FH_BITVECTOR_LEN w) \<and>
     (\<forall>d. out_delta r = Some d \<longrightarrow> bv_ok (bitLen config) d)"

definition announced :: "RemoteNode \<Rightarrow> nat set option" where
  "announced r = map_option bv_set (out_interests r)"

lemma outbound_delta_ok:
  assumes "out_ok config r" "bitLen config = 64 * k" "64 * k < 2 ^ 31" "bv_ok (bitLen config) u" "bv_ok FH_BITVECTOR_LEN n"
  shows "if announced r = Some (bv_set u) \<and> map_option bv_set (out_needs r) \<noteq> Some (bv_set n) \<and> \<not> ndebug
    then outbound_delta ndebug config True r u n = None
    else \<exists>r' u'. outbound_delta ndebug config True r u n = Some (DPS_OK, announced r \<noteq> Some (bv_set u), r', Some u') \<and>
      r' = r\<lparr>out_delta := out_delta r', deltaInd := announced r \<noteq> None\<rparr> \<and> bv_ok (bitLen config) u' \<and> bv_set u' = bv_set u \<and>
      (\<forall>old. announced r = Some old \<longrightarrow> (\<exists>d. out_delta r' = Some d \<and> bv_set d = sym_diff old (bv_set u))) \<and>
      (\<forall>d. out_delta r' = Some d \<longrightarrow> bv_ok (bitLen config) d)"
proof (cases "out_interests r")
  case None
  then have "outbound_delta ndebug config True r u n = Some (DPS_OK, True, r\<lparr>deltaInd := False\<rparr>, Some u)" "announced r = None"
    by (simp_all add: outbound_delta_def announced_def)
  then show ?thesis using assms(1,4) by (auto simp: out_ok_def)
next
  case (Some old)
  then obtain w where w: "out_needs r = Some w" "bv_ok FH_BITVECTOR_LEN w" "bv_ok (bitLen config) old"
    using assms(1) by (auto simp: out_ok_def)
  obtain d where d: "(case out_delta r of None \<Rightarrow> DPS_BitVectorAlloc True config | Some d \<Rightarrow> Some d) = Some d" "bv_ok (bitLen config) d"
  proof (cases "out_delta r")
    case None
    have "bv_ok (bitLen config) \<lparr>popCount = -1, bv_len = bitLen config, bits = replicate (bitLen config div 64) 0\<rparr>"
      using AllocBV_ok[of k] assms(2,3) by (simp add: AllocBV_def bv_ok_def)
    then show ?thesis using that None by (simp add: DPS_BitVectorAlloc_def AllocBV_def)
  qed (use that assms(1) in \<open>simp add: out_ok_def\<close>)
  obtain e v' u' where x: "DPS_BitVectorXor (Some d) (Some old) (Some u) (Some False) =
      (DPS_OK, Some e, Some v', Some u', Some (bv_set old = bv_set u))"
    "bv_wf e" "bv_len e = bv_len d" "bv_set e = sym_diff (bv_set old) (bv_set u)" "bv_wf u'" "bits u' = bits u" "bv_len u' = bv_len u"
    by (rule Xor_ok[of d old u "Some False"]) (use d(2) w(3) assms(4) in \<open>auto simp: bv_ok_def\<close>)
  have u': "bv_ok (bitLen config) u'" "bv_set u' = bv_set u" "bv_ok (bitLen config) e"
    using x assms(4) d(2) by (auto simp: bv_ok_def bv_set_def)
  have eq: "DPS_BitVectorEquals (Some w) (Some n) \<longleftrightarrow> bv_set w = bv_set n" using Equals_ok[of w n] w(2) assms(5) by (auto simp: bv_ok_def)
  show ?thesis using Some w(1) d(1) x(1,4) u' eq
    by (auto simp: outbound_delta_def announced_def Let_def)
qed

text \<open>The interests and needs announced by a run of \<open>DPS_UpdateOutboundInterests\<close>, with enough memory\<close>

lemma update_outbound_ok:
  assumes "node_inv config node" "deref_remote node i = Some r" "out_ok config r" "bitLen config = 64 * k" "64 * k < 2 ^ 31"
    and "r_state r \<noteq> REMOTE_UNLINKING"
  shows "if announced r = Some (wants node i) \<and> map_option bv_set (out_needs r) \<noteq> Some (requires node i) \<and> \<not> ndebug
    then DPS_UpdateOutboundInterests ndebug config (\<lambda>_. True) node r = None
    else \<exists>cv cw r'. DPS_UpdateOutboundInterests ndebug config (\<lambda>_. True) node r =
        Some (DPS_OK, announced r \<noteq> Some (wants node i), node\<lparr>n_interests := cv, n_needs := cw\<rparr>, r') \<and>
      counts_ok config (node\<lparr>n_interests := cv, n_needs := cw\<rparr>)
        (olist (in_interests r) @ other_interests node i) (olist (in_needs r) @ other_needs node i) \<and>
      in_interests r' = in_interests r \<and> in_needs r' = in_needs r \<and> r_state r' = r_state r \<and> out_ok config r' \<and>
      announced r' = Some (wants node i) \<and> map_option bv_set (out_needs r') = Some (requires node i) \<and>
      out_revision r' = (if announced r \<noteq> Some (wants node i) then out_revision r + 1 else out_revision r) \<and>
      deltaInd r' = (announced r \<noteq> None) \<and>
      (\<forall>old. announced r = Some old \<longrightarrow> (\<exists>d. out_delta r' = Some d \<and> bv_set d = sym_diff old (wants node i)))"
proof -
  obtain u n cv cw where n: "new_interests True True node r = Some (Inr (Some u, Some n), node\<lparr>n_interests := cv, n_needs := cw\<rparr>)"
    and u: "bv_ok (bitLen config) u" "bv_set u = wants node i" "bv_ok FH_BITVECTOR_LEN n" "bv_set n = requires node i"
    and c: "counts_ok config (node\<lparr>n_interests := cv, n_needs := cw\<rparr>)
      (olist (in_interests r) @ other_interests node i) (olist (in_needs r) @ other_needs node i)"
    using new_interests_ok[OF assms(1,2)] by blast
  note d = outbound_delta_ok[OF assms(3-5) u(1,3), of ndebug]
  show ?thesis
  proof (cases "announced r = Some (wants node i) \<and> map_option bv_set (out_needs r) \<noteq> Some (requires node i) \<and> \<not> ndebug")
    case True
    then show ?thesis using d n assms(6) by (simp add: DPS_UpdateOutboundInterests_def u)
  next
    case False
    then obtain r1 u' where o: "outbound_delta ndebug config True r u n = Some (DPS_OK, announced r \<noteq> Some (wants node i), r1, Some u')"
      "r1 = r\<lparr>out_delta := out_delta r1, deltaInd := announced r \<noteq> None\<rparr>" "bv_ok (bitLen config) u'" "bv_set u' = wants node i"
      "\<forall>old. announced r = Some old \<longrightarrow> (\<exists>d. out_delta r1 = Some d \<and> bv_set d = sym_diff old (wants node i))"
      "\<forall>d. out_delta r1 = Some d \<longrightarrow> bv_ok (bitLen config) d"
      using d unfolding u by (auto split: if_splits)
    define r2 where "r2 = (FreeOutboundInterests r1)\<lparr>out_interests := Some u', out_needs := Some n\<rparr>"
    define r' where "r' = (if announced r \<noteq> Some (wants node i) then r2\<lparr>out_revision := out_revision r2 + 1\<rparr> else r2)"
    have f: "in_interests r1 = in_interests r" "in_needs r1 = in_needs r" "r_state r1 = r_state r" "out_revision r1 = out_revision r"
      "deltaInd r1 = (announced r \<noteq> None)"
      by (subst o(2), simp)+
    have run: "DPS_UpdateOutboundInterests ndebug config (\<lambda>_. True) node r =
        Some (DPS_OK, announced r \<noteq> Some (wants node i), node\<lparr>n_interests := cv, n_needs := cw\<rparr>, r')"
      using n assms(6) o(1) by (simp add: DPS_UpdateOutboundInterests_def r'_def r2_def Let_def)
    have "out_ok config r'" "announced r' = Some (wants node i)" "map_option bv_set (out_needs r') = Some (requires node i)"
      using o u by (auto simp: r'_def r2_def out_ok_def announced_def FreeOutboundInterests_def)
    moreover have "in_interests r' = in_interests r" "in_needs r' = in_needs r" "r_state r' = r_state r" "deltaInd r' = (announced r \<noteq> None)"
      "out_revision r' = (if announced r \<noteq> Some (wants node i) then out_revision r + 1 else out_revision r)"
      "out_delta r' = out_delta r1"
      using f by (simp_all add: r'_def r2_def FreeOutboundInterests_def)
    ultimately show ?thesis unfolding if_not_P[OF False] using run c o(5)
      by - (rule exI[of _ cv], rule exI[of _ cw], rule exI[of _ r'], simp)
  qed
qed

end
