(* ===== verification/Interest_Routing.thy ===== *)
theory Interest_Routing
  imports Node_State
begin

text \<open>
  How interests travel: the operations of a node as steps of a transition system, with the invariant
  that its counting vectors count exactly the vectors of its subscriptions and remote nodes, what is
  announced to a neighbour, and that a neighbour who has received the announcements withholds no
  matching publication.
\<close>

section \<open>The operations keep the invariant\<close>

definition config_ok :: "Configuration \<Rightarrow> bool" where
  "config_ok config \<longleftrightarrow> 0 < bitLen config \<and> bitLen config mod 64 = 0 \<and> bitLen config < 2 ^ 31"

lemma config_okD: "config_ok config \<Longrightarrow> \<exists>k. bitLen config = 64 * k \<and> 64 * k < 2 ^ 31 \<and> 0 < k"
  by (intro exI[of _ "bitLen config div 64"]) (auto simp: config_ok_def)

lemma bloom_insert_all_bv_ok:
  "bv_ok n bf \<Longrightarrow> 0 < n \<Longrightarrow> bv_ok n (bloom_insert_all sha2 config bf strs)"
  by (induction strs arbitrary: bf) (auto simp: bloom_insert_all_def bv_ok_def BloomInsert_ok)

lemma AddTopic_bv_ok:
  assumes "bv_ok n bf" "0 < n"
  shows "\<exists>ret bf'. DPS_AddTopic mem sha2 config (Some bf) (Some t) (Some seps) ty = (ret, Some bf') \<and> bv_ok n bf'"
  using assms by (auto simp: DPS_AddTopic_def Let_def bloom_insert_all_bv_ok split: option.splits prod.splits)

lemma add_sub_topics_ok:
  assumes "bv_ok n bf" "0 < n"
  shows "\<exists>ret bf'. add_sub_topics mem sha2 config seps bf ts = (ret, Some bf') \<and> bv_ok n bf'"
  using assms
proof (induction ts arbitrary: bf)
  case (Cons t ts)
  obtain ret bf' where "DPS_AddTopic mem sha2 config (Some bf) (Some t) (Some seps) DPS_SubTopic = (ret, Some bf')" "bv_ok n bf'"
    using AddTopic_bv_ok[OF Cons.prems] by blast
  then show ?case using Cons.IH[of bf'] Cons.prems by auto
qed simp

lemma UpdateSubs_fields [simp]:
  "remoteNodes (DPS_UpdateSubs node p) = remoteNodes node" "subscriptions (DPS_UpdateSubs node p) = subscriptions node"
  by (simp_all add: DPS_UpdateSubs_def emit_def)

lemma emit_fields [simp]:
  "remoteNodes (emit e node) = remoteNodes node" "subscriptions (emit e node) = subscriptions node"
  by (simp_all add: emit_def)

lemma remote_set:
  assumes "node_inv config node" "deref_remote node i = Some r"
  shows "set (remoteNodes node) = insert (i, r) {p \<in> set (remoteNodes node). fst p \<noteq> i}"
proof -
  obtain xs ys where "remoteNodes node = xs @ (i, r) # ys" "i \<notin> fst ` set (xs @ ys)"
    using remote_split[OF _ assms(2)] assms(1) by (auto simp: node_inv_def)
  then show ?thesis by (auto simp: image_iff)
qed

lemma subscribe_ok:
  assumes "node_inv config node" "config_ok config"
    and "length (interest_vectors node) < CV_MAX" "length (needs_vectors node) < CV_MAX"
  shows "case DPS_Subscribe sha2 config mem1 mem2 mem3 node sub of (ret, node') \<Rightarrow>
    node_inv config node' \<and> remoteNodes node' = remoteNodes node \<and>
    (if ret = DPS_OK
     then \<exists>bf h bf' needs. add_sub_topics mem3 sha2 config (separators node) bf (s_topics sub) = (DPS_OK, Some bf') \<and>
       DPS_BitVectorAlloc True config = Some bf \<and>
       bv_ok (bitLen config) h \<and> bits h = bits bf' \<and> bv_ok FH_BITVECTOR_LEN needs \<and> bv_set needs = fh_set bf' \<and>
       subscriptions node' = sub\<lparr>s_bf := Some h, s_needs := Some needs\<rparr> # subscriptions node
     else node' = node)"
proof -
  obtain k where k: "bitLen config = 64 * k" "64 * k < 2 ^ 31" "0 < k" using config_okD[OF assms(2)] by blast
  show ?thesis
  proof (cases "mem1 \<and> mem2")
    case False
    then show ?thesis using assms(1) by (auto simp: DPS_Subscribe_def DPS_BitVectorAlloc_def DPS_BitVectorAllocFH_def AllocBV_def)
  next
    case True
    obtain bf where bf: "DPS_BitVectorAlloc True config = Some bf" "bv_ok (bitLen config) bf"
      using AllocBV_ok[of k] k by (auto simp: DPS_BitVectorAlloc_def AllocBV_def bv_ok_def)
    obtain e where e: "DPS_BitVectorAllocFH True = Some e" "bv_ok FH_BITVECTOR_LEN e"
      using AllocBV_ok[of 4] by (auto simp: DPS_BitVectorAllocFH_def FH_BITVECTOR_LEN_def AllocBV_def bv_ok_def)
    obtain ret bf' where a: "add_sub_topics mem3 sha2 config (separators node) bf (s_topics sub) = (ret, Some bf')" "bv_ok (bitLen config) bf'"
      using add_sub_topics_ok[OF bf(2)] k by fastforce
    show ?thesis
    proof (cases "ret = DPS_OK")
      case ok: True
      obtain n h where h: "DPS_BitVectorFuzzyHash (Some e) (Some bf') = (DPS_OK, Some n, Some h)"
        "bv_ok FH_BITVECTOR_LEN n" "bv_set n = fh_set bf'" "bv_ok (bitLen config) h" "bits h = bits bf'"
        using FuzzyHash_ok[of e bf'] e(2) a(2) by (auto simp: bv_ok_def)
      have c: "counts_ok config node (interest_vectors node) (needs_vectors node)" using assms(1) by (simp add: node_inv_def)
      obtain cv where cv: "DPS_CountVectorAdd (n_interests node) (Some h) = (DPS_OK, Some cv)"
        "counts_ok config (node\<lparr>n_interests := Some cv\<rparr>) (h # interest_vectors node) (needs_vectors node)"
        using add_interest[OF c h(4) assms(3)] by blast
      obtain cw where cw: "DPS_CountVectorAdd (n_needs node) (Some n) = (DPS_OK, Some cw)"
        "counts_ok config (node\<lparr>n_interests := Some cv, n_needs := Some cw\<rparr>) (h # interest_vectors node) (n # needs_vectors node)"
        using add_need[OF cv(2) h(2) assms(4)] by auto
      define sub' where "sub' = sub\<lparr>s_bf := Some h, s_needs := Some n\<rparr>"
      define node1 where "node1 = node\<lparr>subscriptions := sub' # subscriptions node, n_interests := Some cv, n_needs := Some cw\<rparr>"
      have run: "DPS_Subscribe sha2 config mem1 mem2 mem3 node sub = (DPS_OK, DPS_UpdateSubs node1 SubsSendNow)"
        using True bf(1) e(1) a(1) ok h(1) cv(1) cw(1) by (simp add: DPS_Subscribe_def Let_def node1_def sub'_def)
      have "interest_vectors node1 = h # interest_vectors node" "needs_vectors node1 = n # needs_vectors node"
        by (simp_all add: interest_vectors_def needs_vectors_def node1_def sub'_def)
      then have "node_inv config node1" using assms(1) cw(2) by (simp add: node_inv_def node1_def sub'_def counts_ok_def)
      then show ?thesis using run bf a h ok by (auto simp: node1_def sub'_def)
    qed (use True bf e a assms(1) in \<open>simp add: DPS_Subscribe_def\<close>)
  qed
qed

lemma concat_remove1: "x \<in> set xs \<Longrightarrow> mset (concat (map f xs)) = mset (f x) + mset (concat (map f (remove1 x xs)))"
  by (induction xs) auto

lemma destroy_ok:
  assumes "node_inv config node"
  shows "\<exists>ret node'. DPS_DestroySubscription node sub = Some (ret, node') \<and> node_inv config node' \<and> remoteNodes node' = remoteNodes node \<and>
    (if sub \<in> set (subscriptions node) \<and> s_flags sub AND SUB_FLAG_WAS_FREED = 0
     then ret = DPS_OK \<and> subscriptions node' = remove1 sub (subscriptions node) else subscriptions node' = subscriptions node)"
proof (cases "sub \<in> set (subscriptions node) \<and> s_flags sub AND SUB_FLAG_WAS_FREED = 0")
  case False
  then show ?thesis using assms
    by (auto simp: DPS_DestroySubscription_def FreeSubscription_def)
next
  case True
  obtain v w where vw: "s_bf sub = Some v" "s_needs sub = Some w" using True assms by (auto simp: node_inv_def)
  define node1 where "node1 = node\<lparr>subscriptions := remove1 sub (subscriptions node)\<rparr>"
  have m: "mset (interest_vectors node) = mset (v # interest_vectors node1)" "mset (needs_vectors node) = mset (w # needs_vectors node1)"
    using concat_remove1[of sub "subscriptions node" "\<lambda>s. olist (s_bf s)"] concat_remove1[of sub "subscriptions node" "\<lambda>s. olist (s_needs s)"] True vw
    by (simp_all add: interest_vectors_def needs_vectors_def node1_def)
  have c: "counts_ok config node (v # interest_vectors node1) (w # needs_vectors node1)"
    using assms m by (auto simp: node_inv_def elim!: counts_ok_perm)
  obtain cv where cv: "cv_take (n_interests node) (Some v) = Some (Some cv)"
    "counts_ok config (node\<lparr>n_interests := Some cv\<rparr>) (interest_vectors node1) (w # needs_vectors node1)" using take_interest[OF c] by blast
  obtain cw where cw: "cv_take (n_needs node) (Some w) = Some (Some cw)"
    "counts_ok config (node\<lparr>n_interests := Some cv, n_needs := Some cw\<rparr>) (interest_vectors node1) (needs_vectors node1)"
    using take_need[OF cv(2)] by auto
  define node2 where "node2 = node1\<lparr>n_interests := Some cv, n_needs := Some cw, freeSubs := sub\<lparr>s_flags := SUB_FLAG_WAS_FREED\<rparr> # freeSubs node\<rparr>"
  have run: "DPS_DestroySubscription node sub = Some (DPS_OK, DPS_UpdateSubs (if s_refCount sub = 0 then emit Wake_Free node2 else node2) SubsSendNow)"
    using True vw cv(1) cw(1) by (simp add: DPS_DestroySubscription_def FreeSubscription_def node2_def node1_def)
  have "interest_vectors node2 = interest_vectors node1" "needs_vectors node2 = needs_vectors node1"
    by (simp_all add: interest_vectors_def needs_vectors_def node2_def)
  moreover have "set (subscriptions node2) \<subseteq> set (subscriptions node)" using set_remove1_subset[of sub] by (simp add: node2_def node1_def)
  ultimately have "node_inv config node2" using assms cw(2) by (auto simp: node_inv_def node2_def node1_def counts_ok_def)
  then have "node_inv config (if s_refCount sub = 0 then emit Wake_Free node2 else node2)" by simp
  then show ?thesis using run True by (simp add: node2_def node1_def)
qed

lemma mute_ok:
  assumes "node_inv config node" "deref_remote node i = Some r"
  shows "\<exists>node' r'. DPS_MuteRemoteNode node i st = Some (DPS_OK, node') \<and> node_inv config node' \<and> deref_remote node' i = Some r' \<and>
    set (remoteNodes node') = insert (i, r') {p \<in> set (remoteNodes node). fst p \<noteq> i} \<and>
    (if r_state r = REMOTE_MUTED \<or> r_state r = REMOTE_UNLINKING then node' = node
     else r_state r' = st \<and> out_interests r' = None \<and> out_needs r' = None \<and> out_delta r' = out_delta r) \<and>
    in_interests r' = in_interests r \<and> in_needs r' = in_needs r"
proof (cases "r_state r = REMOTE_MUTED \<or> r_state r = REMOTE_UNLINKING")
  case True
  then show ?thesis using assms remote_set[OF assms] by (auto simp: DPS_MuteRemoteNode_def)
next
  case False
  obtain xs ys where s: "remoteNodes node = xs @ (i, r) # ys" "i \<notin> fst ` set (xs @ ys)"
    using remote_split[OF _ assms(2)] assms(1) by (auto simp: node_inv_def)
  define r' where "r' = (FreeOutboundInterests (r\<lparr>r_state := st\<rparr>))\<lparr>sendInterests := False\<rparr>"
  define node' where "node' = node\<lparr>remoteNodes := (i, r') # xs @ ys\<rparr>"
  have run: "DPS_MuteRemoteNode node i st = Some (DPS_OK, node')"
    using False assms(2) s unlink_split[of i xs r ys]
    by (simp add: DPS_MuteRemoteNode_def RemoveRemoteNode_def InsertRemoteNode_def node'_def r'_def image_Un)
  have k: "in_interests r' = in_interests r" "in_needs r' = in_needs r" by (simp_all add: r'_def FreeOutboundInterests_def)
  then have "mset (interest_vectors node') = mset (interest_vectors node)" "mset (needs_vectors node') = mset (needs_vectors node)"
    by (simp_all add: s(1) interest_vectors_def needs_vectors_def node'_def)
  moreover have "remote_ok r' \<longleftrightarrow> remote_ok r" using k by (simp add: remote_ok_def)
  moreover have "counts_ok config node (interest_vectors node) (needs_vectors node)" using assms(1) by (simp add: node_inv_def)
  ultimately have "counts_ok config node (interest_vectors node') (needs_vectors node')" by (auto elim: counts_ok_perm)
  then have inv: "node_inv config node'"
    using assms(1) s \<open>remote_ok r' \<longleftrightarrow> remote_ok r\<close> unfolding node_inv_def
    by (auto simp: node'_def counts_ok_def)
  have "set (remoteNodes node') = insert (i, r') {p \<in> set (remoteNodes node). fst p \<noteq> i}"
    using s by (auto simp: node'_def image_iff)
  moreover have "deref_remote node' i = Some r'" by (simp add: node'_def deref_remote_def)
  moreover have "r_state r' = st" "out_interests r' = None" "out_needs r' = None" "out_delta r' = out_delta r"
    by (simp_all add: r'_def FreeOutboundInterests_def)
  ultimately show ?thesis using run inv False k by - (rule exI[of _ node'], rule exI[of _ r'], simp)
qed

text \<open>Failing allocations leave the counting vectors as they are when all succeed.\<close>

lemma others_mem:
  "others cv v (\<lambda>c. if m then f c else None) =
     (case others cv v f of (Inl e, c) \<Rightarrow> (Inl e, c) | (Inr s, c) \<Rightarrow> (Inr (if m then s else None), c))"
  by (auto simp: others_def Let_def split: prod.splits)

lemma new_interests_mem:
  assumes "new_interests True True node r = Some (Inr (u, n), node')"
  shows "new_interests m1 m2 node r = Some (Inr (if m1 then u else None, if m2 then n else None), node')"
proof -
  have u: "DPS_CountVectorToUnion m1 = (\<lambda>cv. if m1 then DPS_CountVectorToUnion True cv else None)"
    by (rule ext) (simp add: DPS_CountVectorToUnion_def DPS_BitVectorClone_def AllocBV_def split: option.splits)
  have i: "(\<lambda>cv. case cv of None \<Rightarrow> None | Some c \<Rightarrow> DPS_CountVectorToIntersection m2 c) =
      (\<lambda>cv. if m2 then (case cv of None \<Rightarrow> None | Some c \<Rightarrow> DPS_CountVectorToIntersection True c) else None)"
    by (rule ext) (simp add: DPS_CountVectorToIntersection_def AllocBV_def split: option.splits)
  show ?thesis using assms
    unfolding new_interests_def u i Let_def others_mem
    by (auto split: if_splits prod.splits sum.splits)
qed

lemma outbound_delta_total:
  assumes "out_ok config r" "bitLen config = 64 * k" "64 * k < 2 ^ 31" "bv_ok (bitLen config) u" "bv_ok FH_BITVECTOR_LEN n"
    "outbound_delta ndebug config mem r u n = Some (ret, ch, r', u')"
  shows "in_interests r' = in_interests r \<and> in_needs r' = in_needs r \<and> out_interests r' = out_interests r \<and> out_needs r' = out_needs r \<and>
    (\<forall>d. out_delta r' = Some d \<longrightarrow> bv_ok (bitLen config) d) \<and> (ret = DPS_OK \<longrightarrow> (\<exists>v. u' = Some v \<and> bv_ok (bitLen config) v))"
proof (cases "mem \<or> out_interests r = None \<or> out_delta r \<noteq> None")
  case True
  then have t: "outbound_delta ndebug config True r u n = Some (ret, ch, r', u')"
    using assms(6) by (auto simp: outbound_delta_def Let_def split: option.splits)
  obtain v where e: "r' = r\<lparr>out_delta := out_delta r', deltaInd := announced r \<noteq> None\<rparr>" "u' = Some v" "bv_ok (bitLen config) v"
    "\<forall>d. out_delta r' = Some d \<longrightarrow> bv_ok (bitLen config) d"
    using outbound_delta_ok[OF assms(1-5), of ndebug] unfolding t by (auto split: if_splits)
  have "in_interests r' = in_interests r" "in_needs r' = in_needs r" "out_interests r' = out_interests r" "out_needs r' = out_needs r"
    by (subst e(1), simp)+
  then show ?thesis using e(2-4) by simp
next
  case False
  then show ?thesis using assms(1,6) by (auto simp: outbound_delta_def Let_def DPS_BitVectorAlloc_def AllocBV_def out_ok_def)
qed


lemma outbound_keeps:
  assumes "node_inv config node" "deref_remote node i = Some r" "out_ok config r" "config_ok config"
    and "DPS_UpdateOutboundInterests ndebug config mem node r = Some (ret, ch, node1, r')"
  shows "\<exists>cv cw. node1 = node\<lparr>n_interests := cv, n_needs := cw\<rparr> \<and> out_ok config r' \<and> remote_ok r' \<and>
    counts_ok config node1 (olist (in_interests r') @ other_interests node i) (olist (in_needs r') @ other_needs node i)"
proof -
  obtain k where k: "bitLen config = 64 * k" "64 * k < 2 ^ 31" using config_okD[OF assms(4)] by blast
  have rk: "remote_ok r" using remote_ok_deref assms(1,2) .
  obtain u n cv cw where n: "new_interests True True node r = Some (Inr (Some u, Some n), node\<lparr>n_interests := cv, n_needs := cw\<rparr>)"
    and u: "bv_ok (bitLen config) u" "bv_ok FH_BITVECTOR_LEN n"
    and c: "counts_ok config (node\<lparr>n_interests := cv, n_needs := cw\<rparr>)
      (olist (in_interests r) @ other_interests node i) (olist (in_needs r) @ other_needs node i)"
    using new_interests_ok[OF assms(1,2)] by blast
  show ?thesis
  proof (cases "r_state r = REMOTE_UNLINKING")
    case True
    then have "node1 = node" "r' = (FreeOutboundInterests r)\<lparr>out_revision := out_revision r + 1\<rparr>"
      using assms(5) by (auto simp: DPS_UpdateOutboundInterests_def)
    then show ?thesis using node_counts[OF assms(1,2)] assms(3) rk
      by - (rule exI[of _ "n_interests node"], rule exI[of _ "n_needs node"], simp add: FreeOutboundInterests_def out_ok_def remote_ok_def)
  next
    case False
    note run = assms(5)[unfolded DPS_UpdateOutboundInterests_def new_interests_mem[OF n], simplified False]
    show ?thesis
    proof (cases "mem 0 \<and> mem 1")
      case True
      then obtain ret' ch' r1 u' where d: "outbound_delta ndebug config (mem 2) r u n = Some (ret', ch', r1, u')"
        using run by (cases "outbound_delta ndebug config (mem 2) r u n") auto
      note t = outbound_delta_total[OF assms(3) k u d]
      have "node1 = node\<lparr>n_interests := cv, n_needs := cw\<rparr> \<and> out_ok config r' \<and> in_interests r' = in_interests r \<and> in_needs r' = in_needs r"
        using run True d t u assms(3)
        by (auto simp: Let_def FreeOutboundInterests_def out_ok_def split: if_splits)
      then show ?thesis using c rk by - (rule exI[of _ cv], rule exI[of _ cw], simp add: remote_ok_def)
    next
      case False
      then have "node1 = node\<lparr>n_interests := cv, n_needs := cw\<rparr>" "r' = r" using run by (auto split: if_splits)
      then show ?thesis using c rk assms(3) by - (rule exI[of _ cv], rule exI[of _ cw], simp)
    qed
  qed
qed


section \<open>The node as a transition system\<close>

text \<open>
  \<open>node_ok\<close> is the invariant: the counting vectors count the subscriptions and the inbound interests, the
  outbound vectors have their proper lengths, and the needs of a subscription are the fuzzy hash of
  its filter.
\<close>

definition sub_ok :: "DPS_Subscription \<Rightarrow> bool" where
  "sub_ok s \<longleftrightarrow> (\<exists>f n. s_bf s = Some f \<and> s_needs s = Some n \<and> bv_set n = fh_set f)"

definition node_ok :: "Configuration \<Rightarrow> DPS_Node \<Rightarrow> bool" where
  "node_ok config node \<longleftrightarrow> node_inv config node \<and> (\<forall>(i, r) \<in> set (remoteNodes node). out_ok config r) \<and>
     (\<forall>s \<in> set (subscriptions node). sub_ok s)"

definition room :: "DPS_Node \<Rightarrow> bool" where
  "room node \<longleftrightarrow> length (interest_vectors node) < CV_MAX \<and> length (needs_vectors node) < CV_MAX"

text \<open>
  A step is one of the operations with any arguments, where the vectors of a received message have
  passed deserialization, the other end of a connection is known, and no more than \<open>CV_MAX\<close> vectors
  are counted. Allocations may fail at any point.
\<close>

inductive node_step :: "bool \<Rightarrow> (u8 list \<Rightarrow> u8 list) \<Rightarrow> Configuration \<Rightarrow> DPS_Node \<Rightarrow> DPS_Node \<Rightarrow> bool"
  for ndebug sha2 config where
  Subscribe: "room node \<Longrightarrow> DPS_Subscribe sha2 config mem1 mem2 mem3 node sub = (ret, node') \<Longrightarrow>
    node_step ndebug sha2 config node node'"
| Unsubscribe: "DPS_DestroySubscription node sub = Some (ret, node') \<Longrightarrow> node_step ndebug sha2 config node node'"
| Connect: "DPS_AddRemoteNode mem1 node a conn = Some (ret, remote, node') \<Longrightarrow> node_step ndebug sha2 config node node'"
| Delete: "DPS_DeleteRemoteNode node i = Some node' \<Longrightarrow> node_step ndebug sha2 config node node'"
| Send_Failed: "DPS_SendComplete node a status = Some node' \<Longrightarrow> node_step ndebug sha2 config node node'"
| Mute: "DPS_MuteRemoteNode node i st = Some (ret, node') \<Longrightarrow> node_step ndebug sha2 config node node'"
| Inbound: "room node \<Longrightarrow> deref_remote node i = Some r \<Longrightarrow> bv_ok (bitLen config) v \<Longrightarrow> bv_ok FH_BITVECTOR_LEN w \<Longrightarrow>
    UpdateInboundInterests node r v w isDelta = Some (ret, node1, r') \<Longrightarrow> update_remote i (\<lambda>_. r') node1 = Some node' \<Longrightarrow>
    node_step ndebug sha2 config node node'"
| Outbound: "deref_remote node i = Some r \<Longrightarrow>
    DPS_UpdateOutboundInterests ndebug config mem node r = Some (ret, changes, node1, r') \<Longrightarrow>
    update_remote i (\<lambda>_. r') node1 = Some node' \<Longrightarrow> node_step ndebug sha2 config node node'"
| Clear_Outbound: "deref_remote node i = Some r \<Longrightarrow> DPS_ClearOutboundInterests config mem1 mem2 r = (ret, r') \<Longrightarrow>
    update_remote i (\<lambda>_. r') node = Some node' \<Longrightarrow> node_step ndebug sha2 config node node'"

lemma out_okD: "node_ok config node \<Longrightarrow> deref_remote node i = Some r \<Longrightarrow> out_ok config r"
  by (auto simp: node_ok_def deref_remote_def dest: map_of_SomeD)

lemma room_others: "room node \<Longrightarrow> length (other_interests node i) < CV_MAX \<and> length (other_needs node i) < CV_MAX"
proof -
  have "length (concat (map f (filter P xs))) \<le> length (concat (map f xs))" for f :: "nat \<times> RemoteNode \<Rightarrow> DPS_BitVector list" and P xs
    by (induction xs) auto
  from this[of "\<lambda>(i, r). olist (in_interests r)" "\<lambda>p. fst p \<noteq> i" "remoteNodes node"]
    this[of "\<lambda>(i, r). olist (in_needs r)" "\<lambda>p. fst p \<noteq> i" "remoteNodes node"]
  show "room node \<Longrightarrow> ?thesis"
    by (simp add: room_def other_interests_def other_needs_def interest_vectors_def needs_vectors_def)
qed

text \<open>Storing a changed remote node\<close>

lemma update_set:
  assumes "update_remote i (\<lambda>_. r') node = Some node'"
  shows "set (remoteNodes node') \<subseteq> insert (i, r') {p \<in> set (remoteNodes node). fst p \<noteq> i} \<and> subscriptions node' = subscriptions node"
  using assms by (auto simp: update_remote_def split: if_splits)

lemma node_ok_store:
  assumes "node_ok config node" "deref_remote node i = Some r" "remote_ok r'" "out_ok config r'"
    and "node1 = node\<lparr>n_interests := cv, n_needs := cw\<rparr>"
    and "counts_ok config node1 (olist (in_interests r') @ other_interests node i) (olist (in_needs r') @ other_needs node i)"
    and "update_remote i (\<lambda>_. r') node1 = Some node'"
  shows "node_ok config node' \<and> deref_remote node' i = Some r'"
proof -
  have inv: "node_inv config node" using assms(1) by (simp add: node_ok_def)
  have "node_inv config node'" "deref_remote node' i = Some r'"
    using node_inv_replace[OF inv assms(2,3) assms(6)[unfolded assms(5)]] assms(5,7) by auto
  moreover have "subscriptions node' = subscriptions node" "set (remoteNodes node') \<subseteq> insert (i, r') (set (remoteNodes node))"
    using update_set[OF assms(7)] assms(5) by auto
  ultimately show ?thesis using assms(1,4) by (auto simp: node_ok_def)
qed


lemma subscribe_step:
  assumes "node_ok config node" "config_ok config" "room node" "DPS_Subscribe sha2 config mem1 mem2 mem3 node sub = (ret, node')"
  shows "node_ok config node'"
proof -
  have "node_inv config node" using assms(1) by (simp add: node_ok_def)
  note s = subscribe_ok[OF this assms(2), where ?sha2.0=sha2 and ?mem1.0=mem1 and ?mem2.0=mem2 and ?mem3.0=mem3 and sub=sub, unfolded assms(4), simplified]
  show ?thesis
  proof (cases "ret = DPS_OK")
    case True
    then obtain h bf n where "bits h = bits bf" "bv_set n = fh_set bf"
      "subscriptions node' = sub\<lparr>s_bf := Some h, s_needs := Some n\<rparr> # subscriptions node"
      using s assms(3) by (auto simp: room_def)
    moreover have "fh_set h = fh_set bf" using calculation(1) by (simp add: fh_set_def bv_set_def)
    ultimately show ?thesis using s assms(1,3) by (auto simp: node_ok_def sub_ok_def room_def)
  next
    case False
    then show ?thesis using s assms(1,3) by (auto simp: room_def)
  qed
qed

lemma unsubscribe_step:
  assumes "node_ok config node" "DPS_DestroySubscription node sub = Some (ret, node')"
  shows "node_ok config node'"
proof -
  have "node_inv config node" using assms(1) by (simp add: node_ok_def)
  from destroy_ok[OF this, of sub] assms(2)
  have "node_inv config node'" "remoteNodes node' = remoteNodes node" "set (subscriptions node') \<subseteq> set (subscriptions node)"
    using set_remove1_subset[of sub "subscriptions node"] by (auto split: if_splits)
  then show ?thesis using assms(1) by (auto simp: node_ok_def)
qed

lemma connect_ok:
  assumes "node_ok config node"
  shows "case DPS_AddRemoteNode mem node a conn of None \<Rightarrow> a_type a = DPS_UNKNOWN | Some (ret, remote, node') \<Rightarrow> node_ok config node'"
proof (cases "DPS_LookupRemoteNode node (Some a)")
  case None
  let ?r = "zero_remote\<lparr>r_ep := \<lparr>addr = a, cn = conn\<rparr>, in_meshId := DPS_MaxMeshId\<rparr>"
  let ?n = "InsertRemoteNode (node\<lparr>nextRemote := nextRemote node + 1\<rparr>) (nextRemote node) ?r"
  have "interest_vectors ?n = interest_vectors node" "needs_vectors ?n = needs_vectors node"
    by (simp_all add: InsertRemoteNode_def interest_vectors_def needs_vectors_def zero_remote_def)
  moreover have "nextRemote node \<notin> fst ` set (remoteNodes node)" using assms by (auto simp: node_ok_def node_inv_def)
  ultimately have "node_ok config ?n" using assms
    by (auto simp: node_ok_def node_inv_def counts_ok_def InsertRemoteNode_def remote_ok_def out_ok_def zero_remote_def)
  then show ?thesis using None assms by (simp add: DPS_AddRemoteNode_def Let_def)
next
  case (Some i)
  have "lookup_addr a l = Some i \<Longrightarrow> \<exists>r. (i, r) \<in> set l" for l by (induction l) (auto split: if_splits)
  then obtain r where "(i, r) \<in> set (remoteNodes node)" using Some by (auto simp: DPS_LookupRemoteNode_def)
  then have r: "deref_remote node i = Some r" using assms by (simp add: deref_remote_def node_ok_def node_inv_def)
  define f where "f = (\<lambda>r :: RemoteNode. if \<not> cn (r_ep r) then r\<lparr>r_ep := (r_ep r)\<lparr>cn := conn\<rparr>\<rparr> else r)"
  have inv: "node_inv config node" using assms by (simp add: node_ok_def)
  obtain xs ys where s: "remoteNodes node = xs @ (i, r) # ys" "i \<notin> fst ` set (xs @ ys)"
    using remote_split[OF _ r] inv by (auto simp: node_inv_def)
  have u: "update_remote i f node = update_remote i (\<lambda>_. f r) node" using update_split[OF s] by simp
  have fi: "in_interests (f r) = in_interests r" "in_needs (f r) = in_needs r" by (simp_all add: f_def)
  obtain node' where n: "update_remote i (\<lambda>_. f r) node = Some node'" "node_inv config node'"
    using node_inv_update[OF inv r fi] by blast
  have "out_ok config (f r)" using out_okD[OF assms r] by (auto simp: f_def out_ok_def)
  then have "node_ok config node'" using update_set[OF n(1)] n(2) assms by (auto simp: node_ok_def)
  then show ?thesis using Some n(1) u by (simp add: DPS_AddRemoteNode_def f_def)
qed

lemma delete_step:
  assumes "node_ok config node"
  shows "\<exists>node'. DPS_DeleteRemoteNode node i = Some node' \<and> node_ok config node'"
proof -
  have "node_inv config node" using assms by (simp add: node_ok_def)
  from delete_remote_ok[OF this, of i] show ?thesis using assms by (auto simp: node_ok_def)
qed

lemma send_complete_step:
  "node_ok config node \<Longrightarrow> \<exists>node'. DPS_SendComplete node a status = Some node' \<and> node_ok config node'"
  using delete_step by (auto simp: DPS_SendComplete_def split: option.splits)

lemma mute_step:
  assumes "node_ok config node" "deref_remote node i = Some r"
  shows "\<exists>node'. DPS_MuteRemoteNode node i st = Some (DPS_OK, node') \<and> node_ok config node'"
proof -
  have inv: "node_inv config node" using assms by (simp add: node_ok_def)
  from mute_ok[OF inv assms(2), of st] obtain node' r' where m: "DPS_MuteRemoteNode node i st = Some (DPS_OK, node')" "node_inv config node'"
    "set (remoteNodes node') = insert (i, r') {p \<in> set (remoteNodes node). fst p \<noteq> i}"
    "if r_state r = REMOTE_MUTED \<or> r_state r = REMOTE_UNLINKING then node' = node
     else r_state r' = st \<and> out_interests r' = None \<and> out_needs r' = None \<and> out_delta r' = out_delta r" by blast
  have "subscriptions node' = subscriptions node"
    using m(1) by (auto simp: DPS_MuteRemoteNode_def RemoveRemoteNode_def InsertRemoteNode_def Option.bind_eq_Some_conv split: if_splits)
  moreover have "out_ok config r'" if "node' \<noteq> node" using m(4) out_okD[OF assms] that by (auto simp: out_ok_def split: if_splits)
  ultimately have "node_ok config node'" using m(2,3) assms(1) by (cases "node' = node") (auto simp: node_ok_def)
  then show ?thesis using m(1) by blast
qed

lemma inbound_step:
  assumes "node_ok config node" "room node" "deref_remote node i = Some r" "bv_ok (bitLen config) v" "bv_ok FH_BITVECTOR_LEN w"
  shows "\<exists>node1 r' node'. UpdateInboundInterests node r v w isDelta = Some (DPS_OK, node1, r') \<and>
    update_remote i (\<lambda>_. r') node1 = Some node' \<and> node_ok config node' \<and> deref_remote node' i = Some r' \<and>
    (case in_interests r' of None \<Rightarrow> received r v isDelta = {} \<and> in_needs r' = None
     | Some v' \<Rightarrow> bv_set v' = received r v isDelta \<and> received r v isDelta \<noteq> {} \<and> in_needs r' = Some w)"
proof -
  have inv: "node_inv config node" using assms(1) by (simp add: node_ok_def)
  obtain cv cw r' where u: "UpdateInboundInterests node r v w isDelta = Some (DPS_OK, node\<lparr>n_interests := cv, n_needs := cw\<rparr>, r')"
    and c: "counts_ok config (node\<lparr>n_interests := cv, n_needs := cw\<rparr>)
      (olist (in_interests r') @ other_interests node i) (olist (in_needs r') @ other_needs node i)"
    and e: "r' = r\<lparr>in_interests := in_interests r', in_needs := in_needs r'\<rparr>"
    and k: "case in_interests r' of None \<Rightarrow> received r v isDelta = {} \<and> in_needs r' = None
     | Some v' \<Rightarrow> bv_set v' = received r v isDelta \<and> received r v isDelta \<noteq> {} \<and> in_needs r' = Some w"
    using update_inbound_ok[OF inv assms(3-5)] room_others[OF assms(2), of i] by blast
  have "out_interests r' = out_interests r" "out_needs r' = out_needs r" "out_delta r' = out_delta r" by (subst e, simp)+
  then have o: "out_ok config r'" using out_okD[OF assms(1,3)] by (simp add: out_ok_def)
  have rk: "remote_ok r'" using k by (auto simp: remote_ok_def split: option.splits)
  obtain node' where n: "update_remote i (\<lambda>_. r') (node\<lparr>n_interests := cv, n_needs := cw\<rparr>) = Some node'"
    using node_inv_replace[OF inv assms(3) rk c] by blast
  show ?thesis using u n k node_ok_store[OF assms(1,3) rk o refl c n] by blast
qed


lemma outbound_step:
  assumes "node_ok config node" "config_ok config" "deref_remote node i = Some r"
    and "DPS_UpdateOutboundInterests ndebug config mem node r = Some (ret, changes, node1, r')"
  shows "\<exists>node'. update_remote i (\<lambda>_. r') node1 = Some node' \<and> node_ok config node' \<and> deref_remote node' i = Some r'"
proof -
  have inv: "node_inv config node" using assms(1) by (simp add: node_ok_def)
  obtain cv cw where k: "node1 = node\<lparr>n_interests := cv, n_needs := cw\<rparr>" "out_ok config r'" "remote_ok r'"
    "counts_ok config node1 (olist (in_interests r') @ other_interests node i) (olist (in_needs r') @ other_needs node i)"
    using outbound_keeps[OF inv assms(3) out_okD[OF assms(1,3)] assms(2,4)] by blast
  obtain node' where n: "update_remote i (\<lambda>_. r') node1 = Some node'"
    using node_inv_replace[OF inv assms(3) k(3) k(4)[unfolded k(1)]] unfolding k(1) by blast
  show ?thesis using n node_ok_store[OF assms(1,3) k(3,2,1,4) n] by blast
qed

lemma clear_outbound_step:
  assumes "node_ok config node" "config_ok config" "deref_remote node i = Some r"
    and "DPS_ClearOutboundInterests config mem1 mem2 r = (ret, r')" "update_remote i (\<lambda>_. r') node = Some node'"
  shows "node_ok config node'"
proof -
  have inv: "node_inv config node" using assms(1) by (simp add: node_ok_def)
  obtain k where k: "bitLen config = 64 * k" "64 * k < 2 ^ 31" using config_okD[OF assms(2)] by blast
  have c: "in_interests r' = in_interests r" "in_needs r' = in_needs r"
    using assms(4) by (auto simp: DPS_ClearOutboundInterests_def Let_def FreeOutboundInterests_def split: if_splits)
  have a: "DPS_BitVectorAlloc mem1 config = Some v \<Longrightarrow> bv_ok (bitLen config) v" "DPS_BitVectorAllocFH mem2 = Some w \<Longrightarrow> bv_ok FH_BITVECTOR_LEN w" for v w
    using AllocBV_ok[of k v] AllocBV_ok[of 4 w] k
    by (auto simp: DPS_BitVectorAlloc_def DPS_BitVectorAllocFH_def AllocBV_def FH_BITVECTOR_LEN_def bv_ok_def split: if_splits)
  have b: "bv_ok n v \<Longrightarrow> bv_ok n (DPS_BitVectorClear v)" for n v using Clear_ok[of v] by (simp add: bv_ok_def)
  have "out_ok config r'" using assms(4) out_okD[OF assms(1,3)] a b
    by (auto simp: DPS_ClearOutboundInterests_def Let_def FreeOutboundInterests_def out_ok_def split: if_splits option.splits)
  moreover have "node_inv config node'" using node_inv_update[OF inv assms(3) c] assms(5) by auto
  ultimately show ?thesis using update_set[OF assms(5)] assms(1) by (auto simp: node_ok_def)
qed

lemma deref_of_mute: "DPS_MuteRemoteNode node i st = Some x \<Longrightarrow> \<exists>r. deref_remote node i = Some r"
  by (cases "deref_remote node i") (auto simp: DPS_MuteRemoteNode_def)

lemma node_step_ok: "node_step ndebug sha2 config node node' \<Longrightarrow> config_ok config \<Longrightarrow> node_ok config node \<Longrightarrow> node_ok config node'"
proof (induction rule: node_step.induct)
  case (Subscribe node mem1 mem2 mem3 sub ret node')
  then show ?case using subscribe_step by blast
next
  case (Unsubscribe node sub ret node')
  then show ?case using unsubscribe_step by blast
next
  case (Connect mem1 node a conn ret remote node')
  then show ?case using connect_ok[where config=config and node=node and mem=mem1 and a=a and conn=conn] by simp
next
  case (Delete node i node')
  then show ?case using delete_step[of config node i] by simp
next
  case (Send_Failed node a status node')
  then show ?case using send_complete_step[of config node a status] by simp
next
  case (Mute node i st ret node')
  obtain r where "deref_remote node i = Some r" using deref_of_mute[OF Mute.hyps] by blast
  then show ?case using mute_step[of config node i r st] Mute by simp
next
  case (Inbound node i r v w isDelta ret node1 r' node')
  then show ?case using inbound_step[of config node i r v w isDelta] by auto
next
  case (Outbound node i r mem ret changes node1 r' node')
  then show ?case using outbound_step[of config node i r ndebug mem ret changes node1 r'] by auto
next
  case (Clear_Outbound node i r mem1 mem2 ret r' node')
  then show ?case using clear_outbound_step by blast
qed


section \<open>Routing publications (src/dps.c)\<close>

text \<open>The matching code of \<open>SendPubs\<close>, with the two scratch vectors of the node.\<close>

definition pub_matches :: "DPS_BitVector \<Rightarrow> DPS_BitVector \<Rightarrow> DPS_BitVector \<Rightarrow> RemoteNode \<Rightarrow> bool" where
  "pub_matches scratchInterests scratchNeeds bf remote =
     (case DPS_BitVectorIntersection (Some scratchInterests) (Some bf) (in_interests remote) of
        (_, i) \<Rightarrow>
          (case DPS_BitVectorFuzzyHash (Some scratchNeeds) i of
             (_, n, _) \<Rightarrow> DPS_BitVectorIncludes n (in_needs remote)))"

text \<open>
  The remote nodes a publication is sent to: those that are active and have interests, other than the
  ones a retained publication has come from, that pass the matching code. \<open>None\<close> stands for the
  access to a freed history record.
\<close>

definition send_to :: "DPS_BitVector \<Rightarrow> DPS_BitVector \<Rightarrow> DPS_History \<Rightarrow> bool \<Rightarrow> DPS_UUID \<Rightarrow> u32 \<Rightarrow> DPS_NodeAddress \<Rightarrow> DPS_BitVector \<Rightarrow>
   RemoteNode \<Rightarrow> bool option" where
  "send_to scratchInterests scratchNeeds history local pubId sequenceNum senderAddr bf remote =
     (if r_state remote \<noteq> REMOTE_ACTIVE \<or> in_interests remote = None then Some False
      else
        do {
          back \<leftarrow> (if local then Some False
                  else DPS_PublicationReceivedFrom history pubId sequenceNum senderAddr (addr (r_ep remote)));
          Some (\<not> back \<and> pub_matches scratchInterests scratchNeeds bf remote)
        })"

text \<open>What the neighbour has stored of the announcements\<close>

definition in_step :: "RemoteNode \<Rightarrow> RemoteNode \<Rightarrow> bool" where
  "in_step r q \<longleftrightarrow>
     (case announced r of None \<Rightarrow> True | Some S \<Rightarrow> map_option bv_set (in_interests q) = (if S = {} then None else Some S))"

definition message_interests :: "RemoteNode \<Rightarrow> DPS_BitVector option" where
  "message_interests r = (if deltaInd r then out_delta r else out_interests r)"

lemma announce_received:
  assumes "node_ok config A" "config_ok config" "deref_remote A i = Some r" "r_state r \<noteq> REMOTE_UNLINKING"
    and "DPS_UpdateOutboundInterests ndebug config (\<lambda>_. True) A r = Some (ret, changes, A1, r')"
    and "node_ok config B" "room B" "deref_remote B j = Some q" "in_step r q"
    and "message_interests r' = Some v" "out_needs r' = Some w"
  shows "\<exists>B1 q'. UpdateInboundInterests B q v w (deltaInd r') = Some (DPS_OK, B1, q') \<and>
    in_step r' q' \<and> announced r' = Some (wants A i) \<and> map_option bv_set (out_needs r') = Some (requires A i) \<and>
    (case in_interests q' of None \<Rightarrow> wants A i = {} \<and> in_needs q' = None
     | Some v' \<Rightarrow> bv_ok (bitLen config) v' \<and> bv_set v' = wants A i \<and> wants A i \<noteq> {} \<and> in_needs q' = Some w \<and> bv_ok FH_BITVECTOR_LEN w)"
proof -
  have inv: "node_inv config A" using assms(1) by (simp add: node_ok_def)
  obtain k where k: "bitLen config = 64 * k" "64 * k < 2 ^ 31" using config_okD[OF assms(2)] by blast
  note u = update_outbound_ok[OF inv assms(3) out_okD[OF assms(1,3)] k assms(4), of ndebug]
  have r': "out_ok config r'" "announced r' = Some (wants A i)" "map_option bv_set (out_needs r') = Some (requires A i)"
    "deltaInd r' = (announced r \<noteq> None)"
    "\<forall>old. announced r = Some old \<longrightarrow> (\<exists>d. out_delta r' = Some d \<and> bv_set d = sym_diff old (wants A i))"
    using u assms(5) by (auto split: if_splits)
  have v: "bv_ok (bitLen config) v" "bv_ok FH_BITVECTOR_LEN w"
    using r'(1) assms(10,11) by (auto simp: out_ok_def message_interests_def split: if_splits)
  have rec: "received q v (deltaInd r') = wants A i"
  proof (cases "announced r")
    case None
    then have "deltaInd r' = False" using r'(4) by simp
    moreover have "bv_set v = wants A i" using r'(2) assms(10) None r'(4) by (auto simp: message_interests_def announced_def)
    ultimately show ?thesis by (simp add: received_def split: option.splits)
  next
    case (Some old)
    then have d: "deltaInd r'" "bv_set v = sym_diff old (wants A i)" using r'(4,5) assms(10) by (auto simp: message_interests_def)
    have "map_option bv_set (in_interests q) = (if old = {} then None else Some old)" using assms(9) Some by (simp add: in_step_def)
    then show ?thesis using d by (cases "in_interests q") (auto simp: received_def split: if_splits)
  qed
  obtain B1 q' B' where q: "UpdateInboundInterests B q v w (deltaInd r') = Some (DPS_OK, B1, q')" "node_ok config B'" "deref_remote B' j = Some q'"
    "case in_interests q' of None \<Rightarrow> received q v (deltaInd r') = {} \<and> in_needs q' = None
     | Some v' \<Rightarrow> bv_set v' = received q v (deltaInd r') \<and> received q v (deltaInd r') \<noteq> {} \<and> in_needs q' = Some w"
    using inbound_step[OF assms(6-8) v] by blast
  have "bv_ok (bitLen config) v'" if "in_interests q' = Some v'" for v'
    using node_counts[of config B' j q'] q(2,3) that by (auto simp: node_ok_def counts_ok_def)
  then show ?thesis using q(1,4) rec r'(2,3) v(2)
    by - (rule exI[of _ B1], rule exI[of _ q'], auto simp: in_step_def split: option.splits)
qed



text \<open>C6: What is announced to a neighbour is exactly the union of the interests, and what is required
  exactly the intersection of the needs, of the local subscriptions and of all other neighbours; the
  revision grows when the announced interests change, and the difference is prepared.\<close>

theorem announcement_complete:
  assumes "node_ok config node" "config_ok config" "deref_remote node i = Some r" "r_state r \<noteq> REMOTE_UNLINKING"
    and "DPS_UpdateOutboundInterests ndebug config (\<lambda>_. True) node r = Some (ret, changes, node1, r')"
  shows "ret = DPS_OK \<and> announced r' = Some (\<Union>v \<in> set (other_interests node i). bv_set v) \<and>
    map_option bv_set (out_needs r') =
      Some (if other_needs node i = [] then {} else \<Inter>w \<in> set (other_needs node i). bv_set w) \<and>
    changes = (announced r \<noteq> announced r') \<and> out_revision r' = (if changes then out_revision r + 1 else out_revision r) \<and>
    (case announced r of None \<Rightarrow> \<not> deltaInd r'
     | Some old \<Rightarrow> deltaInd r' \<and> map_option bv_set (out_delta r') = Some (sym_diff old (the (announced r'))))"
proof -
  have inv: "node_inv config node" using assms(1) by (simp add: node_ok_def)
  obtain k where k: "bitLen config = 64 * k" "64 * k < 2 ^ 31" using config_okD[OF assms(2)] by blast
  show ?thesis
    using update_outbound_ok[OF inv assms(3) out_okD[OF assms(1,3)] k assms(4), of ndebug] assms(5)
    by (auto simp: wants_def requires_def needs_of_def split: if_splits option.splits)
qed

text \<open>C2: A subscription reaches the neighbours: after a node has announced its interests, in full or
  as a difference, and the neighbour has processed the message, the neighbour's matching code passes
  every publication whose filter includes that of a local subscription of the node, and the two
  nodes stay in step for the next difference.\<close>

theorem subscription_reaches_neighbour:
  assumes "node_ok config A" "config_ok config" "deref_remote A i = Some r" "r_state r \<noteq> REMOTE_UNLINKING"
    and "DPS_UpdateOutboundInterests ndebug config (\<lambda>_. True) A r = Some (ret, changes, A1, r')"
    and "node_ok config B" "room B" "deref_remote B j = Some q" "in_step r q"
    and "message_interests r' = Some v" "out_needs r' = Some w"
    and "s \<in> set (subscriptions A)" "s_bf s = Some f" "bv_set f \<noteq> {}" "bv_set f \<subseteq> bv_set bf"
    and "bv_ok (bitLen config) bf" "bv_ok (bitLen config) scri" "bv_ok FH_BITVECTOR_LEN scrn"
  shows "\<exists>B1 q'. UpdateInboundInterests B q v w (deltaInd r') = Some (DPS_OK, B1, q') \<and>
    in_step r' q' \<and> pub_matches scri scrn bf q'"
proof -
  obtain B1 q' where q: "UpdateInboundInterests B q v w (deltaInd r') = Some (DPS_OK, B1, q')" "in_step r' q'"
    "map_option bv_set (out_needs r') = Some (requires A i)"
    "case in_interests q' of None \<Rightarrow> wants A i = {} \<and> in_needs q' = None
     | Some v' \<Rightarrow> bv_ok (bitLen config) v' \<and> bv_set v' = wants A i \<and> wants A i \<noteq> {} \<and> in_needs q' = Some w \<and> bv_ok FH_BITVECTOR_LEN w"
    using announce_received[OF assms(1-11)] by blast
  obtain n where n: "s_needs s = Some n" "bv_set n = fh_set f" using assms(1,12,13) by (auto simp: node_ok_def sub_ok_def)
  have sub: "f \<in> set (other_interests A i)" "n \<in> set (other_needs A i)"
    using assms(12,13) n by (auto simp: other_interests_def other_needs_def interest_vectors_def needs_vectors_def intro!: bexI[of _ s])
  then have f: "bv_set f \<subseteq> wants A i" by (auto simp: wants_def)
  then obtain v' where v': "in_interests q' = Some v'" "bv_ok (bitLen config) v'" "bv_set v' = wants A i" "in_needs q' = Some w" "bv_ok FH_BITVECTOR_LEN w"
    using q(4) assms(14) by (auto split: option.splits)
  have w: "bv_set w \<subseteq> fh_set f" using q(3) assms(11) sub(2) n(2) by (auto simp: requires_def needs_of_def split: if_splits)
  have "counts_ok config A (interest_vectors A) (needs_vectors A)" using assms(1) by (simp add: node_ok_def node_inv_def)
  moreover have "f \<in> set (interest_vectors A)" using assms(12,13) by (auto simp: interest_vectors_def intro!: bexI[of _ s])
  ultimately have okf: "bv_ok (bitLen config) f" by (simp add: counts_ok_def)
  have h: "bv_set w \<subseteq> bv_set (bv_hash scrn f)" using bv_hash_ok[OF assms(18) okf] w by simp
  have "DPS_BitVectorIncludes (Some (bv_hash scrn (bv_inter scri bf v'))) (Some w)"
    using bvr.no_lost_route[OF assms(17,18,18) v'(5) assms(16) v'(2) okf assms(15,14) _ h] f v'(3) by simp
  moreover have "bv_ok (bitLen config) (bv_inter scri bf v')" using bv_inter_ok assms(16,17) v'(2) by blast
  ultimately have "pub_matches scri scrn bf q'"
    using v' Intersection_ok[of scri bf v'] FuzzyHash_ok[of scrn "bv_inter scri bf v'"] assms(16-18)
    by (auto simp: pub_matches_def bv_inter_def bv_hash_def bv_ok_def)
  then show ?thesis using q(1,2) by blast
qed



section \<open>Examples\<close>

text \<open>A node with subscriptions to the given filters of 64 bits and one remote node\<close>

definition c64 :: Configuration where "c64 = \<lparr>bitLen = 64, numHashes = 1\<rparr>"

definition fh0 :: DPS_BitVector where "fh0 = \<lparr>popCount = -1, bv_len = FH_BITVECTOR_LEN, bits = replicate 4 0\<rparr>"

definition sub_of :: "DPS_BitVector \<Rightarrow> DPS_Subscription" where
  "sub_of f = \<lparr>s_id = 0, s_bf = Some f, s_needs = Some (bv_hash fh0 f), s_topics = [], s_flags = 0, s_refCount = 0\<rparr>"

definition node_with :: "DPS_BitVector list \<Rightarrow> RemoteNode \<Rightarrow> DPS_Node" where
  "node_with fs r = \<lparr>n_state = DPS_NODE_RUNNING, subsPending = SubsNonePending,
     n_addr = \<lparr>a_type = DPS_UDP, inaddr = AF_INET 1 1, path = []\<rparr>, meshId = UUID 0 1, separators = [47], remoteNodes = [(0, r)],
     nextRemote = 1, n_interests = Some (fold (\<lambda>f c. cv_add c f) fs cv64),
     n_needs = Some (fold (\<lambda>f c. cv_add c (bv_hash fh0 f)) fs (the (DPS_CountVectorAllocFH True))),
     subscriptions = rev (map sub_of fs), freeSubs = [],
     pubs = Map.empty, publications = [], freePubs = [], nextPub = 0, reqs = Map.empty, nextReq = 0, sending = [],
     ackQueue = [], sendingAcks = [], n_signer = no_entity, n_history = empty_history,
     mcastSender = False, netCtx = True, requestQueue = [], onShutdown = False, linkLossCB = False, subsRate = 1000,
     n_entropy = \<lparr>nonce = (1, 2), seeds = (1, 2, 3, 4)\<rparr>, events = []\<rparr>"

lemma c64_ok [simp]: "config_ok c64" "bitLen c64 = 64" by (simp_all add: config_ok_def c64_def)

lemma fh0_ok [simp]: "bv_ok FH_BITVECTOR_LEN fh0" by (simp add: fh0_def bv_ok_def bv_wf_def FH_BITVECTOR_LEN_def)

lemma concat_rev_singletons: "concat (rev (map (\<lambda>x. [g x]) xs)) = rev (map g xs)"
  by (induction xs) auto

lemma node_with_vectors:
  "in_interests r = None \<Longrightarrow> in_needs r = None \<Longrightarrow>
   interest_vectors (node_with fs r) = rev fs \<and> needs_vectors (node_with fs r) = rev (map (bv_hash fh0) fs)"
  using concat_rev_singletons[of id fs] concat_rev_singletons[of "bv_hash fh0" fs]
  by (simp add: interest_vectors_def needs_vectors_def node_with_def sub_of_def rev_map[symmetric] o_def)

lemma node_with_ok:
  assumes "\<forall>f \<in> set fs. bv_ok 64 f" "length fs \<le> CV_MAX" "in_interests r = None" "in_needs r = None" "out_ok c64 r"
  shows "node_ok c64 (node_with fs r)"
proof -
  have i: "\<exists>cv. fold (\<lambda>f c. cv_add c f) gs cv64 = cv \<and> int_rep 64 cv (image_mset bv_set (mset gs))"
    if "\<forall>f \<in> set gs. bv_ok 64 f" "length gs \<le> CV_MAX" for gs
    using that
  proof (induction gs rule: rev_induct)
    case (snoc g gs)
    then show ?case using cv_add_rep[of "fold (\<lambda>f c. cv_add c f) gs cv64" "image_mset bv_set (mset gs)" g]
      by (auto simp: int_rep_def)
  qed (simp add: cv64_rep)
  obtain c0 where c0: "DPS_CountVectorAllocFH True = Some c0" by (simp add: DPS_CountVectorAllocFH_def AllocCV_def)
  have n: "\<exists>cv. fold (\<lambda>f c. cv_add c (bv_hash fh0 f)) gs c0 = cv \<and> need_rep FH_BITVECTOR_LEN cv (image_mset bv_set (mset (map (bv_hash fh0) gs)))"
    if "\<forall>f \<in> set gs. bv_ok 64 f" "length gs \<le> CV_MAX" for gs
    using that
  proof (induction gs rule: rev_induct)
    case (snoc g gs)
    then show ?case using cv_add_rep[of "fold (\<lambda>f c. cv_add c (bv_hash fh0 f)) gs c0" "image_mset bv_set (mset (map (bv_hash fh0) gs))" "bv_hash fh0 g"]
        bv_hash_ok[OF fh0_ok, of 64 g]
      by (auto simp: need_rep_def)
  qed (use AllocFH_rep[OF c0] in \<open>simp add: need_rep_def\<close>)
  note v = node_with_vectors[OF assms(3,4), of fs]
  have "counts_ok c64 (node_with fs r) (rev fs) (rev (map (bv_hash fh0) fs))"
    using i[OF assms(1,2)] n[OF assms(1,2)] assms(1) bv_hash_ok[OF fh0_ok, of 64] c0
    by (auto simp: counts_ok_def node_with_def)
  moreover have "sub_ok (sub_of f)" if "f \<in> set fs" for f
    using that assms(1) bv_hash_ok[OF fh0_ok, of 64 f] by (auto simp: sub_ok_def sub_of_def)
  ultimately show ?thesis using assms v
    by (auto simp: node_ok_def node_inv_def node_with_def remote_ok_def sub_of_def)
qed


lemma others_with:
  assumes "in_interests r = None" "in_needs r = None"
  shows "other_interests (node_with fs r) 0 = rev fs" "other_needs (node_with fs r) 0 = rev (map (bv_hash fh0) fs)"
proof -
  have "in_interests zero_remote = None" "in_needs zero_remote = None" by (simp_all add: zero_remote_def)
  from node_with_vectors[OF this, of fs]
  show "other_interests (node_with fs r) 0 = rev fs" "other_needs (node_with fs r) 0 = rev (map (bv_hash fh0) fs)"
    by (simp_all add: other_interests_def other_needs_def interest_vectors_def needs_vectors_def node_with_def zero_remote_def)
qed

lemma example_nodes [simp]:
  "set fs \<subseteq> range bv64 \<Longrightarrow> length fs \<le> 2 \<Longrightarrow> node_ok c64 (node_with fs zero_remote)"
  "length fs \<le> 2 \<Longrightarrow> room (node_with fs zero_remote)"
  "deref_remote (node_with fs r) 0 = Some r"
proof -
  have z: "in_interests zero_remote = None" "in_needs zero_remote = None" "out_ok c64 zero_remote" "announced zero_remote = None"
    by (simp_all add: zero_remote_def out_ok_def announced_def)
  show "set fs \<subseteq> range bv64 \<Longrightarrow> length fs \<le> 2 \<Longrightarrow> node_ok c64 (node_with fs zero_remote)"
  proof -
    assume a: "set fs \<subseteq> range bv64" "length fs \<le> 2"
    have "\<forall>f \<in> set fs. bv_ok 64 f" using a(1) by auto
    then show ?thesis using node_with_ok[of fs zero_remote] z a(2) by (simp add: CV_MAX_def)
  qed
  show "length fs \<le> 2 \<Longrightarrow> room (node_with fs zero_remote)"
    using node_with_vectors[OF z(1,2)] by (simp add: room_def CV_MAX_def)
  show "deref_remote (node_with fs r) 0 = Some r" by (simp add: node_with_def deref_remote_def)
qed

lemma zero_remote_simps [simp]:
  "r_state zero_remote = REMOTE_NEW" "announced zero_remote = None" "in_step zero_remote q" "out_ok c64 zero_remote"
  "in_interests zero_remote = None" "in_needs zero_remote = None"
  by (simp_all add: zero_remote_def announced_def in_step_def out_ok_def)

text \<open>The first announcement always goes through.\<close>

lemma first_announcement:
  assumes "set fs \<subseteq> range bv64" "length fs \<le> 2"
  shows "\<exists>node1 r' v w. DPS_UpdateOutboundInterests False c64 (\<lambda>_. True) (node_with fs zero_remote) zero_remote = Some (DPS_OK, True, node1, r') \<and>
    message_interests r' = Some v \<and> out_needs r' = Some w"
proof -
  have inv: "node_inv c64 (node_with fs zero_remote)" using example_nodes(1)[OF assms] by (simp add: node_ok_def)
  obtain node1 r' where u: "DPS_UpdateOutboundInterests False c64 (\<lambda>_. True) (node_with fs zero_remote) zero_remote = Some (DPS_OK, True, node1, r')"
    "announced r' \<noteq> None" "out_needs r' \<noteq> None" "\<not> deltaInd r'"
    using update_outbound_ok[OF inv example_nodes(3), of 1 False] by auto
  then show ?thesis by (auto simp: announced_def message_interests_def)
qed



theorem announcement_complete_witness:
  "\<exists>node1 r'. DPS_UpdateOutboundInterests False c64 (\<lambda>_. True) (node_with [bv64 3] zero_remote) zero_remote = Some (DPS_OK, True, node1, r') \<and>
    announced r' = Some (bv_set (bv64 3))"
proof -
  obtain node1 r' where u: "DPS_UpdateOutboundInterests False c64 (\<lambda>_. True) (node_with [bv64 3] zero_remote) zero_remote = Some (DPS_OK, True, node1, r')"
    using first_announcement[of "[bv64 3]"] by auto
  then show ?thesis using announcement_complete[OF _ _ example_nodes(3) _ u] by (simp add: others_with)
qed

theorem subscription_reaches_neighbour_witness:
  "\<exists>A1 r' v w B1 q'. DPS_UpdateOutboundInterests False c64 (\<lambda>_. True) (node_with [bv64 3] zero_remote) zero_remote = Some (DPS_OK, True, A1, r') \<and>
    UpdateInboundInterests (node_with [] zero_remote) zero_remote v w (deltaInd r') = Some (DPS_OK, B1, q') \<and>
    pub_matches (bv64 0) fh0 (bv64 7) q'"
proof -
  obtain A1 r' v w where u: "DPS_UpdateOutboundInterests False c64 (\<lambda>_. True) (node_with [bv64 3] zero_remote) zero_remote = Some (DPS_OK, True, A1, r')"
    "message_interests r' = Some v" "out_needs r' = Some w"
    using first_announcement[of "[bv64 3]"] by auto
  have s: "sub_of (bv64 3) \<in> set (subscriptions (node_with [bv64 3] zero_remote))" "s_bf (sub_of (bv64 3)) = Some (bv64 3)"
    by (simp_all add: node_with_def sub_of_def)
  have f: "bv_set (bv64 3) \<noteq> {}" "bv_set (bv64 3) \<subseteq> bv_set (bv64 7)" by (simp_all add: bv64_subset)
  show ?thesis
    using subscription_reaches_neighbour[OF _ _ example_nodes(3) _ u(1) _ _ example_nodes(3) _ u(2,3) s f, of "[]" zero_remote "bv64 0" fh0] u(1)
    by auto
qed


text \<open>Subscribing to one of two topics that are both subscribed to already changes only the needs.\<close>

lemma fh_examples: "193 \<in> fh_set (bv64 3)" "193 \<notin> fh_set (bv64 1)"
proof -
  have c: "card (bv_set (bv64 c)) = POPCOUNT c" for c using card_positions[of "[c]"] by (simp add: bv_set_def bv64_def)
  have p: "POPCOUNT 3 = 2" "POPCOUNT 1 = 1" by code_simp+
  show "193 \<in> fh_set (bv64 3)" "193 \<notin> fh_set (bv64 1)"
    unfolding fh_set_def c p bv64_subset by (simp_all add: fh_chunks_def Let_def positions_def bit_at_def bv64_def)
qed

definition announced_before :: RemoteNode where
  "announced_before = zero_remote\<lparr>out_interests := Some (bv64 3), out_needs := Some (bv_hash fh0 (bv64 3))\<rparr>"


end
