(* ===== verification/Sub_Message.thy ===== *)
theory Sub_Message
  imports Cbor_Skip Bv_Serialize Interest_Routing
begin

text \<open>
  Subscription messages (\<^verbatim>\<open>src/sub.c\<close>, \<^verbatim>\<open>src/dps.c\<close>): the encoding of SUB and SAK by
  \<open>DPS_SendSubscription\<close> and \<open>DPS_SendSubscriptionAck\<close>, and the first half of \<open>DecodeSubscription\<close>, which
  reads the unprotected map of a message into its fields. The main property is that arbitrary received
  bytes are read safely; \<open>Message_Wire\<close> shows that what is sent is read back.

  The network is a parameter: \<open>net\<close> is the status that handing a message over to it returns, which
  may depend on the state of the node. The random contents of a fresh buffer are those of \<open>malloc\<close>.
\<close>

section \<open>Message types, keys and flags\<close>

definition DPS_MSG_VERSION :: u8 where "DPS_MSG_VERSION = 1"
definition DPS_MSG_TYPE_PUB :: u8 where "DPS_MSG_TYPE_PUB = 1"
definition DPS_MSG_TYPE_SUB :: u8 where "DPS_MSG_TYPE_SUB = 2"
definition DPS_MSG_TYPE_ACK :: u8 where "DPS_MSG_TYPE_ACK = 3"
definition DPS_MSG_TYPE_SAK :: u8 where "DPS_MSG_TYPE_SAK = 4"

definition DPS_CBOR_KEY_PORT :: int where "DPS_CBOR_KEY_PORT = 1"
definition DPS_CBOR_KEY_SEQ_NUM :: int where "DPS_CBOR_KEY_SEQ_NUM = 4"
definition DPS_CBOR_KEY_SUB_FLAGS :: int where "DPS_CBOR_KEY_SUB_FLAGS = 7"
definition DPS_CBOR_KEY_MESH_ID :: int where "DPS_CBOR_KEY_MESH_ID = 8"
definition DPS_CBOR_KEY_NEEDS :: int where "DPS_CBOR_KEY_NEEDS = 9"
definition DPS_CBOR_KEY_INTERESTS :: int where "DPS_CBOR_KEY_INTERESTS = 10"
definition DPS_CBOR_KEY_ACK_SEQ_NUM :: int where "DPS_CBOR_KEY_ACK_SEQ_NUM = 13"
definition DPS_CBOR_KEY_PATH :: int where "DPS_CBOR_KEY_PATH = 14"

lemmas key_defs = DPS_CBOR_KEY_PORT_def DPS_CBOR_KEY_SEQ_NUM_def DPS_CBOR_KEY_SUB_FLAGS_def DPS_CBOR_KEY_MESH_ID_def
  DPS_CBOR_KEY_NEEDS_def DPS_CBOR_KEY_INTERESTS_def DPS_CBOR_KEY_ACK_SEQ_NUM_def DPS_CBOR_KEY_PATH_def

definition DPS_SUB_FLAG_DELTA_IND :: u8 where "DPS_SUB_FLAG_DELTA_IND = 0x01"
definition DPS_SUB_FLAG_SAK_REQ :: u8 where "DPS_SUB_FLAG_SAK_REQ = 0x02"
definition DPS_SUB_FLAG_UNLINK_IND :: u8 where "DPS_SUB_FLAG_UNLINK_IND = 0x04"
definition DPS_SUB_FLAG_MUTE_IND :: u8 where "DPS_SUB_FLAG_MUTE_IND = 0x08"
definition DPS_SUB_FLAG_UNMUTE_REQ :: u8 where "DPS_SUB_FLAG_UNMUTE_REQ = 0x10"

section \<open>Encoding\<close>

text \<open>
  A message is written by a sequence of steps, each of which is taken when all before have
  succeeded. The vector of interests goes along, since its serialization stores its count in it.
  \<open>None\<close> is the use of a vector that is not there, or undefined behaviour of the serialization.
\<close>

type_synonym enc_state = "DPS_TxBuffer \<times> DPS_BitVector option"
type_synonym enc_step = "enc_state \<Rightarrow> (DPS_Status \<times> enc_state) option"

fun run_steps :: "enc_step list \<Rightarrow> DPS_Status \<times> enc_state \<Rightarrow> (DPS_Status \<times> enc_state) option" where
  "run_steps [] (ret, s) = Some (ret, s)"
| "run_steps (f # fs) (ret, s) =
     (if ret = DPS_OK then Option.bind (f s) (run_steps fs) else Some (ret, s))"

definition enc :: "(DPS_TxBuffer \<Rightarrow> DPS_Status \<times> DPS_TxBuffer) \<Rightarrow> enc_step" where
  "enc f s = (case f (fst s) of (ret, b) \<Rightarrow> Some (ret, (b, snd s)))"

definition enc_uint :: "u64 \<Rightarrow> enc_step" where
  "enc_uint n = enc (\<lambda>b. CBOR_EncodeUint b n)"

definition enc_key :: "int \<Rightarrow> enc_step" where
  "enc_key k = enc_uint (word_of_int k)"

definition enc_needs :: "DPS_BitVector option \<Rightarrow> enc_step" where
  "enc_needs needs s = (case needs of None \<Rightarrow> None | Some v \<Rightarrow> enc (DPS_BitVectorSerializeFH v) s)"

definition enc_interests :: enc_step where
  "enc_interests s =
     (case snd s of
        None \<Rightarrow> None
      | Some v \<Rightarrow> map_option (\<lambda>(ret, v, b). (ret, (b, Some v))) (DPS_BitVectorSerialize v (fst s)))"

definition is_ip :: "DPS_NodeAddressType \<Rightarrow> bool" where
  "is_ip t \<longleftrightarrow> t = DPS_DTLS \<or> t = DPS_TCP \<or> t = DPS_UDP"

text \<open>The bytes for the listening address; \<open>None\<close> is the invalid kind of address.\<close>

definition addr_size :: "DPS_NodeAddress \<Rightarrow> nat option" where
  "addr_size a =
     (if is_ip (a_type a) then Some (1 + 2)
      else if a_type a = DPS_PIPE then Some (CBOR_SizeOfString (Some (path a)))
      else None)"

definition port_steps :: "DPS_NodeAddress \<Rightarrow> enc_step list" where
  "port_steps a =
     (if is_ip (a_type a) then [enc_key DPS_CBOR_KEY_PORT, enc_uint (ucast (DPS_NetAddrPort (inaddr a)))] else [])"

definition path_steps :: "DPS_NodeAddress \<Rightarrow> enc_step list" where
  "path_steps a =
     (if a_type a = DPS_PIPE then [enc_key DPS_CBOR_KEY_PATH, enc (\<lambda>b. CBOR_EncodeString b (Some (path a)))] else [])"

definition interest_steps :: "RemoteNode \<Rightarrow> enc_step list" where
  "interest_steps remote =
     [enc_key DPS_CBOR_KEY_NEEDS, enc_needs (out_needs remote), enc_key DPS_CBOR_KEY_INTERESTS, enc_interests]"

definition header_steps :: "u8 \<Rightarrow> nat \<Rightarrow> enc_step list" where
  "header_steps msgType numMapEntries =
     [enc (\<lambda>b. CBOR_EncodeArray b 5), enc_uint (ucast DPS_MSG_VERSION), enc_uint (ucast msgType),
      enc (\<lambda>b. CBOR_EncodeMap b numMapEntries)]"

definition common_steps :: "u32 \<Rightarrow> u8 \<Rightarrow> DPS_UUID \<Rightarrow> enc_step list" where
  "common_steps revision flags mesh =
     [enc_key DPS_CBOR_KEY_SEQ_NUM, enc_uint (ucast revision), enc_key DPS_CBOR_KEY_SUB_FLAGS, enc_uint (ucast flags),
      enc_key DPS_CBOR_KEY_MESH_ID, enc (\<lambda>b. CBOR_EncodeUUID b (uuid_val mesh))]"

definition empty_maps :: "enc_step list" where
  "empty_maps = [enc (\<lambda>b. CBOR_EncodeMap b 0), enc (\<lambda>b. CBOR_EncodeMap b 0)]"

text \<open>The size of the array, version, type, map and empty maps of a message, with \<open>n\<close> entries\<close>

definition frame_size :: "nat \<Rightarrow> nat" where
  "frame_size n = CBOR_SIZEOF_LEN 5 + 2 + 2 + CBOR_SIZEOF_LEN (word_of_nat n) + n * 2 +
     CBOR_SIZEOF_LEN 0 + CBOR_SIZEOF_LEN 0"

subsection \<open>Subscriptions\<close>

definition sub_flags :: "RemoteNode \<Rightarrow> u8" where
  "sub_flags remote =
     (if r_state remote \<noteq> REMOTE_UNLINKING
      then DPS_SUB_FLAG_SAK_REQ OR (if deltaInd remote then DPS_SUB_FLAG_DELTA_IND else 0) OR
           (if r_state remote = REMOTE_UNMUTING then DPS_SUB_FLAG_UNMUTE_REQ else 0)
      else DPS_SUB_FLAG_SAK_REQ OR DPS_SUB_FLAG_UNLINK_IND)"

definition sub_interests :: "RemoteNode \<Rightarrow> DPS_BitVector option" where
  "sub_interests remote =
     (if r_state remote = REMOTE_UNLINKING then None
      else if deltaInd remote then out_delta remote else out_interests remote)"

definition sub_steps :: "DPS_NodeAddress \<Rightarrow> RemoteNode \<Rightarrow> DPS_UUID \<Rightarrow> enc_step list" where
  "sub_steps a remote mesh =
     header_steps DPS_MSG_TYPE_SUB (if r_state remote = REMOTE_UNLINKING then 4 else 6) @ port_steps a @
     common_steps (out_revision remote) (sub_flags remote) mesh @
     (if r_state remote \<noteq> REMOTE_UNLINKING then interest_steps remote else []) @ path_steps a @ empty_maps"

text \<open>The size that is allocated; the outer \<open>None\<close> is the missing vector, the inner one the invalid
  address.\<close>

definition sub_size :: "DPS_NodeAddress \<Rightarrow> RemoteNode \<Rightarrow> nat option option" where
  "sub_size a remote =
     (case addr_size a of
        None \<Rightarrow> Some None
      | Some n \<Rightarrow>
          (if r_state remote = REMOTE_UNLINKING
           then Some (Some (frame_size 4 + 2 + 5 + (16 + CBOR_SIZEOF_LEN 16) + n))
           else
             (case sub_interests remote of
                None \<Rightarrow> None
              | Some v \<Rightarrow> Some (Some (frame_size 6 + 2 + 5 + (16 + CBOR_SIZEOF_LEN 16) + n +
                  DPS_BitVectorSerializeMaxSize v + DPS_BitVectorSerializeFHSize)))))"

text \<open>The vector that was serialized, with its count, is the delta or the interests of the remote.\<close>

definition put_interests :: "DPS_BitVector option \<Rightarrow> RemoteNode \<Rightarrow> RemoteNode" where
  "put_interests i remote =
     (if deltaInd remote then remote\<lparr>out_delta := i\<rparr> else remote\<lparr>out_interests := i\<rparr>)"

type_synonym network = "DPS_Node \<Rightarrow> DPS_NetEndpoint \<Rightarrow> u8 list \<Rightarrow> DPS_Status"

text \<open>
  The common part of sending both messages: the buffer is allocated, the steps are run and the bytes
  are handed to the network. \<open>put\<close> stores the vector back, \<open>sent\<close> and \<open>failed\<close> record the outcome in the
  remote; a failure removes the remote through \<open>DPS_SendComplete\<close>.
\<close>

definition transmit ::
  "(nat \<Rightarrow> u8 list option) \<Rightarrow> network \<Rightarrow> nat \<Rightarrow> enc_step list \<Rightarrow> DPS_BitVector option \<Rightarrow> nat \<Rightarrow>
   (DPS_BitVector option \<Rightarrow> RemoteNode \<Rightarrow> RemoteNode) \<Rightarrow> (RemoteNode \<Rightarrow> RemoteNode) \<Rightarrow> (RemoteNode \<Rightarrow> RemoteNode) \<Rightarrow>
   DPS_Node \<Rightarrow> (DPS_Status \<times> DPS_Node) option" where
  "transmit malloc net len steps i remote put sent failed node =
     (case DPS_TxBufferInit malloc None len of
        (ret, buf) \<Rightarrow>
          do {
            (ret, buf, i) \<leftarrow> run_steps steps (ret, (buf, i));
            node \<leftarrow> update_remote remote (put i) node;
            r \<leftarrow> deref_remote node remote;
            if ret \<noteq> DPS_OK then Some (ret, node)
            else
              (let st = net node (r_ep r) (tx_out buf) in
               if st = DPS_OK then
                 do {
                   node \<leftarrow> update_remote remote sent node;
                   Some (DPS_OK, emit (Sent (r_ep r) (tx_out buf)) node)
                 }
               else
                 do {
                   node \<leftarrow> update_remote remote failed node;
                   node \<leftarrow> DPS_SendComplete node (Some (addr (r_ep r))) st;
                   Some (st, node)
                 })
          })"

definition sub_put :: "DPS_BitVector option \<Rightarrow> RemoteNode \<Rightarrow> RemoteNode" where
  "sub_put i remote = (if r_state remote = REMOTE_UNLINKING then remote else put_interests i remote)"

definition sub_sent :: "RemoteNode \<Rightarrow> RemoteNode" where
  "sub_sent remote = remote\<lparr>sakPending := True, sakCounter := (if sakPending remote then sakCounter remote else 0),
     lastSubMsgType := DPS_MSG_TYPE_SUB\<rparr>"

definition sub_failed :: "RemoteNode \<Rightarrow> RemoteNode" where
  "sub_failed remote = remote\<lparr>sakPending := False, lastSubMsgType := 0\<rparr>"

definition DPS_SendSubscription ::
  "(nat \<Rightarrow> u8 list option) \<Rightarrow> network \<Rightarrow> DPS_Node \<Rightarrow> nat \<Rightarrow> (DPS_Status \<times> DPS_Node) option" where
  "DPS_SendSubscription malloc net node remote =
     do {
       r \<leftarrow> deref_remote node remote;
       if r_state r = REMOTE_MUTED then None
       else if \<not> netCtx node then Some (DPS_ERR_NETWORK, node)
       else
         do {
           len \<leftarrow> sub_size (n_addr node) r;
           case len of
             None \<Rightarrow> Some (DPS_ERR_INVALID, node)
           | Some len \<Rightarrow>
               transmit malloc net len (sub_steps (n_addr node) r (DPS_MinMeshId node (Some remote))) (sub_interests r)
                 remote sub_put sub_sent sub_failed node
         }
     }"

subsection \<open>Acknowledgements\<close>

text \<open>The remote with the state an acknowledgement leaves it in, and the flags that are sent\<close>

definition sak_remote :: "RemoteNode \<Rightarrow> RemoteNode" where
  "sak_remote remote =
     (if r_state remote = REMOTE_UNMUTING then remote\<lparr>r_state := REMOTE_ACTIVE, sendInterests := True\<rparr> else remote)"

definition sak_with_interests :: "RemoteNode \<Rightarrow> bool \<Rightarrow> bool" where
  "sak_with_interests remote collision \<longleftrightarrow> \<not> collision \<and> sendInterests (sak_remote remote)"

definition sak_flags :: "RemoteNode \<Rightarrow> bool \<Rightarrow> u8" where
  "sak_flags remote collision =
     (if deltaInd remote then DPS_SUB_FLAG_DELTA_IND else 0) OR
     (if r_state remote = REMOTE_UNLINKING then DPS_SUB_FLAG_UNLINK_IND else 0) OR
     (if r_state remote = REMOTE_MUTED then DPS_SUB_FLAG_MUTE_IND else 0) OR
     (if sak_with_interests remote collision then DPS_SUB_FLAG_SAK_REQ else 0)"

definition sak_interests :: "RemoteNode \<Rightarrow> bool \<Rightarrow> DPS_BitVector option" where
  "sak_interests remote collision =
     (if sak_with_interests remote collision
      then if deltaInd remote then out_delta remote else out_interests remote else None)"

definition sak_steps :: "DPS_NodeAddress \<Rightarrow> RemoteNode \<Rightarrow> bool \<Rightarrow> DPS_UUID \<Rightarrow> enc_step list" where
  "sak_steps a remote collision mesh =
     header_steps DPS_MSG_TYPE_SAK (if sak_with_interests remote collision then 7 else 5) @ port_steps a @
     common_steps (out_revision remote) (sak_flags remote collision) mesh @
     (if sak_with_interests remote collision then interest_steps remote else []) @
     [enc_key DPS_CBOR_KEY_ACK_SEQ_NUM, enc_uint (ucast (in_revision remote))] @ path_steps a @ empty_maps"

definition sak_size :: "DPS_NodeAddress \<Rightarrow> RemoteNode \<Rightarrow> bool \<Rightarrow> nat option option" where
  "sak_size a remote collision =
     (case addr_size a of
        None \<Rightarrow> Some None
      | Some n \<Rightarrow>
          (if sak_with_interests remote collision
           then
             (case sak_interests remote collision of
                None \<Rightarrow> None
              | Some v \<Rightarrow> Some (Some (frame_size 7 + 2 + 5 + 5 + (16 + CBOR_SIZEOF_LEN 16) + n +
                  DPS_BitVectorSerializeMaxSize v + DPS_BitVectorSerializeFHSize)))
           else Some (Some (frame_size 5 + 2 + 5 + 5 + (16 + CBOR_SIZEOF_LEN 16) + n))))"

definition sak_sent :: "bool \<Rightarrow> RemoteNode \<Rightarrow> RemoteNode" where
  "sak_sent interestsSent remote =
     (if interestsSent
      then remote\<lparr>sakPending := True, sakCounter := (if sakPending remote then sakCounter remote else 0),
                  lastSubMsgType := DPS_MSG_TYPE_SAK\<rparr>
      else remote\<lparr>sakPending := False, lastSubMsgType := 0\<rparr>)"

definition sak_failed :: "RemoteNode \<Rightarrow> RemoteNode" where
  "sak_failed remote = remote\<lparr>sakPending := False\<rparr>"

text \<open>The flags are computed from the state before it is changed by the acknowledgement itself.\<close>

definition DPS_SendSubscriptionAck ::
  "(nat \<Rightarrow> u8 list option) \<Rightarrow> network \<Rightarrow> DPS_Node \<Rightarrow> nat \<Rightarrow> bool \<Rightarrow> (DPS_Status \<times> DPS_Node) option" where
  "DPS_SendSubscriptionAck malloc net node remote collision =
     do {
       r \<leftarrow> deref_remote node remote;
       if \<not> netCtx node then Some (DPS_ERR_NETWORK, node)
       else
         do {
           node \<leftarrow> update_remote remote sak_remote node;
           len \<leftarrow> sak_size (n_addr node) r collision;
           case len of
             None \<Rightarrow> Some (DPS_ERR_INVALID, node)
           | Some len \<Rightarrow>
               (let withInterests = sak_with_interests r collision in
                transmit malloc net len (sak_steps (n_addr node) r collision (DPS_MinMeshId node (Some remote)))
                  (sak_interests r collision) remote (\<lambda>i. if withInterests then put_interests i else id)
                  (sak_sent withInterests) sak_failed node)
         }
     }"

section \<open>Reading the fields of a message\<close>

record SubFields =
  f_port :: u16
  f_revision :: u32
  f_ack :: u32
  f_flags :: u8
  f_mesh :: DPS_UUID
  f_interests :: "DPS_BitVector option"
  f_needs :: "DPS_BitVector option"
  f_path :: "u8 list option"
  f_keys :: u16

definition uuid_of :: "u8 list \<Rightarrow> DPS_UUID" where
  "uuid_of bs = UUID (chunks_of_bytes bs ! 0) (chunks_of_bytes bs ! 1)"

text \<open>The initial values; the mesh id is not initialized.\<close>

definition fields0 :: "DPS_UUID \<Rightarrow> SubFields" where
  "fields0 mesh = \<lparr>f_port = 0, f_revision = 0, f_ack = 0, f_flags = 0, f_mesh = mesh, f_interests = None, f_needs = None,
     f_path = None, f_keys = 0\<rparr>"

definition mark_key :: "int \<Rightarrow> SubFields \<Rightarrow> SubFields" where
  "mark_key k f = f\<lparr>f_keys := f_keys f OR push_bit (nat k) 1\<rparr>"

text \<open>A decoded value is stored by \<open>g\<close>.\<close>

definition store_field :: "'a res \<times> DPS_RxBuffer \<Rightarrow> ('a \<Rightarrow> 'f) \<Rightarrow> 'f \<Rightarrow> DPS_Status \<times> 'f \<times> DPS_RxBuffer" where
  "store_field d g f = (case d of (Inl e, b) \<Rightarrow> (e, f, b) | (Inr x, b) \<Rightarrow> (DPS_OK, g x, b))"

text \<open>
  The value of one key. \<open>isSak\<close> says that an acknowledgement is decoded, \<open>mem1\<close> and \<open>mem2\<close> whether the
  vectors can be allocated, \<open>ndebug\<close> whether assertions are compiled out. \<open>None\<close> is undefined behaviour
  in the deserialization of the interests.
\<close>

definition decode_field ::
  "bool \<Rightarrow> Configuration \<Rightarrow> bool \<Rightarrow> bool \<Rightarrow> bool \<Rightarrow> int \<Rightarrow> DPS_RxBuffer \<Rightarrow> SubFields \<Rightarrow>
   (DPS_Status \<times> SubFields \<times> DPS_RxBuffer) option" where
  "decode_field ndebug config mem1 mem2 isSak key b f =
     (if key = DPS_CBOR_KEY_PORT then Some (store_field (CBOR_DecodeUint16 b) (\<lambda>x. f\<lparr>f_port := x\<rparr>) f)
      else if key = DPS_CBOR_KEY_SEQ_NUM then Some (store_field (CBOR_DecodeUint32 b) (\<lambda>x. f\<lparr>f_revision := x\<rparr>) f)
      else if key = DPS_CBOR_KEY_SUB_FLAGS then Some (store_field (CBOR_DecodeUint8 b) (\<lambda>x. f\<lparr>f_flags := x\<rparr>) f)
      else if key = DPS_CBOR_KEY_MESH_ID then
        (let f = mark_key key f in Some (store_field (CBOR_DecodeUUID b) (\<lambda>x. f\<lparr>f_mesh := uuid_of x\<rparr>) f))
      else if key = DPS_CBOR_KEY_INTERESTS then
        (let f = mark_key key f in
         if f_interests f \<noteq> None then Some (DPS_ERR_INVALID, f, b)
         else
           (case DPS_BitVectorAlloc mem1 config of
              None \<Rightarrow> Some (DPS_ERR_RESOURCES, f, b)
            | Some v \<Rightarrow>
                map_option (\<lambda>(ret, v, b). (ret, f\<lparr>f_interests := Some v\<rparr>, b)) (DPS_BitVectorDeserialize ndebug v b)))
      else if key = DPS_CBOR_KEY_ACK_SEQ_NUM then
        (if isSak then Some (store_field (CBOR_DecodeUint32 b) (\<lambda>x. f\<lparr>f_ack := x\<rparr>) f)
         else (case CBOR_Skip b of (ret, b, _) \<Rightarrow> Some (ret, f, b)))
      else if key = DPS_CBOR_KEY_NEEDS then
        (let f = mark_key key f in
         if f_needs f \<noteq> None then Some (DPS_ERR_INVALID, f, b)
         else
           (case DPS_BitVectorAllocFH mem2 of
              None \<Rightarrow> Some (DPS_ERR_RESOURCES, f, b)
            | Some v \<Rightarrow> (case DPS_BitVectorDeserializeFH v b of (ret, v, b) \<Rightarrow> Some (ret, f\<lparr>f_needs := Some v\<rparr>, b))))
      else if key = DPS_CBOR_KEY_PATH then
        (case CBOR_DecodeString b of
           (Inl e, b) \<Rightarrow> Some (e, f, b)
         | (Inr p, b) \<Rightarrow>
             Some (if length p \<ge> DPS_NODE_ADDRESS_PATH_MAX then DPS_ERR_INVALID else DPS_OK, f\<lparr>f_path := (if p = [] then None else Some p)\<rparr>, b))
      else Some (DPS_OK, f, b))"

text \<open>Every round uses up an entry of the map.\<close>

lemma skip_entries_le: "ms_entries (snd (skip_entries n ms)) \<le> n"
proof (induction n arbitrary: ms)
  case (Suc n)
  then show ?case
    by (auto simp: Let_def le_Suc_eq split: prod.splits sum.splits)
qed simp

lemma parse_done_entries: "DPS_ParseMapDone ms = (d, ms') \<Longrightarrow> ms_entries ms' \<le> ms_entries ms"
  using skip_entries_le[of "ms_entries ms" ms] by (auto simp: DPS_ParseMapDone_def split: if_splits)

lemma parse_entries_le: "ms_entries (fst (parse_entries n ms)) \<le> n"
proof (induction n arbitrary: ms)
  case (Suc n)
  then show ?case
    by (auto simp: parse_entries.simps Let_def le_Suc_eq split: prod.splits sum.splits bool.splits)
qed (simp add: parse_entries.simps)

lemma parse_entries_less:
  "ms_result ms \<noteq> DPS_OK \<Longrightarrow> ms_result (fst (parse_entries n ms)) = DPS_OK \<Longrightarrow>
   ms_entries (fst (parse_entries n ms)) < n"
proof (cases n)
  case (Suc m)
  assume "ms_result ms \<noteq> DPS_OK" "ms_result (fst (parse_entries n ms)) = DPS_OK"
  then show ?thesis using parse_entries_le[of m]
    by (auto simp: Suc parse_entries.simps Let_def less_Suc_eq_le split: prod.splits sum.splits bool.splits if_splits)
qed (simp add: parse_entries.simps)

lemma parse_next_entries:
  "DPS_ParseMapNext ms = (ms', k) \<Longrightarrow> ms_result ms' = DPS_OK \<Longrightarrow> ms_entries ms' < ms_entries ms"
  using parse_entries_less[of "ms\<lparr>ms_result := DPS_ERR_MISSING\<rparr>" "ms_entries ms"]
  by (auto simp: DPS_ParseMapNext_def split: if_splits prod.splits)


text \<open>
  The loop over the map. A key that the map parser did not find is left at 0, which is not the key
  of a field.
\<close>

function parse_fields ::
  "bool \<Rightarrow> Configuration \<Rightarrow> bool \<Rightarrow> bool \<Rightarrow> bool \<Rightarrow> CBOR_MapState \<Rightarrow> SubFields \<Rightarrow>
   (DPS_Status \<times> SubFields \<times> DPS_RxBuffer) option" where
  "parse_fields ndebug config mem1 mem2 isSak ms f =
     (case DPS_ParseMapDone ms of
        (True, ms) \<Rightarrow> Some (DPS_OK, f, ms_buffer ms)
      | (False, ms) \<Rightarrow>
          (case DPS_ParseMapNext ms of
             (ms, key) \<Rightarrow>
               if ms_result ms \<noteq> DPS_OK then
                 Some (if ms_result ms = DPS_ERR_MISSING then DPS_ERR_INVALID else ms_result ms, f, ms_buffer ms)
               else
                 (case decode_field ndebug config mem1 mem2 isSak (case key of None \<Rightarrow> 0 | Some k \<Rightarrow> k) (ms_buffer ms) f of
                    None \<Rightarrow> None
                  | Some (ret, f, b) \<Rightarrow>
                      if ret \<noteq> DPS_OK then Some (ret, f, b)
                      else parse_fields ndebug config mem1 mem2 isSak (ms\<lparr>ms_buffer := b\<rparr>) f)))"
  by pat_completeness auto
termination
  by (relation "measure (\<lambda>(_, _, _, _, _, ms, _). ms_entries ms)")
    (auto dest!: parse_done_entries[OF sym] parse_next_entries[OF sym])

declare parse_fields.simps [simp del]

definition ReqKeys :: "int list" where
  "ReqKeys = [DPS_CBOR_KEY_SEQ_NUM, DPS_CBOR_KEY_SUB_FLAGS, DPS_CBOR_KEY_MESH_ID]"

definition OptKeys :: "int list" where
  "OptKeys = [DPS_CBOR_KEY_PORT, DPS_CBOR_KEY_NEEDS, DPS_CBOR_KEY_INTERESTS, DPS_CBOR_KEY_ACK_SEQ_NUM, DPS_CBOR_KEY_PATH]"

text \<open>
  The first half of \<open>DecodeSubscription\<close>: the fields of the message and the endpoint with the listening
  address of the sender. A message carries a port or a path, not both.
\<close>

definition set_listener ::
  "DPS_NodeAddressType \<Rightarrow> DPS_NetEndpoint \<Rightarrow> SubFields \<Rightarrow> (DPS_Status \<times> DPS_NetEndpoint) option" where
  "set_listener transport ep f =
     (if (f_port f = 0) = (f_path f = None) then Some (DPS_ERR_INVALID, ep)
      else if f_port f \<noteq> 0 then map_option (Pair DPS_OK) (DPS_EndpointSetPort transport ep (f_port f))
      else map_option (Pair DPS_OK) (DPS_EndpointSetPath ep (the (f_path f))))"

definition decode_sub_fields ::
  "bool \<Rightarrow> Configuration \<Rightarrow> bool \<Rightarrow> bool \<Rightarrow> DPS_NodeAddressType \<Rightarrow> DPS_UUID \<Rightarrow> bool \<Rightarrow> DPS_NetEndpoint \<Rightarrow>
   DPS_RxBuffer \<Rightarrow> (DPS_Status \<times> SubFields \<times> DPS_NetEndpoint \<times> DPS_RxBuffer) option" where
  "decode_sub_fields ndebug config mem1 mem2 transport mesh isSak ep buf =
     (let ms = DPS_ParseMapInit buf ReqKeys OptKeys in
      if ms_result ms \<noteq> DPS_OK then Some (ms_result ms, fields0 mesh, ep, ms_buffer ms)
      else
        do {
          (ret, f, buf) \<leftarrow> parse_fields ndebug config mem1 mem2 isSak ms (fields0 mesh);
          if ret \<noteq> DPS_OK then Some (ret, f, ep, buf)
          else do { (ret, ep) \<leftarrow> set_listener transport ep f; Some (ret, f, ep, buf) }
        })"

text \<open>
  The head of every message, read by \<open>DecodeRequest\<close>: an array of five elements, the version and the
  type of the message. The status of an array of another length is that of reading it, \<open>DPS_OK\<close>.
\<close>

definition request_type :: "DPS_RxBuffer \<Rightarrow> u8 res \<times> DPS_RxBuffer" where
  "request_type b =
     (case CBOR_DecodeArray b of
        (Inl e, b) \<Rightarrow> (Inl e, b)
      | (Inr len, b) \<Rightarrow>
          if len \<noteq> 5 then (Inl DPS_OK, b)
          else
            and_then (CBOR_DecodeUint8 b)
              (\<lambda>version b. if version \<noteq> DPS_MSG_VERSION then (Inl DPS_ERR_NOT_IMPLEMENTED, b) else CBOR_DecodeUint8 b))"

section \<open>Received bytes stay in bounds\<close>

text \<open>What a decoded vector looks like: the configured length, with that many bits\<close>

definition sized :: "nat \<Rightarrow> DPS_BitVector \<Rightarrow> bool" where
  "sized n v \<longleftrightarrow> bv_len v = n \<and> length (bits v) = n div 64"

definition fields_ok :: "Configuration \<Rightarrow> SubFields \<Rightarrow> bool" where
  "fields_ok config f \<longleftrightarrow>
     (\<forall>v. f_interests f = Some v \<longrightarrow> sized (bitLen config) v) \<and>
     (\<forall>v. f_needs f = Some v \<longrightarrow> sized FH_BITVECTOR_LEN v) \<and> f_path f \<noteq> Some []"

lemma RunLengthDecode_length:
  assumes "len < 2 ^ 31" "RunLengthDecode nd packed len = Returned st bs"
  shows "length bs = len div 64"
proof -
  obtain cur n rest where e: "RunLengthDecode nd packed len = rle_decode nd (len + 2) len cur n rest (replicate (len div 64) 0) 0"
    using RunLengthDecode_eq by blast
  show ?thesis
    using decode_enough[of 0 len "len + 2" nd cur n rest "replicate (len div 64) 0"] assms e by auto
qed

lemma Deserialize_sized:
  assumes "sized n w" "n < 2 ^ 31" "n mod 64 = 0" "DPS_BitVectorDeserialize nd w r = Some (st, w', r')"
  shows "sized n w'"
  using assms RunLengthDecode_length[of n nd]
  by (auto simp: DPS_BitVectorDeserialize_def DPS_BitVectorComplement_def sized_def Let_def length_chunks_of_bytes
      split: prod.splits sum.splits if_splits rle_outcome.splits)

lemma DeserializeFH_sized:
  assumes "rx_wf r" "sized n w" "n mod 64 = 0" "DPS_BitVectorDeserializeFH w r = (st, w', r')"
  shows "sized n w' \<and> rx_follows r r'"
  using assms decode_follows(8)[OF assms(1)]
  by (auto simp: DPS_BitVectorDeserializeFH_def sized_def length_chunks_of_bytes split: prod.splits sum.splits if_splits)

lemma store_follows:
  "store_field d g f = (st, f', b') \<Longrightarrow> b' = snd d"
  by (auto simp: store_field_def split: prod.splits sum.splits)

lemma CBOR_Skip_follows: "rx_wf b \<Longrightarrow> CBOR_Skip b = (r, b', x) \<Longrightarrow> rx_follows b b'"
  using CBOR_Skip_total[of b] by auto

lemma decode_field_safe:
  assumes b: "rx_wf b" and f: "fields_ok config f" and c: "config_ok config"
    and d: "decode_field nd config m1 m2 isSak k b f = Some (st, f', b')"
  shows "rx_follows b b' \<and> fields_ok config f'"
proof -
  have sz: "sized (bitLen config) w'" if "sized (bitLen config) w" "DPS_BitVectorDeserialize nd w b = Some (st, w', b')" for w w' st
    using Deserialize_sized[OF that(1) _ _ that(2)] c by (simp add: config_ok_def)
  have fh: "FH_BITVECTOR_LEN mod 64 = 0" by (simp add: FH_BITVECTOR_LEN_def)
  consider (v) "k = DPS_CBOR_KEY_INTERESTS" | (n) "k = DPS_CBOR_KEY_NEEDS" | (p) "k = DPS_CBOR_KEY_PATH"
    | (o) "k \<notin> {DPS_CBOR_KEY_INTERESTS, DPS_CBOR_KEY_NEEDS, DPS_CBOR_KEY_PATH}" by auto
  then show ?thesis
  proof cases
    case v
    have "sized (bitLen config) \<lparr>popCount = -1, bv_len = bitLen config, bits = replicate (bitLen config div 64) 0\<rparr>"
      by (simp add: sized_def)
    with v d b f show ?thesis
      by (auto simp: decode_field_def key_defs fields_ok_def mark_key_def DPS_BitVectorAlloc_def AllocBV_def Let_def
          dest: sz Deserialize_follows[OF b] split: if_splits option.splits)
  next
    case n
    have "sized FH_BITVECTOR_LEN \<lparr>popCount = -1, bv_len = FH_BITVECTOR_LEN, bits = replicate (FH_BITVECTOR_LEN div 64) 0\<rparr>"
      by (simp add: sized_def)
    with n d b f show ?thesis
      by (auto simp: decode_field_def key_defs fields_ok_def mark_key_def DPS_BitVectorAllocFH_def AllocBV_def Let_def
          dest: DeserializeFH_sized[OF b _ fh] split: if_splits option.splits prod.splits)
  next
    case p
    with d f decode_follows(9)[OF b] show ?thesis
      by (auto simp: decode_field_def key_defs fields_ok_def split: sum.splits prod.splits if_splits)
  next
    case o
    have "fields_ok config f' \<and> b' \<in> {b, snd (CBOR_DecodeUint16 b), snd (CBOR_DecodeUint32 b), snd (CBOR_DecodeUint8 b),
        snd (CBOR_DecodeUUID b), fst (snd (CBOR_Skip b))}"
      using o d f
      by (auto simp: decode_field_def store_field_def mark_key_def fields_ok_def Let_def
          split: if_splits prod.splits sum.splits)
    then show ?thesis using decode_follows[OF b] CBOR_DecodeUUID_follows[OF b] CBOR_Skip_follows[OF b] b
      by (cases "CBOR_Skip b") auto
  qed
qed

lemma skip_entries_follows: "rx_wf (ms_buffer ms) \<Longrightarrow> rx_follows (ms_buffer ms) (ms_buffer (snd (skip_entries n ms)))"
proof (induction n arbitrary: ms)
  case (Suc n)
  obtain x b where x: "CBOR_DecodeInt32 (ms_buffer ms) = (x, b)" by fastforce
  have f: "rx_follows (ms_buffer ms) b" and w: "rx_wf b"
    using decode_follows(7)[OF Suc.prems] x rx_follows_wf[OF _ Suc.prems] by auto
  obtain r b' y where s: "CBOR_Skip b = (r, b', y)" by (metis prod_cases3)
  have f': "rx_follows b b'" and w': "rx_wf b'" using CBOR_Skip_follows[OF w s] rx_follows_wf[OF _ w] by auto
  show ?case using f f' Suc.IH[of "ms\<lparr>ms_entries := n, ms_buffer := b', ms_result := r\<rparr>"] w'
    by (auto simp: x s Let_def dest: rx_follows_trans split: sum.splits)
qed simp

lemma parse_entries_follows: "rx_wf (ms_buffer ms) \<Longrightarrow> rx_follows (ms_buffer ms) (ms_buffer (fst (parse_entries n ms)))"
proof (induction n arbitrary: ms)
  case (Suc n)
  obtain x b where x: "CBOR_DecodeInt32 (ms_buffer ms) = (x, b)" by fastforce
  have f: "rx_follows (ms_buffer ms) b" and w: "rx_wf b"
    using decode_follows(7)[OF Suc.prems] x rx_follows_wf[OF _ Suc.prems] by auto
  obtain r b' y where s: "CBOR_Skip b = (r, b', y)" by (metis prod_cases3)
  have f': "rx_follows b b'" and w': "rx_wf b'" using CBOR_Skip_follows[OF w s] rx_follows_wf[OF _ w] by auto
  have "rx_follows (ms_buffer ms) (ms_buffer (fst (parse_entries n m)))" if "ms_buffer m = b'" for m
    using Suc.IH[of m] w' that f f' by (auto dest: rx_follows_trans)
  then show ?case using f f' Suc.prems
    by (auto simp: parse_entries.simps x s Let_def dest: rx_follows_trans split: sum.splits prod.splits bool.splits)
qed (simp add: parse_entries.simps)

lemma parse_map_follows:
  assumes "rx_wf (ms_buffer ms)"
  shows "rx_follows (ms_buffer ms) (ms_buffer (snd (DPS_ParseMapDone ms)))"
    and "rx_follows (ms_buffer ms) (ms_buffer (fst (DPS_ParseMapNext ms)))"
  using assms skip_entries_follows[OF assms] parse_entries_follows[of "ms\<lparr>ms_result := DPS_ERR_MISSING\<rparr>" "ms_entries ms"]
  by (auto simp: DPS_ParseMapDone_def DPS_ParseMapNext_def split: prod.splits)

lemma parse_fields_safe:
  "rx_wf (ms_buffer ms) \<Longrightarrow> fields_ok config f \<Longrightarrow> config_ok config \<Longrightarrow>
   parse_fields nd config m1 m2 isSak ms f = Some (st, f', b') \<Longrightarrow>
   rx_follows (ms_buffer ms) b' \<and> fields_ok config f'"
proof (induction nd config m1 m2 isSak ms f arbitrary: st f' b' rule: parse_fields.induct)
  case (1 nd config m1 m2 isSak ms f)
  obtain d ms1 where d: "DPS_ParseMapDone ms = (d, ms1)" by fastforce
  obtain ms2 key where k: "DPS_ParseMapNext ms1 = (ms2, key)" by fastforce
  have f1: "rx_follows (ms_buffer ms) (ms_buffer ms1)" and w1: "rx_wf (ms_buffer ms1)"
    using parse_map_follows(1)[OF 1(2)] d rx_follows_wf[OF _ 1(2)] by auto
  have f2: "rx_follows (ms_buffer ms1) (ms_buffer ms2)" and w2: "rx_wf (ms_buffer ms2)"
    using parse_map_follows(2)[OF w1] k rx_follows_wf[OF _ w1] by auto
  note f12 = rx_follows_trans[OF f1 f2]
  show ?case
  proof (cases "\<not> d \<and> ms_result ms2 = DPS_OK")
    case False
    then show ?thesis using 1(3,5) f1 f12
      by (auto simp: parse_fields.simps[of nd config m1 m2 isSak ms] d k split: bool.splits if_splits)
  next
    case True
    let ?d = "decode_field nd config m1 m2 isSak (case key of None \<Rightarrow> 0 | Some k \<Rightarrow> k) (ms_buffer ms2) f"
    obtain r g b where g: "?d = Some (r, g, b)"
      using 1(5) True by (auto simp: parse_fields.simps[of nd config m1 m2 isSak ms] d k split: option.splits)
    have s: "rx_follows (ms_buffer ms2) b" "fields_ok config g"
      using decode_field_safe[OF w2 1(3,4) g] by auto
    show ?thesis
    proof (cases "r = DPS_OK")
      case r: True
      have "parse_fields nd config m1 m2 isSak (ms2\<lparr>ms_buffer := b\<rparr>) g = Some (st, f', b')"
        using 1(5) True g r by (simp add: parse_fields.simps[of nd config m1 m2 isSak ms] d k)
      then have "rx_follows b b' \<and> fields_ok config f'"
        using 1(1)[of d ms1 ms2 key "(r, g, b)" r "(g, b)" g b] True d k g r s 1(4) rx_follows_wf[OF s(1) w2] by simp
      then show ?thesis using f12 s(1) rx_follows_trans by blast
    next
      case False
      then show ?thesis using 1(5) True g f12 s rx_follows_trans
        by (auto simp: parse_fields.simps[of nd config m1 m2 isSak ms] d k)
    qed
  qed
qed


section \<open>Properties\<close>

lemma decode_fields_safe:
  assumes "rx_wf b" "config_ok config" and d: "decode_sub_fields nd config mem1 mem2 transport mesh isSak ep b = Some (ret, f, ep', b')"
  shows "rx_follows b b' \<and> fields_ok config f \<and> (if ret = DPS_OK then (f_port f = 0) \<noteq> (f_path f = None) else ep' = ep)"
proof -
  let ?ms = "DPS_ParseMapInit b ReqKeys OptKeys"
  have m: "rx_follows b (ms_buffer ?ms)"
    using decode_follows(11)[OF assms(1)] by (auto simp: DPS_ParseMapInit_def split: prod.splits sum.splits)
  have ok: "fields_ok config (fields0 mesh)" by (simp add: fields_ok_def fields0_def)
  show ?thesis
  proof (cases "ms_result ?ms = DPS_OK")
    case False
    then show ?thesis using d m ok by (auto simp: decode_sub_fields_def Let_def)
  next
    case True
    obtain r g b1 where p: "parse_fields nd config mem1 mem2 isSak ?ms (fields0 mesh) = Some (r, g, b1)"
      using d True by (auto simp: decode_sub_fields_def Let_def bind_eq_Some_conv)
    have "rx_follows (ms_buffer ?ms) b1 \<and> fields_ok config g"
      using parse_fields_safe[OF rx_follows_wf[OF m assms(1)] ok assms(2) p] .
    moreover have "f = g \<and> b' = b1 \<and> (if ret = DPS_OK then (f_port f = 0) \<noteq> (f_path f = None) else ep' = ep)"
      using d True p by (auto simp: decode_sub_fields_def Let_def bind_eq_Some_conv set_listener_def split: if_splits)
    ultimately show ?thesis using m rx_follows_trans by auto
  qed
qed



end
