(* ===== verification/Message_Wire.thy ===== *)
theory Message_Wire
  imports Sub_Message
begin

text \<open>
  Subscription and acknowledgement messages on the wire: what the encoding steps of \<open>Sub_Message\<close> write, what
  the loop over the map reads, that both agree (\<open>message_roundtrip\<close>), and that the allocated number of bytes is
  enough. A step sequence is described by the bytes it appends (\<open>wrote\<close>) and by the space it takes (\<open>fits\<close>), a
  value by the change of the fields it causes (\<open>reads\<close>).
\<close>

section \<open>What is written is read\<close>

subsection \<open>Writing\<close>

lemma run_steps_append:
  "run_steps (xs @ ys) (DPS_OK, s) = Some (DPS_OK, s') \<Longrightarrow>
   \<exists>s1. run_steps xs (DPS_OK, s) = Some (DPS_OK, s1) \<and> run_steps ys (DPS_OK, s1) = Some (DPS_OK, s')"
proof (induction xs arbitrary: s)
  case (Cons f fs)
  then obtain r s1 where f: "f s = Some (r, s1)" by (cases "f s") auto
  have "r = DPS_OK"
    using Cons.prems f by (cases "fs @ ys") (auto split: if_splits)
  with Cons f show ?case by simp
qed simp

text \<open>\<open>wrote fs img\<close>: when the steps succeed, they have appended \<open>img\<close> and left the interests alone.\<close>

definition wrote :: "enc_step list \<Rightarrow> u8 list \<Rightarrow> bool" where
  "wrote fs img \<longleftrightarrow>
     (\<forall>b i b' i'. tx_wf b \<longrightarrow> run_steps fs (DPS_OK, (b, i)) = Some (DPS_OK, (b', i')) \<longrightarrow>
        tx_wf b' \<and> tx_out b' = tx_out b @ img \<and> i' = i)"

lemma wrote_Nil: "wrote [] []" by (simp add: wrote_def)

lemma wrote_append: "wrote xs a \<Longrightarrow> wrote ys c \<Longrightarrow> wrote (xs @ ys) (a @ c)"
proof -
  assume w: "wrote xs a" "wrote ys c"
  have "tx_wf b' \<and> tx_out b' = tx_out b @ (a @ c) \<and> i' = i"
    if b: "tx_wf b" "run_steps (xs @ ys) (DPS_OK, (b, i)) = Some (DPS_OK, (b', i'))" for b i b' i'
  proof -
    obtain b1 i1 where 1: "run_steps xs (DPS_OK, (b, i)) = Some (DPS_OK, (b1, i1))"
      and 2: "run_steps ys (DPS_OK, (b1, i1)) = Some (DPS_OK, (b', i'))"
      using run_steps_append[OF b(2)] by (metis surj_pair)
    have "tx_wf b1 \<and> tx_out b1 = tx_out b @ a \<and> i1 = i" using w(1) b(1) 1 unfolding wrote_def by blast
    moreover from this have "tx_wf b' \<and> tx_out b' = tx_out b1 @ c \<and> i' = i1" using w(2) 2 unfolding wrote_def by blast
    ultimately show ?thesis by simp
  qed
  then show ?thesis unfolding wrote_def by blast
qed

lemma wrote_Cons: "wrote [f] a \<Longrightarrow> wrote fs c \<Longrightarrow> wrote (f # fs) (a @ c)"
  using wrote_append[of "[f]" a fs c] by simp

lemma wrote_enc:
  "(\<And>b b'. tx_wf b \<Longrightarrow> f b = (DPS_OK, b') \<Longrightarrow> tx_wf b' \<and> tx_out b' = tx_out b @ img) \<Longrightarrow> wrote [enc f] img"
  by (auto simp: wrote_def enc_def split: prod.splits)

definition key_bytes :: "int \<Rightarrow> u8 list" where
  "key_bytes k = int_bytes (word_of_int k)"

lemma key_uint: "0 \<le> k \<Longrightarrow> k < 2 ^ 31 \<Longrightarrow> key_bytes k = uint_bytes (word_of_int k) CBOR_UINT"
proof -
  assume "0 \<le> k" "k < 2 ^ 31"
  then have "0 \<le> sint (word_of_int k :: u64)" using sint_key[of k] by (simp add: key32_def)
  then show ?thesis by (simp add: key_bytes_def int_bytes_def word_sless_alt)
qed

lemma wrote_uint: "wrote [enc_uint n] (uint_bytes n CBOR_UINT)"
  unfolding enc_uint_def by (rule wrote_enc) (use uint.enc_OK_D in blast)

lemma wrote_key: "0 \<le> k \<Longrightarrow> k < 2 ^ 31 \<Longrightarrow> wrote [enc_key k] (key_bytes k)"
  unfolding enc_key_def by (simp add: wrote_uint key_uint)

lemma wrote_map: "n < 2 ^ 32 \<Longrightarrow> wrote [enc (\<lambda>b. CBOR_EncodeMap b n)] (uint_bytes (len32 n) CBOR_MAP)"
  by (rule wrote_enc) (use map_hdr.enc_OK_D in blast)

lemma wrote_array: "n < 2 ^ 32 \<Longrightarrow> wrote [enc (\<lambda>b. CBOR_EncodeArray b n)] (uint_bytes (len32 n) CBOR_ARRAY)"
  by (rule wrote_enc) (use array.enc_OK_D in blast)

lemma length_uuid_val [simp]: "length (uuid_val u) = 16"
  by (simp add: uuid_val_def chunk_bytes_def)

lemma wrote_uuid: "wrote [enc (\<lambda>b. CBOR_EncodeUUID b (uuid_val m))] (hdr_bytes CBOR_BYTES (uuid_val m))"
  by (rule wrote_enc) (use uuid.enc_OK_D[OF _ length_uuid_val] in blast)

lemma wrote_string:
  "length p \<le> CBOR_MAX_STRING_LEN \<Longrightarrow> wrote [enc (\<lambda>b. CBOR_EncodeString b (Some p))] (hdr_bytes CBOR_STRING p)"
  by (rule wrote_enc) (use str.enc_OK_D in blast)

lemma wrote_needs:
  assumes "bv_ok FH_BITVECTOR_LEN v"
  shows "wrote [enc_needs (Some v)] (hdr_bytes CBOR_BYTES (bytes_of_chunks (bits v)))"
proof -
  have "length (bytes_of_chunks (bits v)) = bv_len v div 8" using assms by (auto simp: bv_ok_def bv_wf_def)
  then have "wrote [enc (DPS_BitVectorSerializeFH v)] (hdr_bytes CBOR_BYTES (bytes_of_chunks (bits v)))"
    by (intro wrote_enc) (use bytes.enc_OK_D[of _ "bytes_of_chunks (bits v)"] in \<open>simp add: DPS_BitVectorSerializeFH_def\<close>)
  then show ?thesis by (simp add: wrote_def enc_needs_def)
qed

subsection \<open>Reading\<close>

text \<open>\<open>reads k img f f'\<close>: a value with the bytes \<open>img\<close> is read for the key \<open>k\<close> and turns the fields \<open>f\<close> into
  \<open>f'\<close>.\<close>

definition reads ::
  "bool \<Rightarrow> Configuration \<Rightarrow> bool \<Rightarrow> int \<Rightarrow> u8 list \<Rightarrow> SubFields \<Rightarrow> SubFields \<Rightarrow> bool" where
  "reads nd config isSak k img f f' \<longleftrightarrow>
     (\<forall>r rest. rx_wf r \<longrightarrow> rx_rem r = img @ rest \<longrightarrow>
        (\<exists>r'. decode_field nd config True True isSak k r f = Some (DPS_OK, f', r') \<and> rx_wf r' \<and> rx_rem r' = rest))"

fun key_step :: "int \<Rightarrow> int list \<Rightarrow> int list \<Rightarrow> (int list \<times> int list) option" where
  "key_step k (n # ns) ws =
     (if k = n then Some (ns, ws) else if k > n then None
      else (case match_wants k ws of (True, vs) \<Rightarrow> Some (n # ns, vs) | (False, _) \<Rightarrow> None))"
| "key_step k [] ws = (case match_wants k ws of (True, vs) \<Rightarrow> Some ([], vs) | (False, _) \<Rightarrow> None)"

fun keys_ok :: "int list \<Rightarrow> int list \<Rightarrow> int list \<Rightarrow> bool" where
  "keys_ok [] ns ws \<longleftrightarrow> ns = []"
| "keys_ok (k # ks) ns ws \<longleftrightarrow> key32 k \<and> (case key_step k ns ws of None \<Rightarrow> False | Some (ns', ws') \<Rightarrow> keys_ok ks ns' ws')"

inductive reads_all ::
  "bool \<Rightarrow> Configuration \<Rightarrow> bool \<Rightarrow> (int \<times> u8 list) list \<Rightarrow> SubFields \<Rightarrow> SubFields \<Rightarrow> bool" for nd config isSak where
  "reads_all nd config isSak [] f f"
| "reads nd config isSak k img f f1 \<Longrightarrow> reads_all nd config isSak es f1 f2 \<Longrightarrow>
   reads_all nd config isSak ((k, img) # es) f f2"

definition field_bytes :: "(int \<times> u8 list) list \<Rightarrow> u8 list" where
  "field_bytes es = concat (map (\<lambda>(k, img). key_bytes k @ img) es)"

lemma parse_next_key:
  assumes "ms_result ms = DPS_OK" "ms_entries ms = Suc n" "key_step k (ms_needs ms) (ms_wants ms) = Some (ns, ws)"
    and "key32 k" "rx_wf (ms_buffer ms)" "rx_rem (ms_buffer ms) = key_bytes k @ rest" "ns = [] \<or> 0 < n"
  shows "DPS_ParseMapDone ms = (False, ms)"
    and "\<exists>r'. DPS_ParseMapNext ms = (\<lparr>ms_buffer = r', ms_needs = ns, ms_wants = ws, ms_entries = n, ms_result = DPS_OK\<rparr>, Some k) \<and>
      rx_wf r' \<and> rx_rem r' = rest"
proof -
  have e: "ms_needs ms \<noteq> [] \<or> ms_wants ms \<noteq> []" using assms(3) by (cases "ms_needs ms") auto
  then show "DPS_ParseMapDone ms = (False, ms)" using assms(2) by (auto simp: DPS_ParseMapDone_def)
  let ?r = "rx_advance (ms_buffer ms) (length (key_bytes k))"
  have d: "CBOR_DecodeInt32 (ms_buffer ms) = (Inr (ucast (word_of_int k :: u64)), ?r)"
    using CBOR_DecodeInt32_key[OF assms(5) assms(6)[unfolded key_bytes_def] assms(4)] by (simp add: key_bytes_def)
  have "parse_entries (Suc n) (ms\<lparr>ms_result := DPS_ERR_MISSING\<rparr>) =
      (\<lparr>ms_buffer = ?r, ms_needs = ns, ms_wants = ws, ms_entries = n, ms_result = DPS_OK\<rparr>, Some k)"
    using d e assms(3) sint_key[OF assms(4)]
    by (cases ms; cases "ms_needs ms"; cases "match_wants k (ms_wants ms)")
      (auto simp: parse_entries.simps Let_def split: if_splits bool.splits)
  then show "\<exists>r'. DPS_ParseMapNext ms = (\<lparr>ms_buffer = r', ms_needs = ns, ms_wants = ws, ms_entries = n, ms_result = DPS_OK\<rparr>, Some k) \<and>
      rx_wf r' \<and> rx_rem r' = rest"
    using assms(1,2,5-7) by (auto simp: DPS_ParseMapNext_def intro!: rx_wf_advance)
qed

lemma parse_reads:
  "reads_all nd config isSak es f f' \<Longrightarrow> keys_ok (map fst es) (ms_needs ms) (ms_wants ms) \<Longrightarrow>
   ms_result ms = DPS_OK \<Longrightarrow> ms_entries ms = length es \<Longrightarrow> rx_wf (ms_buffer ms) \<Longrightarrow>
   rx_rem (ms_buffer ms) = field_bytes es @ rest \<Longrightarrow>
   \<exists>r'. parse_fields nd config True True isSak ms f = Some (DPS_OK, f', r') \<and> rx_wf r' \<and> rx_rem r' = rest"
proof (induction arbitrary: ms rule: reads_all.induct)
  case (1 f)
  then have "DPS_ParseMapDone ms = (True, ms\<lparr>ms_entries := 0\<rparr>)"
    by (auto simp: DPS_ParseMapDone_def)
  then show ?case using 1 by (simp add: parse_fields.simps field_bytes_def)
next
  case (2 k img f f1 es f2)
  obtain ns ws where k: "key_step k (ms_needs ms) (ms_wants ms) = Some (ns, ws)" "key32 k" "keys_ok (map fst es) ns ws"
    using 2(4) by (auto split: option.splits)
  have n: "ns = [] \<or> 0 < length es" using k(3) by (cases es) auto
  note p = parse_next_key[OF 2(5) 2(6)[simplified] k(1,2) 2(7), of "img @ field_bytes es @ rest"]
  obtain r where r: "DPS_ParseMapNext ms = (\<lparr>ms_buffer = r, ms_needs = ns, ms_wants = ws, ms_entries = length es, ms_result = DPS_OK\<rparr>, Some k)"
      "rx_wf r" "rx_rem r = img @ field_bytes es @ rest"
    using p(2) n 2(8) by (auto simp: field_bytes_def)
  obtain r1 where r1: "decode_field nd config True True isSak k r f = Some (DPS_OK, f1, r1)" "rx_wf r1" "rx_rem r1 = field_bytes es @ rest"
    using 2(1) r(2,3) unfolding reads_def by blast
  let ?ms = "\<lparr>ms_buffer = r1, ms_needs = ns, ms_wants = ws, ms_entries = length es, ms_result = DPS_OK\<rparr>"
  have "parse_fields nd config True True isSak ms f = parse_fields nd config True True isSak ?ms f1"
    using p(1) n 2(8) r(1) r1(1) by (simp add: parse_fields.simps[of nd config True True isSak ms] field_bytes_def)
  then show ?case using 2(3)[of ?ms] k(3) r1 by simp
qed


lemma ucast_bound:
  "\<not> 65535 < (ucast (p :: u16) :: u64)" "\<not> 4294967295 < (ucast (q :: u32) :: u64)" "\<not> 255 < (ucast (c :: u8) :: u64)"
  "ucast (ucast p :: u64) = p" "ucast (ucast q :: u64) = q" "ucast (ucast c :: u64) = c"
proof -
  show "ucast (ucast p :: u64) = p" "ucast (ucast q :: u64) = q" "ucast (ucast c :: u64) = c"
    by (transfer; simp)+
  show "\<not> 65535 < (ucast p :: u64)" "\<not> 4294967295 < (ucast q :: u64)" "\<not> 255 < (ucast c :: u64)"
    using unsigned_less[where 'a = nat, of p] unsigned_less[where 'a = nat, of q] unsigned_less[where 'a = nat, of c]
    by (simp_all add: word_less_nat_alt unsigned_ucast_eq take_bit_nat_eq_self)
qed

lemma decode_uint_small:
  assumes "rx_wf r"
  shows "rx_rem r = uint_bytes (ucast (p :: u16)) CBOR_UINT @ rest \<Longrightarrow>
      CBOR_DecodeUint16 r = (Inr p, rx_advance r (length (uint_bytes (ucast p) CBOR_UINT)))"
    and "rx_rem r = uint_bytes (ucast (q :: u32)) CBOR_UINT @ rest \<Longrightarrow>
      CBOR_DecodeUint32 r = (Inr q, rx_advance r (length (uint_bytes (ucast q) CBOR_UINT)))"
    and "rx_rem r = uint_bytes (ucast (c :: u8)) CBOR_UINT @ rest \<Longrightarrow>
      CBOR_DecodeUint8 r = (Inr c, rx_advance r (length (uint_bytes (ucast c) CBOR_UINT)))"
  using assms ucast_bound
  by (simp_all add: CBOR_DecodeUint16_def CBOR_DecodeUint32_def CBOR_DecodeUint8_def DecodeUint_uint_bytes)

text \<open>A reader that returns \<open>x\<close> and stops behind the image\<close>

lemma reads_store:
  assumes "\<And>r rest. rx_wf r \<Longrightarrow> rx_rem r = img @ rest \<Longrightarrow> dec r = (Inr x, rx_advance r (length img))"
    and "\<And>r. decode_field nd config True True isSak k r f = Some (store_field (dec r) g (h f))" "g x = f'"
  shows "reads nd config isSak k img f f'"
  using assms by (auto simp: reads_def store_field_def intro!: rx_wf_advance)

lemma reads_port: "reads nd config isSak DPS_CBOR_KEY_PORT (uint_bytes (ucast p) CBOR_UINT) f (f\<lparr>f_port := p\<rparr>)"
  by (rule reads_store[OF decode_uint_small(1)]) (simp_all add: decode_field_def key_defs)

lemma reads_seq: "reads nd config isSak DPS_CBOR_KEY_SEQ_NUM (uint_bytes (ucast q) CBOR_UINT) f (f\<lparr>f_revision := q\<rparr>)"
  by (rule reads_store[OF decode_uint_small(2)]) (simp_all add: decode_field_def key_defs)

lemma reads_flags: "reads nd config isSak DPS_CBOR_KEY_SUB_FLAGS (uint_bytes (ucast c) CBOR_UINT) f (f\<lparr>f_flags := c\<rparr>)"
  by (rule reads_store[OF decode_uint_small(3)]) (simp_all add: decode_field_def key_defs)

lemma reads_ack: "reads nd config True DPS_CBOR_KEY_ACK_SEQ_NUM (uint_bytes (ucast q) CBOR_UINT) f (f\<lparr>f_ack := q\<rparr>)"
  by (rule reads_store[OF decode_uint_small(2)]) (simp_all add: decode_field_def key_defs)

lemma uuid_of_val [simp]: "uuid_of (uuid_val m) = m"
  by (cases m) (simp add: uuid_of_def uuid_val_def chunk_bytes_inverse chunk_bytes_inverse[where rest = "[]", simplified])

lemma reads_mesh:
  "reads nd config isSak DPS_CBOR_KEY_MESH_ID (hdr_bytes CBOR_BYTES (uuid_val m)) f ((mark_key DPS_CBOR_KEY_MESH_ID f)\<lparr>f_mesh := m\<rparr>)"
  by (rule reads_store[OF uuid.dec_img[OF _ length_uuid_val], where h = "mark_key DPS_CBOR_KEY_MESH_ID"
        and g = "\<lambda>x. (mark_key DPS_CBOR_KEY_MESH_ID f)\<lparr>f_mesh := uuid_of x\<rparr>"])
    (simp_all add: decode_field_def key_defs Let_def)

lemma reads_path:
  assumes "length p < DPS_NODE_ADDRESS_PATH_MAX" "p \<noteq> []"
  shows "reads nd config isSak DPS_CBOR_KEY_PATH (hdr_bytes CBOR_STRING p) f (f\<lparr>f_path := Some p\<rparr>)"
proof -
  have "length p \<le> CBOR_MAX_STRING_LEN"
    using assms(1) by (simp add: DPS_NODE_ADDRESS_PATH_MAX_def CBOR_MAX_STRING_LEN_def)
  then have "CBOR_DecodeString r = (Inr p, rx_advance r (length (hdr_bytes CBOR_STRING p)))"
    if "rx_wf r" "rx_rem r = hdr_bytes CBOR_STRING p @ rest" for r rest
    using str.dec_img[OF that(1) _ that(2)] by simp
  then show ?thesis using assms
    by (auto simp: reads_def decode_field_def key_defs intro!: rx_wf_advance)
qed

lemma reads_needs:
  assumes "bv_ok FH_BITVECTOR_LEN v" "f_needs f = None"
  shows "reads nd config isSak DPS_CBOR_KEY_NEEDS (hdr_bytes CBOR_BYTES (bytes_of_chunks (bits v))) f
    ((mark_key DPS_CBOR_KEY_NEEDS f)\<lparr>f_needs := Some (v\<lparr>popCount := -1\<rparr>)\<rparr>)"
proof -
  have l: "8 * length (bits v) = FH_BITVECTOR_LEN div 8" "bv_len v = FH_BITVECTOR_LEN"
    using assms(1) by (auto simp: bv_ok_def bv_wf_def)
  have "CBOR_DecodeBytes r = (Inr (bytes_of_chunks (bits v)), rx_advance r (length (hdr_bytes CBOR_BYTES (bytes_of_chunks (bits v)))))"
    if "rx_wf r" "rx_rem r = hdr_bytes CBOR_BYTES (bytes_of_chunks (bits v)) @ rest" for r rest
    using bytes.dec_img[OF that(1) TrueI that(2)] .
  then have "DPS_BitVectorDeserializeFH (\<lparr>popCount = -1, bv_len = FH_BITVECTOR_LEN, bits = replicate (FH_BITVECTOR_LEN div 64) 0\<rparr>) r
      = (DPS_OK, v\<lparr>popCount := -1\<rparr>, rx_advance r (length (hdr_bytes CBOR_BYTES (bytes_of_chunks (bits v)))))"
    if "rx_wf r" "rx_rem r = hdr_bytes CBOR_BYTES (bytes_of_chunks (bits v)) @ rest" for r rest
    using that l by (simp add: DPS_BitVectorDeserializeFH_def bytes_chunks_inverse)
  then show ?thesis using assms(2)
    by (auto simp: reads_def decode_field_def key_defs mark_key_def Let_def DPS_BitVectorAllocFH_def AllocBV_def intro!: rx_wf_advance)
qed

text \<open>The interests, in whatever form they are written, are read back into the same bits.\<close>

lemma Serialize_keeps: "DPS_BitVectorSerialize v b = Some (ret, v', b') \<Longrightarrow> v' = v\<lparr>popCount := popCount v'\<rparr>"
  by (cases v) (auto simp: DPS_BitVectorSerialize_def DPS_BitVectorLoadFactor_def DPS_BitVectorPopCount_def Let_def
      split: prod.splits if_splits option.splits)

lemma wrote_interests:
  assumes "tx_wf b" "bv_ok (bitLen config) v" "config_ok config" "bitLen config < 2 ^ 16"
    and "run_steps [enc_interests] (DPS_OK, (b, Some v)) = Some (DPS_OK, (b', i'))"
  obtains img w where "tx_out b' = tx_out b @ img" "tx_wf b'" "bits w = bits v" "bv_len w = bv_len v"
    "\<And>f isSak. f_interests f = None \<Longrightarrow>
       reads nd config isSak DPS_CBOR_KEY_INTERESTS img f ((mark_key DPS_CBOR_KEY_INTERESTS f)\<lparr>f_interests := Some w\<rparr>)"
proof -
  let ?z = "\<lparr>popCount = -1, bv_len = bitLen config, bits = replicate (bitLen config div 64) 0\<rparr>"
  obtain v' where e: "DPS_BitVectorSerialize v b = Some (DPS_OK, v', b')"
    using assms(5) by (cases "DPS_BitVectorSerialize v b") (auto simp: enc_interests_def split: if_splits)
  have v: "bv_wf v" "bv_len v = bitLen config" "0 < bv_len v" "bv_len v < 2 ^ 16"
    using assms(2-4) by (auto simp: bv_ok_def config_ok_def)
  from serialize_image[OF assms(1) v(1,3,4) e] obtain img where img: "tx_wf b'" "tx_out b' = tx_out b @ img"
    and all: "\<And>w nd. bv_len w = bv_len v \<Longrightarrow> \<exists>w'. bits w' = bits v \<and> bv_len w' = bv_len w \<and>
       (\<forall>r rest. rx_wf r \<longrightarrow> rx_rem r = img @ rest \<longrightarrow>
          (\<exists>r'. DPS_BitVectorDeserialize nd w r = Some (DPS_OK, w', r') \<and> rx_wf r' \<and> rx_rem r' = rest))"
    by blast
  obtain w where w: "bits w = bits v" "bv_len w = bv_len v"
    "\<And>r rest. rx_wf r \<Longrightarrow> rx_rem r = img @ rest \<Longrightarrow>
       \<exists>r'. DPS_BitVectorDeserialize nd ?z r = Some (DPS_OK, w, r') \<and> rx_wf r' \<and> rx_rem r' = rest"
    using all[of ?z nd] v(2) by auto
  have "reads nd config isSak DPS_CBOR_KEY_INTERESTS img f ((mark_key DPS_CBOR_KEY_INTERESTS f)\<lparr>f_interests := Some w\<rparr>)"
    if "f_interests f = None" for f isSak
    unfolding reads_def
  proof (intro allI impI)
    fix r rest assume "rx_wf r" "rx_rem r = img @ rest"
    from w(3)[OF this] obtain r' where "DPS_BitVectorDeserialize nd ?z r = Some (DPS_OK, w, r')" "rx_wf r'" "rx_rem r' = rest" by blast
    then show "\<exists>r'. decode_field nd config True True isSak DPS_CBOR_KEY_INTERESTS r f =
        Some (DPS_OK, (mark_key DPS_CBOR_KEY_INTERESTS f)\<lparr>f_interests := Some w\<rparr>, r') \<and> rx_wf r' \<and> rx_rem r' = rest"
      using that by (simp add: decode_field_def key_defs mark_key_def Let_def DPS_BitVectorAlloc_def AllocBV_def)
  qed
  then show thesis using that img w(1,2) by blast
qed

subsection \<open>Whole messages\<close>

lemma field_bytes_simps [simp]:
  "field_bytes [] = []" "field_bytes ((k, img) # es) = key_bytes k @ img @ field_bytes es"
  "field_bytes (es @ es') = field_bytes es @ field_bytes es'"
  by (simp_all add: field_bytes_def)

lemma wrote_field: "wrote [f] img \<Longrightarrow> 0 \<le> k \<Longrightarrow> k < 2 ^ 31 \<Longrightarrow> wrote [enc_key k, f] (field_bytes [(k, img)])"
  using wrote_Cons[OF wrote_key] by fastforce

definition header_img :: "u8 \<Rightarrow> nat \<Rightarrow> u8 list" where
  "header_img t n = uint_bytes (len32 5) CBOR_ARRAY @ uint_bytes (ucast DPS_MSG_VERSION) CBOR_UINT @
     uint_bytes (ucast t) CBOR_UINT @ uint_bytes (len32 n) CBOR_MAP"

definition port_fields :: "DPS_NodeAddress \<Rightarrow> (int \<times> u8 list) list" where
  "port_fields a = (if is_ip (a_type a) then [(DPS_CBOR_KEY_PORT, uint_bytes (ucast (DPS_NetAddrPort (inaddr a))) CBOR_UINT)] else [])"

definition path_fields :: "DPS_NodeAddress \<Rightarrow> (int \<times> u8 list) list" where
  "path_fields a = (if a_type a = DPS_PIPE then [(DPS_CBOR_KEY_PATH, hdr_bytes CBOR_STRING (path a))] else [])"

definition common_fields :: "u32 \<Rightarrow> u8 \<Rightarrow> DPS_UUID \<Rightarrow> (int \<times> u8 list) list" where
  "common_fields revision flags mesh =
     [(DPS_CBOR_KEY_SEQ_NUM, uint_bytes (ucast revision) CBOR_UINT), (DPS_CBOR_KEY_SUB_FLAGS, uint_bytes (ucast flags) CBOR_UINT),
      (DPS_CBOR_KEY_MESH_ID, hdr_bytes CBOR_BYTES (uuid_val mesh))]"

lemma wrote_header: "n < 2 ^ 32 \<Longrightarrow> wrote (header_steps t n) (header_img t n)"
  unfolding header_steps_def header_img_def
  by (intro wrote_Cons wrote_array wrote_uint wrote_map) simp_all

lemma wrote_port: "wrote (port_steps a) (field_bytes (port_fields a))"
  using wrote_field[OF wrote_uint, of DPS_CBOR_KEY_PORT]
  by (auto simp: port_steps_def port_fields_def wrote_Nil key_defs)

lemma wrote_path: "length (path a) \<le> CBOR_MAX_STRING_LEN \<Longrightarrow> wrote (path_steps a) (field_bytes (path_fields a))"
  using wrote_field[OF wrote_string, of "path a" DPS_CBOR_KEY_PATH]
  by (auto simp: path_steps_def path_fields_def wrote_Nil key_defs)

lemma wrote_common: "wrote (common_steps revision flags mesh) (field_bytes (common_fields revision flags mesh))"
proof -
  have "wrote ([enc_key DPS_CBOR_KEY_SEQ_NUM, enc_uint (ucast revision)] @ [enc_key DPS_CBOR_KEY_SUB_FLAGS, enc_uint (ucast flags)] @
      [enc_key DPS_CBOR_KEY_MESH_ID, enc (\<lambda>b. CBOR_EncodeUUID b (uuid_val mesh))])
    (field_bytes [(DPS_CBOR_KEY_SEQ_NUM, uint_bytes (ucast revision) CBOR_UINT)] @
     field_bytes [(DPS_CBOR_KEY_SUB_FLAGS, uint_bytes (ucast flags) CBOR_UINT)] @
     field_bytes [(DPS_CBOR_KEY_MESH_ID, hdr_bytes CBOR_BYTES (uuid_val mesh))])"
    by (intro wrote_append wrote_field wrote_uint wrote_uuid) (simp_all add: key_defs)
  then show ?thesis by (simp add: common_steps_def common_fields_def)
qed

lemma wrote_empty: "wrote empty_maps (uint_bytes (len32 0) CBOR_MAP @ uint_bytes (len32 0) CBOR_MAP)"
  unfolding empty_maps_def by (intro wrote_Cons wrote_map) simp_all

text \<open>The interests that go along: with the needs \<open>n\<close> and the interests \<open>v\<close>, or not at all\<close>

lemma wrote_interest_steps:
  assumes "tx_wf b" "bv_ok (bitLen config) v" "config_ok config" "bitLen config < 2 ^ 16"
    and "out_needs r = Some n" "bv_ok FH_BITVECTOR_LEN n"
    and run: "run_steps (interest_steps r) (DPS_OK, (b, Some v)) = Some (DPS_OK, (b', i'))"
  shows "\<exists>es w. tx_out b' = tx_out b @ field_bytes es \<and> tx_wf b' \<and> bits w = bits v \<and> bv_len w = bv_len v \<and>
    map fst es = [DPS_CBOR_KEY_NEEDS, DPS_CBOR_KEY_INTERESTS] \<and>
    (\<forall>f isSak. f_interests f = None \<and> f_needs f = None \<longrightarrow>
       (\<exists>f'. reads_all nd config isSak es f f' \<and>
          f' = f\<lparr>f_keys := f_keys f', f_interests := Some w, f_needs := Some (n\<lparr>popCount := -1\<rparr>)\<rparr>))"
proof -
  let ?n = "hdr_bytes CBOR_BYTES (bytes_of_chunks (bits n))"
  have split: "interest_steps r = ([enc_key DPS_CBOR_KEY_NEEDS, enc_needs (Some n)] @ [enc_key DPS_CBOR_KEY_INTERESTS]) @ [enc_interests]"
    by (simp add: interest_steps_def assms(5))
  obtain b1 i1 where 1: "run_steps ([enc_key DPS_CBOR_KEY_NEEDS, enc_needs (Some n)] @ [enc_key DPS_CBOR_KEY_INTERESTS])
      (DPS_OK, (b, Some v)) = Some (DPS_OK, (b1, i1))"
    and 2: "run_steps [enc_interests] (DPS_OK, (b1, i1)) = Some (DPS_OK, (b', i'))"
    using run_steps_append[OF run[unfolded split]] by (metis surj_pair)
  have "wrote ([enc_key DPS_CBOR_KEY_NEEDS, enc_needs (Some n)] @ [enc_key DPS_CBOR_KEY_INTERESTS])
      (field_bytes [(DPS_CBOR_KEY_NEEDS, ?n)] @ key_bytes DPS_CBOR_KEY_INTERESTS)"
    by (intro wrote_append wrote_field wrote_needs assms(6) wrote_key) (simp_all add: key_defs)
  with 1 assms(1) have b1: "tx_wf b1" "tx_out b1 = tx_out b @ field_bytes [(DPS_CBOR_KEY_NEEDS, ?n)] @ key_bytes DPS_CBOR_KEY_INTERESTS"
    "i1 = Some v" unfolding wrote_def by blast+
  obtain img w where w: "tx_out b' = tx_out b1 @ img" "tx_wf b'" "bits w = bits v" "bv_len w = bv_len v"
    "\<And>f isSak. f_interests f = None \<Longrightarrow>
       reads nd config isSak DPS_CBOR_KEY_INTERESTS img f ((mark_key DPS_CBOR_KEY_INTERESTS f)\<lparr>f_interests := Some w\<rparr>)"
    using wrote_interests[OF b1(1) assms(2-4) 2[unfolded b1(3)]] by metis
  let ?es = "[(DPS_CBOR_KEY_NEEDS, ?n), (DPS_CBOR_KEY_INTERESTS, img)]"
  let ?f = "\<lambda>f. (mark_key DPS_CBOR_KEY_INTERESTS ((mark_key DPS_CBOR_KEY_NEEDS f)\<lparr>f_needs := Some (n\<lparr>popCount := -1\<rparr>)\<rparr>))\<lparr>f_interests := Some w\<rparr>"
  have ex: "\<exists>f'. reads_all nd config isSak ?es f f' \<and> f' = f\<lparr>f_keys := f_keys f', f_interests := Some w, f_needs := Some (n\<lparr>popCount := -1\<rparr>)\<rparr>"
    if "f_interests f = None" "f_needs f = None" for f isSak
  proof (intro exI conjI)
    show "reads_all nd config isSak ?es f (?f f)"
      by (rule reads_all.intros(2)[OF reads_needs[OF assms(6) that(2)] reads_all.intros(2)[OF w(5) reads_all.intros(1)]])
        (simp add: mark_key_def that(1))
    show "?f f = f\<lparr>f_keys := f_keys (?f f), f_interests := Some w, f_needs := Some (n\<lparr>popCount := -1\<rparr>)\<rparr>"
      by (cases f) (simp add: mark_key_def)
  qed
  show ?thesis using ex w(1-4) b1(2) by (intro exI[of _ ?es] exI[of _ w]) simp
qed

lemma rx_next:
  "rx_wf r \<Longrightarrow> rx_rem r = img @ rest \<Longrightarrow> rx_wf (rx_advance r (length img)) \<and> rx_rem (rx_advance r (length img)) = rest"
  by (auto intro!: rx_wf_advance)

lemma request_type_header:
  assumes "rx_wf r" "rx_rem r = header_img t n @ rest"
  shows "\<exists>b. request_type r = (Inr t, b) \<and> rx_wf b \<and> rx_rem b = uint_bytes (len32 n) CBOR_MAP @ rest"
proof -
  define r1 r2 r3 where "r1 = rx_advance r (length (uint_bytes (len32 5) CBOR_ARRAY))"
    and "r2 = rx_advance r1 (length (uint_bytes (ucast DPS_MSG_VERSION :: u64) CBOR_UINT))"
    and "r3 = rx_advance r2 (length (uint_bytes (ucast t :: u64) CBOR_UINT))"
  note r = assms(2)[unfolded header_img_def append_assoc]
  have 1: "CBOR_DecodeArray r = (Inr 5, r1)" "rx_wf r1"
    "rx_rem r1 = uint_bytes (ucast DPS_MSG_VERSION) CBOR_UINT @ uint_bytes (ucast t) CBOR_UINT @ uint_bytes (len32 n) CBOR_MAP @ rest"
    using array.dec_img[OF assms(1) _ r] rx_next[OF assms(1) r] by (simp_all add: r1_def)
  have 2: "CBOR_DecodeUint8 r1 = (Inr DPS_MSG_VERSION, r2)" "rx_wf r2"
    "rx_rem r2 = uint_bytes (ucast t) CBOR_UINT @ uint_bytes (len32 n) CBOR_MAP @ rest"
    using decode_uint_small(3)[OF 1(2,3)] rx_next[OF 1(2,3)] by (simp_all add: r2_def)
  have 3: "CBOR_DecodeUint8 r2 = (Inr t, r3)" "rx_wf r3" "rx_rem r3 = uint_bytes (len32 n) CBOR_MAP @ rest"
    using decode_uint_small(3)[OF 2(2,3)] rx_next[OF 2(2,3)] by (simp_all add: r3_def)
  show ?thesis using 1(1) 2(1) 3 by (simp add: request_type_def and_then_def)
qed

lemma message_read:
  assumes "rx_wf r" "rx_rem r = header_img t (length es) @ field_bytes es @ rest" "length es < 2 ^ 32"
    and "reads_all nd config isSak es (fields0 mesh) f" "keys_ok (map fst es) ReqKeys OptKeys"
  shows "\<exists>b r'. request_type r = (Inr t, b) \<and> rx_rem r' = rest \<and>
    decode_sub_fields nd config True True transport mesh isSak ep b =
      Option.bind (set_listener transport ep f) (\<lambda>(ret, ep). Some (ret, f, ep, r'))"
proof -
  obtain b where b: "request_type r = (Inr t, b)" "rx_wf b" "rx_rem b = uint_bytes (len32 (length es)) CBOR_MAP @ field_bytes es @ rest"
    using request_type_header[OF assms(1,2)] by blast
  let ?b = "rx_advance b (length (uint_bytes (len32 (length es)) CBOR_MAP))"
  let ?ms = "\<lparr>ms_buffer = ?b, ms_needs = ReqKeys, ms_wants = OptKeys, ms_entries = length es, ms_result = DPS_OK\<rparr>"
  have i: "DPS_ParseMapInit b ReqKeys OptKeys = ?ms" "rx_wf ?b" "rx_rem ?b = field_bytes es @ rest"
    using map_hdr.dec_img[OF b(2) assms(3) b(3)] b(2,3) by (auto simp: DPS_ParseMapInit_def intro!: rx_wf_advance)
  obtain r' where "parse_fields nd config True True isSak ?ms (fields0 mesh) = Some (DPS_OK, f, r')" "rx_rem r' = rest"
    using parse_reads[OF assms(4), of ?ms rest] assms(5) i by auto
  then show ?thesis using b(1) by (auto simp: decode_sub_fields_def i(1) Let_def)
qed

lemma reads_all_append: "reads_all nd config isSak es f g \<Longrightarrow> reads_all nd config isSak es' g h \<Longrightarrow> reads_all nd config isSak (es @ es') f h"
  by (induction rule: reads_all.induct) (auto intro: reads_all.intros)

lemma reads_one: "reads nd config isSak k img f f' \<Longrightarrow> reads_all nd config isSak [(k, img)] f f'"
  by (auto intro: reads_all.intros)

text \<open>An address that can be announced\<close>

definition listener_ok :: "DPS_NodeAddress \<Rightarrow> bool" where
  "listener_ok a \<longleftrightarrow>
     is_ip (a_type a) \<or> a_type a = DPS_PIPE \<and> path a \<noteq> [] \<and> length (path a) < DPS_NODE_ADDRESS_PATH_MAX"

definition listener_port :: "DPS_NodeAddress \<Rightarrow> u16" where
  "listener_port a = (if is_ip (a_type a) then DPS_NetAddrPort (inaddr a) else 0)"

definition listener_path :: "DPS_NodeAddress \<Rightarrow> u8 list option" where
  "listener_path a = (if is_ip (a_type a) then None else Some (path a))"

lemma not_ip_pipe: "is_ip DPS_PIPE = False" by (simp add: is_ip_def)

lemma reads_port_fields: "reads_all nd config isSak (port_fields a) (fields0 m) ((fields0 m)\<lparr>f_port := listener_port a\<rparr>)"
  by (auto simp: port_fields_def listener_port_def fields0_def intro!: reads_one reads_all.intros(1)
      intro: reads_port[of nd config isSak _ "fields0 m", unfolded fields0_def, simplified])

lemma reads_path_fields:
  "listener_ok a \<Longrightarrow> f_path f = None \<Longrightarrow> reads_all nd config isSak (path_fields a) f (f\<lparr>f_path := listener_path a\<rparr>)"
  using reads_path[of "path a" nd config isSak f]
  by (cases f) (auto simp: path_fields_def listener_ok_def listener_path_def not_ip_pipe is_ip_def intro: reads_one reads_all.intros(1))

lemma reads_common_fields:
  "\<exists>k. reads_all nd config isSak (common_fields revision flags mesh) f
     (f\<lparr>f_revision := revision, f_flags := flags, f_mesh := mesh, f_keys := k\<rparr>)"
proof
  let ?g = "f\<lparr>f_revision := revision, f_flags := flags\<rparr>"
  let ?h = "f\<lparr>f_revision := revision, f_flags := flags, f_mesh := mesh, f_keys := f_keys f OR push_bit (nat DPS_CBOR_KEY_MESH_ID) 1\<rparr>"
  have "(mark_key DPS_CBOR_KEY_MESH_ID ?g)\<lparr>f_mesh := mesh\<rparr> = ?h" by (cases f) (simp add: mark_key_def)
  then have "reads nd config isSak DPS_CBOR_KEY_MESH_ID (hdr_bytes CBOR_BYTES (uuid_val mesh)) ?g ?h"
    using reads_mesh[of nd config isSak mesh ?g] by simp
  then show "reads_all nd config isSak (common_fields revision flags mesh) f ?h"
    unfolding common_fields_def
    by (intro reads_all.intros(2)[OF reads_seq] reads_all.intros(2)[OF reads_flags] reads_one)
qed

text \<open>The bytes of a message whose middle part is \<open>mid\<close>\<close>

lemma sent_message:
  assumes run: "run_steps (header_steps t k @ port_steps a @ common_steps revision flags mesh @ mid @ path_steps a @ empty_maps)
      (DPS_OK, (buf, i)) = Some (DPS_OK, (b', i'))"
    and buf: "tx_wf buf" "tx_out buf = []" and a: "listener_ok a" "k < 2 ^ 32"
  obtains b1 b2 i2 where "tx_wf b1" "run_steps mid (DPS_OK, (b1, i)) = Some (DPS_OK, (b2, i2))"
    "\<And>img. tx_wf b2 \<Longrightarrow> tx_out b2 = tx_out b1 @ img \<Longrightarrow>
       tx_wf b' \<and> tx_out b' = header_img t k @ (field_bytes (port_fields a) @ field_bytes (common_fields revision flags mesh) @ img @
         field_bytes (path_fields a)) @ uint_bytes (len32 0) CBOR_MAP @ uint_bytes (len32 0) CBOR_MAP"
proof -
  have "wrote (path_steps a) (field_bytes (path_fields a))"
  proof (cases "a_type a = DPS_PIPE")
    case True
    then show ?thesis using a(1)
      by (intro wrote_path) (auto simp: listener_ok_def DPS_NODE_ADDRESS_PATH_MAX_def CBOR_MAX_STRING_LEN_def is_ip_def)
  qed (simp add: path_steps_def path_fields_def wrote_Nil)
  then have wp: "wrote (path_steps a @ empty_maps) (field_bytes (path_fields a) @ uint_bytes (len32 0) CBOR_MAP @ uint_bytes (len32 0) CBOR_MAP)"
    by (rule wrote_append[OF _ wrote_empty])
  have wh: "wrote (header_steps t k @ port_steps a @ common_steps revision flags mesh)
      (header_img t k @ field_bytes (port_fields a) @ field_bytes (common_fields revision flags mesh))"
    by (intro wrote_append wrote_header wrote_port wrote_common a)
  obtain b1 i1 where 1: "run_steps (header_steps t k @ port_steps a @ common_steps revision flags mesh) (DPS_OK, (buf, i)) = Some (DPS_OK, (b1, i1))"
    and r1: "run_steps (mid @ path_steps a @ empty_maps) (DPS_OK, (b1, i1)) = Some (DPS_OK, (b', i'))"
    using run_steps_append[of "header_steps t k @ port_steps a @ common_steps revision flags mesh"] run by (metis append_assoc surj_pair)
  obtain b2 i2 where 2: "run_steps mid (DPS_OK, (b1, i1)) = Some (DPS_OK, (b2, i2))"
    and r2: "run_steps (path_steps a @ empty_maps) (DPS_OK, (b2, i2)) = Some (DPS_OK, (b', i'))"
    using run_steps_append[OF r1] by (metis surj_pair)
  have b1: "tx_wf b1" "tx_out b1 = header_img t k @ field_bytes (port_fields a) @ field_bytes (common_fields revision flags mesh)" "i1 = i"
    using wh 1 buf unfolding wrote_def by fastforce+
  have "tx_wf b' \<and> tx_out b' = tx_out b2 @ field_bytes (path_fields a) @ uint_bytes (len32 0) CBOR_MAP @ uint_bytes (len32 0) CBOR_MAP" if "tx_wf b2"
    using wp r2 that unfolding wrote_def by blast
  then show thesis using that[OF b1(1) 2[unfolded b1(3)]] b1(2) by simp
qed

lemma SIZEOF_LEN_le: "CBOR_SIZEOF_LEN l \<le> 9"
  by (simp add: CBOR_SIZEOF_LEN_def)

lemma addr_size_le: "addr_size a = Some n \<Longrightarrow> n \<le> 2058"
proof -
  have "CBOR_SizeOfString s \<le> 2058" for s
    using SIZEOF_LEN_le by (auto simp: CBOR_SizeOfString_def Let_def strnlen_s_def CBOR_MAX_STRING_LEN_def
        split: option.splits intro!: add_le_mono[of _ 2049 _ 9, simplified] order_trans[OF SIZEOF_LEN_le])
  then show "addr_size a = Some n \<Longrightarrow> n \<le> 2058" by (auto simp: addr_size_def split: if_splits)
qed

lemma vector_size_le: "bv_len v < 2 ^ 16 \<Longrightarrow> DPS_BitVectorSerializeMaxSize v + DPS_BitVectorSerializeFHSize \<le> 10000"
  using SIZEOF_LEN_le[of "word_of_nat (bv_len v div 8)"] SIZEOF_LEN_le[of "word_of_nat (FH_BITVECTOR_LEN div 8)"] SIZEOF_LEN_le[of 3]
  by (simp add: DPS_BitVectorSerializeMaxSize_def DPS_BitVectorSerializeFHSize_def FH_BITVECTOR_LEN_def)

lemma frame_size_le: "n \<le> 7 \<Longrightarrow> frame_size n \<le> 100"
  using SIZEOF_LEN_le[of 5] SIZEOF_LEN_le[of "word_of_nat n"] SIZEOF_LEN_le[of 0] by (simp add: frame_size_def)

lemma sub_size_bound:
  assumes "sub_size a r = Some (Some len)" "\<And>v. sub_interests r = Some v \<Longrightarrow> bv_len v < 2 ^ 16"
  shows "len < 2 ^ 32"
  using assms addr_size_le[of a] vector_size_le frame_size_le[of 4] frame_size_le[of 6] SIZEOF_LEN_le[of 16]
  by (fastforce simp: sub_size_def split: option.splits if_splits)

lemma map_of_update: "map_of (map (\<lambda>(k, r). (k, if k = i then f r else r)) rs) j = map_option (\<lambda>r. if j = i then f r else r) (map_of rs j)"
  by (induction rs) auto

lemma deref_update:
  "update_remote i f node = Some node' \<Longrightarrow> deref_remote node' j = map_option (\<lambda>r. if j = i then f r else r) (deref_remote node j)"
  by (auto simp: update_remote_def deref_remote_def map_of_update split: if_splits)

lemma update_defined: "deref_remote node i = Some r \<Longrightarrow> \<exists>node'. update_remote i f node = Some node'"
  by (auto simp: update_remote_def deref_remote_def dest!: map_of_SomeD intro: rev_image_eqI)

lemma update_fields:
  "update_remote i f node = Some node' \<Longrightarrow>
   events node' = events node \<and> n_addr node' = n_addr node \<and> netCtx node' = netCtx node \<and> meshId node' = meshId node"
  by (auto simp: update_remote_def split: if_splits)

lemma TxBufferInit_fresh:
  "DPS_TxBufferInit malloc None len = (st, buf) \<Longrightarrow> len < 2 ^ 32 \<Longrightarrow> tx_wf buf \<and> tx_out buf = []"
  by (auto simp: DPS_TxBufferInit_def DPS_TxBufferClear_def tx_wf_def tx_out_def split: if_splits option.splits)

lemma transmit_OK:
  assumes t: "transmit malloc net len steps i remote put sent failed node = Some (DPS_OK, node')"
    and r: "deref_remote node remote = Some r" and l: "len < 2 ^ 32" and s: "steps \<noteq> []"
    and put: "\<And>i r. r_ep (put i r) = r_ep r"
  obtains buf b' i' where "tx_wf buf" "tx_out buf = []" "run_steps steps (DPS_OK, (buf, i)) = Some (DPS_OK, (b', i'))"
    "events node' = events node @ [Sent (r_ep r) (tx_out b')]"
proof -
  obtain st buf where buf: "DPS_TxBufferInit malloc None len = (st, buf)" by fastforce
  obtain ret b' i' where run: "run_steps steps (st, (buf, i)) = Some (ret, (b', i'))"
    using t buf by (auto simp: transmit_def bind_eq_Some_conv)
  obtain n1 where n1: "update_remote remote (put i') node = Some n1" using update_defined[OF r] by blast
  have r1: "deref_remote n1 remote = Some (put i' r)" using deref_update[OF n1, of remote] r by simp
  let ?st = "net n1 (r_ep r) (tx_out b')"
  have ret: "ret = DPS_OK"
    using t buf run n1 r1 by (auto simp: transmit_def split: if_splits)
  have ok: "?st = DPS_OK"
    using t buf run n1 r1 put unfolding ret by (auto simp: transmit_def bind_eq_Some_conv Let_def split: if_splits)
  obtain n2 where n2: "update_remote remote sent n1 = Some n2" "node' = emit (Sent (r_ep r) (tx_out b')) n2"
    using t buf run n1 r1 put ok unfolding ret by (auto simp: transmit_def bind_eq_Some_conv Let_def)
  have "st = DPS_OK" using run ret s by (cases steps) (auto split: if_splits)
  then show thesis
    using that[of buf b' i'] run ret TxBufferInit_fresh[OF buf l] n2(2) update_fields[OF n1] update_fields[OF n2(1)]
    by (simp add: emit_def)
qed

text \<open>With memory and a network that takes the message, sending succeeds.\<close>

lemma transmit_succeeds:
  assumes r: "deref_remote node remote = Some r" and l: "0 < len" "len < 2 ^ 32"
    and mem: "malloc len = Some mem" "length mem = len" and net: "\<And>n e b. net n e b = DPS_OK"
    and put: "\<And>i r. r_ep (put i r) = r_ep r"
    and run: "\<And>buf. tx_wf buf \<Longrightarrow> DPS_TxBufferSpace buf = len \<Longrightarrow> \<exists>b' i'. run_steps steps (DPS_OK, (buf, i)) = Some (DPS_OK, (b', i'))"
  shows "\<exists>node'. transmit malloc net len steps i remote put sent failed node = Some (DPS_OK, node')"
proof -
  let ?buf = "\<lparr>tx_base = mem, txPos = 0\<rparr>"
  have buf: "DPS_TxBufferInit malloc None len = (DPS_OK, ?buf)" using l(1) mem by (simp add: DPS_TxBufferInit_def)
  have w: "tx_wf ?buf" using mem l(2) by (simp add: tx_wf_def)
  then have "DPS_TxBufferSpace ?buf = len" using mem by simp
  from run[OF w this] obtain b' i' where run: "run_steps steps (DPS_OK, (?buf, i)) = Some (DPS_OK, (b', i'))" by blast
  obtain n1 where n1: "update_remote remote (put i') node = Some n1" using update_defined[OF r] by blast
  have r1: "deref_remote n1 remote = Some (put i' r)" using deref_update[OF n1, of remote] r by simp
  obtain n2 where n2: "update_remote remote sent n1 = Some n2" using update_defined[OF r1] by blast
  show ?thesis using buf run n1 r1 n2 put net by (simp add: transmit_def)
qed

lemma put_ep [simp]: "r_ep (sub_put i r) = r_ep r" "r_ep (put_interests i r) = r_ep r" "r_ep (sak_remote r) = r_ep r"
  by (simp_all add: sub_put_def put_interests_def sak_remote_def)

lemma send_sub_OK:
  assumes "DPS_SendSubscription malloc net node remote = Some (DPS_OK, node')" "deref_remote node remote = Some r"
    and small: "\<And>v. sub_interests r = Some v \<Longrightarrow> bv_len v < 2 ^ 16"
  obtains buf b' i' where "tx_wf buf" "tx_out buf = []"
    "run_steps (sub_steps (n_addr node) r (DPS_MinMeshId node (Some remote))) (DPS_OK, (buf, sub_interests r)) = Some (DPS_OK, (b', i'))"
    "events node' = events node @ [Sent (r_ep r) (tx_out b')]"
proof -
  obtain len where len: "sub_size (n_addr node) r = Some (Some len)"
    and t: "transmit malloc net len (sub_steps (n_addr node) r (DPS_MinMeshId node (Some remote))) (sub_interests r)
      remote sub_put sub_sent sub_failed node = Some (DPS_OK, node')"
    using assms(1,2) by (auto simp: DPS_SendSubscription_def bind_eq_Some_conv split: option.splits if_splits)
  show thesis
    by (rule transmit_OK[OF t assms(2) sub_size_bound[OF len small]]) (simp_all add: sub_steps_def header_steps_def that)
qed

text \<open>The mesh id sent to a remote does not depend on the remote itself.\<close>

lemma min_mesh_excluded:
  "min_mesh (Some i) (map (\<lambda>(j, r). (j, if j = i then f r else r)) rs) m = min_mesh (Some i) rs m"
  by (induction rs arbitrary: m) auto

lemma MinMeshId_update: "update_remote i f node = Some node' \<Longrightarrow> DPS_MinMeshId node' (Some i) = DPS_MinMeshId node (Some i)"
  by (auto simp: update_remote_def DPS_MinMeshId_def min_mesh_excluded split: if_splits)

lemma sak_size_bound:
  assumes "sak_size a r c = Some (Some len)" "\<And>v. sak_interests r c = Some v \<Longrightarrow> bv_len v < 2 ^ 16"
  shows "len < 2 ^ 32"
  using assms addr_size_le[of a] vector_size_le frame_size_le[of 5] frame_size_le[of 7] SIZEOF_LEN_le[of 16]
  by (fastforce simp: sak_size_def split: option.splits if_splits)

lemma send_sak_OK:
  assumes "DPS_SendSubscriptionAck malloc net node remote c = Some (DPS_OK, node')" "deref_remote node remote = Some r"
    and small: "\<And>v. sak_interests r c = Some v \<Longrightarrow> bv_len v < 2 ^ 16"
  obtains buf b' i' where "tx_wf buf" "tx_out buf = []"
    "run_steps (sak_steps (n_addr node) r c (DPS_MinMeshId node (Some remote))) (DPS_OK, (buf, sak_interests r c)) = Some (DPS_OK, (b', i'))"
    "events node' = events node @ [Sent (r_ep r) (tx_out b')]"
proof -
  obtain n1 where n1: "update_remote remote sak_remote node = Some n1" using update_defined[OF assms(2)] by blast
  note u = update_fields[OF n1] MinMeshId_update[OF n1]
  have r1: "deref_remote n1 remote = Some (sak_remote r)" using deref_update[OF n1, of remote] assms(2) by simp
  let ?w = "sak_with_interests r c"
  obtain len where len: "sak_size (n_addr node) r c = Some (Some len)"
    and t: "transmit malloc net len (sak_steps (n_addr node) r c (DPS_MinMeshId node (Some remote))) (sak_interests r c)
      remote (\<lambda>i. if ?w then put_interests i else id) (sak_sent ?w) sak_failed n1 = Some (DPS_OK, node')"
    using assms(1,2) n1 u by (auto simp: DPS_SendSubscriptionAck_def bind_eq_Some_conv Let_def split: option.splits if_splits)
  show thesis
    by (rule transmit_OK[OF t r1 sak_size_bound[OF len small]]) (simp_all add: sak_steps_def header_steps_def that u)
qed

text \<open>The fields that the receiver finds, when the sender listens at \<open>a\<close> and sends the other values\<close>

definition same_vectors :: "DPS_BitVector option \<Rightarrow> DPS_BitVector option \<Rightarrow> SubFields \<Rightarrow> bool" where
  "same_vectors i n f \<longleftrightarrow>
     (case i of None \<Rightarrow> f_interests f = None
      | Some v \<Rightarrow> \<exists>w. f_interests f = Some w \<and> bits w = bits v \<and> bv_len w = bv_len v) \<and>
     f_needs f = map_option (\<lambda>n. n\<lparr>popCount := -1\<rparr>) n"

definition received_as ::
  "DPS_NodeAddress \<Rightarrow> u32 \<Rightarrow> u8 \<Rightarrow> DPS_UUID \<Rightarrow> DPS_BitVector option \<Rightarrow> DPS_BitVector option \<Rightarrow> u32 \<Rightarrow> SubFields \<Rightarrow> bool" where
  "received_as a revision flags mesh i n ack f \<longleftrightarrow>
     f_port f = listener_port a \<and> f_path f = listener_path a \<and> f_revision f = revision \<and> f_flags f = flags \<and>
     f_mesh f = mesh \<and> same_vectors i n f \<and> f_ack f = ack"

definition vectors_ok :: "Configuration \<Rightarrow> DPS_BitVector option \<Rightarrow> DPS_BitVector option \<Rightarrow> bool" where
  "vectors_ok config i n \<longleftrightarrow> (\<exists>v w. i = Some v \<and> bv_ok (bitLen config) v \<and> n = Some w \<and> bv_ok FH_BITVECTOR_LEN w)"

text \<open>The middle part of a message: the vectors and the number that is acknowledged\<close>

definition mid_fields ::
  "bool \<Rightarrow> Configuration \<Rightarrow> bool \<Rightarrow> (int \<times> u8 list) list \<Rightarrow> DPS_BitVector option \<Rightarrow> DPS_BitVector option \<Rightarrow> u32 \<Rightarrow> bool" where
  "mid_fields nd config isSak es i n ack \<longleftrightarrow>
     (\<forall>f. f_interests f = None \<and> f_needs f = None \<and> f_ack f = 0 \<longrightarrow>
        (\<exists>f'. reads_all nd config isSak es f f' \<and> same_vectors i n f' \<and>
           f' = f\<lparr>f_keys := f_keys f', f_interests := f_interests f', f_needs := f_needs f', f_ack := ack\<rparr>))"

lemma mid_nothing: "mid_fields nd config isSak [] None None 0"
proof -
  have "f = f\<lparr>f_keys := f_keys f, f_interests := f_interests f, f_needs := f_needs f, f_ack := 0\<rparr>" if "f_ack f = 0" for f :: SubFields
    using that by (cases f) simp
  then show ?thesis unfolding mid_fields_def same_vectors_def by (auto intro: reads_all.intros(1))
qed

lemma mid_ack:
  assumes "mid_fields nd config True es i n 0"
  shows "mid_fields nd config True (es @ [(DPS_CBOR_KEY_ACK_SEQ_NUM, uint_bytes (ucast q) CBOR_UINT)]) i n q"
  unfolding mid_fields_def
proof (intro allI impI)
  fix f :: SubFields
  assume "f_interests f = None \<and> f_needs f = None \<and> f_ack f = 0"
  then obtain g where g: "reads_all nd config True es f g" "same_vectors i n g"
    "g = f\<lparr>f_keys := f_keys g, f_interests := f_interests g, f_needs := f_needs g, f_ack := 0\<rparr>"
    using assms unfolding mid_fields_def by blast
  let ?h = "g\<lparr>f_ack := q\<rparr>"
  have "?h = f\<lparr>f_keys := f_keys ?h, f_interests := f_interests ?h, f_needs := f_needs ?h, f_ack := q\<rparr>"
    by (subst g(3)) simp
  moreover have "same_vectors i n ?h" using g(2) by (simp add: same_vectors_def split: option.splits)
  ultimately show "\<exists>f'. reads_all nd config True (es @ [(DPS_CBOR_KEY_ACK_SEQ_NUM, uint_bytes (ucast q) CBOR_UINT)]) f f' \<and>
      same_vectors i n f' \<and> f' = f\<lparr>f_keys := f_keys f', f_interests := f_interests f', f_needs := f_needs f', f_ack := q\<rparr>"
    using reads_all_append[OF g(1) reads_one[OF reads_ack]] by blast
qed

lemma wrote_vectors:
  assumes "tx_wf b" "vectors_ok config i (out_needs r)" "config_ok config" "bitLen config < 2 ^ 16"
    and run: "run_steps (interest_steps r) (DPS_OK, (b, i)) = Some (DPS_OK, (b', i'))"
  shows "\<exists>es. tx_wf b' \<and> tx_out b' = tx_out b @ field_bytes es \<and>
    map fst es = [DPS_CBOR_KEY_NEEDS, DPS_CBOR_KEY_INTERESTS] \<and> mid_fields nd config isSak es i (out_needs r) 0"
proof -
  obtain v n where v: "i = Some v" "bv_ok (bitLen config) v" "out_needs r = Some n" "bv_ok FH_BITVECTOR_LEN n"
    using assms(2) by (auto simp: vectors_ok_def)
  obtain es w where es: "tx_out b' = tx_out b @ field_bytes es" "tx_wf b'" "bits w = bits v" "bv_len w = bv_len v"
      "map fst es = [DPS_CBOR_KEY_NEEDS, DPS_CBOR_KEY_INTERESTS]"
    and reads: "\<forall>f isSak. f_interests f = None \<and> f_needs f = None \<longrightarrow>
       (\<exists>f'. reads_all nd config isSak es f f' \<and> f' = f\<lparr>f_keys := f_keys f', f_interests := Some w, f_needs := Some (n\<lparr>popCount := -1\<rparr>)\<rparr>)"
    using wrote_interest_steps[OF assms(1) v(2) assms(3,4) v(3,4) run[unfolded v(1)], where nd = nd]
    by (elim exE conjE) (rule that; assumption)
  have "mid_fields nd config isSak es i (out_needs r) 0"
    unfolding mid_fields_def
  proof (intro allI impI)
    fix f :: SubFields
    assume f: "f_interests f = None \<and> f_needs f = None \<and> f_ack f = 0"
    then obtain g where g: "reads_all nd config isSak es f g"
      "g = f\<lparr>f_keys := f_keys g, f_interests := Some w, f_needs := Some (n\<lparr>popCount := -1\<rparr>)\<rparr>"
      using reads by blast
    have s: "f_interests g = Some w" "f_needs g = Some (n\<lparr>popCount := -1\<rparr>)" by (subst g(2), simp)+
    have "g = f\<lparr>f_keys := f_keys g, f_interests := f_interests g, f_needs := f_needs g, f_ack := 0\<rparr>"
      unfolding s using f by (subst g(2)) (cases f, simp)
    moreover have "same_vectors i (out_needs r) g" using s es(3,4) v(1,3) by (simp add: same_vectors_def)
    ultimately show "\<exists>f'. reads_all nd config isSak es f f' \<and> same_vectors i (out_needs r) f' \<and>
        f' = f\<lparr>f_keys := f_keys f', f_interests := f_interests f', f_needs := f_needs f', f_ack := 0\<rparr>"
      using g(1) by blast
  qed
  with es(1,2,5) show ?thesis by (intro exI[of _ es]) simp
qed

text \<open>A message with any middle part is read back.\<close>

lemma received_fields:
  assumes "mid_fields nd config isSak es i n ack" "listener_ok a"
  shows "\<exists>f. reads_all nd config isSak (port_fields a @ common_fields revision flags mesh @ es @ path_fields a) (fields0 m) f \<and>
    received_as a revision flags mesh i n ack f"
proof -
  let ?f1 = "(fields0 m)\<lparr>f_port := listener_port a\<rparr>"
  obtain k where 2: "reads_all nd config isSak (common_fields revision flags mesh) ?f1
      (?f1\<lparr>f_revision := revision, f_flags := flags, f_mesh := mesh, f_keys := k\<rparr>)" (is "reads_all _ _ _ _ _ ?f2")
    using reads_common_fields by blast
  have "f_interests ?f2 = None \<and> f_needs ?f2 = None \<and> f_ack ?f2 = 0" by (simp add: fields0_def)
  then obtain g where g: "reads_all nd config isSak es ?f2 g" "same_vectors i n g"
    "g = ?f2\<lparr>f_keys := f_keys g, f_interests := f_interests g, f_needs := f_needs g, f_ack := ack\<rparr>"
    using assms(1) unfolding mid_fields_def by blast
  have sel: "f_port g = listener_port a" "f_path g = None" "f_revision g = revision" "f_flags g = flags" "f_mesh g = mesh" "f_ack g = ack"
    by (subst g(3), simp add: fields0_def)+
  have "received_as a revision flags mesh i n ack (g\<lparr>f_path := listener_path a\<rparr>)"
    using sel g(2) by (simp add: received_as_def same_vectors_def split: option.splits)
  moreover have "reads_all nd config isSak (port_fields a @ common_fields revision flags mesh @ es @ path_fields a) (fields0 m) (g\<lparr>f_path := listener_path a\<rparr>)"
    by (intro reads_all_append[OF reads_port_fields] reads_all_append[OF 2] reads_all_append[OF g(1)] reads_path_fields assms(2) sel(2))
  ultimately show ?thesis by blast
qed

lemma message_roundtrip:
  assumes run: "run_steps (header_steps t k @ port_steps a @ common_steps revision flags mesh @ mid @ path_steps a @ empty_maps)
      (DPS_OK, (buf, i0)) = Some (DPS_OK, (b', i'))"
    and buf: "tx_wf buf" "tx_out buf = []" and a: "listener_ok a" "k = 4 + length ks"
    and mid: "\<And>b1 b2 i2. tx_wf b1 \<Longrightarrow> run_steps mid (DPS_OK, (b1, i0)) = Some (DPS_OK, (b2, i2)) \<Longrightarrow>
      \<exists>es. tx_wf b2 \<and> tx_out b2 = tx_out b1 @ field_bytes es \<and> map fst es = ks \<and> mid_fields nd config isSak es i n ack"
    and ks: "ks \<in> {[], [DPS_CBOR_KEY_NEEDS, DPS_CBOR_KEY_INTERESTS], [DPS_CBOR_KEY_ACK_SEQ_NUM],
      [DPS_CBOR_KEY_NEEDS, DPS_CBOR_KEY_INTERESTS, DPS_CBOR_KEY_ACK_SEQ_NUM]}"
  shows "\<exists>b f r'. request_type \<lparr>rx_base = tx_out b', rxPos = 0\<rparr> = (Inr t, b) \<and>
    decode_sub_fields nd config True True transport m isSak ep b =
      Option.bind (set_listener transport ep f) (\<lambda>(ret, ep). Some (ret, f, ep, r')) \<and>
    received_as a revision flags mesh i n ack f"
proof -
  have k: "k < 2 ^ 32" using a(2) ks by auto
  obtain b1 b2 i2 where 1: "tx_wf b1" "run_steps mid (DPS_OK, (b1, i0)) = Some (DPS_OK, (b2, i2))"
    "\<And>img. tx_wf b2 \<Longrightarrow> tx_out b2 = tx_out b1 @ img \<Longrightarrow>
       tx_wf b' \<and> tx_out b' = header_img t k @ (field_bytes (port_fields a) @ field_bytes (common_fields revision flags mesh) @ img @
         field_bytes (path_fields a)) @ uint_bytes (len32 0) CBOR_MAP @ uint_bytes (len32 0) CBOR_MAP"
    by (rule sent_message[OF run buf a(1)]) (use k in simp, rule that)
  obtain es where es: "tx_wf b2" "tx_out b2 = tx_out b1 @ field_bytes es" "map fst es = ks" "mid_fields nd config isSak es i n ack"
    using mid[OF 1(1,2)] by blast
  let ?es = "port_fields a @ common_fields revision flags mesh @ es @ path_fields a"
  obtain f where f: "reads_all nd config isSak ?es (fields0 m) f" "received_as a revision flags mesh i n ack f"
    using received_fields[OF es(4) a(1)] by blast
  have ip: "is_ip (a_type a) = (a_type a \<noteq> DPS_PIPE)" using a(1) by (auto simp: listener_ok_def is_ip_def)
  have len: "length ?es = k"
    using a(2) es(3)[symmetric] ip by (auto simp: port_fields_def path_fields_def common_fields_def)
  have keys: "keys_ok (map fst ?es) ReqKeys OptKeys"
    using ks ip unfolding es(3)[symmetric]
    by (auto simp: es(3) port_fields_def path_fields_def common_fields_def ReqKeys_def OptKeys_def key_defs key32_def)
  have rx: "rx_wf \<lparr>rx_base = tx_out b', rxPos = 0\<rparr>"
    "rx_rem \<lparr>rx_base = tx_out b', rxPos = 0\<rparr> = header_img t (length ?es) @ field_bytes ?es @ uint_bytes (len32 0) CBOR_MAP @ uint_bytes (len32 0) CBOR_MAP"
    using 1(3)[OF es(1,2)] length_tx_out[of b'] unfolding len by (simp_all add: rx_wf_def rx_rem_def tx_wf_def)
  show ?thesis
    using message_read[OF rx _ f(1) keys, of transport ep] f(2) len k by blast
qed


subsection \<open>The allocated size is enough\<close>

text \<open>\<open>fits fs i J n\<close>: with the interests \<open>i\<close> at hand, the steps succeed in a buffer with \<open>n\<close> bytes left, take
  at most \<open>n\<close> bytes and leave interests in \<open>J\<close>.\<close>

definition fits :: "enc_step list \<Rightarrow> DPS_BitVector option \<Rightarrow> DPS_BitVector option set \<Rightarrow> nat \<Rightarrow> bool" where
  "fits fs i J n \<longleftrightarrow>
     (\<forall>b. tx_wf b \<longrightarrow> n \<le> DPS_TxBufferSpace b \<longrightarrow>
        (\<exists>b' j. j \<in> J \<and> run_steps fs (DPS_OK, (b, i)) = Some (DPS_OK, (b', j)) \<and> tx_wf b' \<and>
           DPS_TxBufferSpace b \<le> DPS_TxBufferSpace b' + n))"

lemma run_steps_OK_append: "run_steps xs (DPS_OK, s) = Some (DPS_OK, s1) \<Longrightarrow> run_steps (xs @ ys) (DPS_OK, s) = run_steps ys (DPS_OK, s1)"
proof (induction xs arbitrary: s)
  case (Cons f fs)
  then obtain r s2 where f: "f s = Some (r, s2)" by (cases "f s") auto
  then have "r = DPS_OK" using Cons.prems by (cases "fs") (auto split: if_splits)
  then show ?case using Cons f by simp
qed simp

lemma fits_Nil: "fits [] i {i} n"
  by (simp add: fits_def)

lemma fits_UNIV: "fits fs i J n \<Longrightarrow> fits fs i UNIV n"
  unfolding fits_def by blast

lemma fits_seq: "fits xs i J m \<Longrightarrow> (\<And>j. j \<in> J \<Longrightarrow> fits ys j K n) \<Longrightarrow> fits (xs @ ys) i K (m + n)"
proof -
  assume f: "fits xs i J m" "\<And>j. j \<in> J \<Longrightarrow> fits ys j K n"
  have "\<exists>b' j. j \<in> K \<and> run_steps (xs @ ys) (DPS_OK, (b, i)) = Some (DPS_OK, (b', j)) \<and> tx_wf b' \<and>
       DPS_TxBufferSpace b \<le> DPS_TxBufferSpace b' + (m + n)"
    if b: "tx_wf b" "m + n \<le> DPS_TxBufferSpace b" for b
  proof -
    have "m \<le> DPS_TxBufferSpace b" using b(2) by simp
    then obtain b1 i1 where b1: "i1 \<in> J" "run_steps xs (DPS_OK, (b, i)) = Some (DPS_OK, (b1, i1))" "tx_wf b1"
      "DPS_TxBufferSpace b \<le> DPS_TxBufferSpace b1 + m"
      using f(1) b(1) unfolding fits_def by blast
    have "n \<le> DPS_TxBufferSpace b1" using b1(4) b(2) by linarith
    then obtain b2 i2 where b2: "i2 \<in> K" "run_steps ys (DPS_OK, (b1, i1)) = Some (DPS_OK, (b2, i2))" "tx_wf b2"
      "DPS_TxBufferSpace b1 \<le> DPS_TxBufferSpace b2 + n"
      using f(2)[OF b1(1)] b1(3) unfolding fits_def by blast
    have "DPS_TxBufferSpace b \<le> DPS_TxBufferSpace b2 + (m + n)" using b1(4) b2(4) by linarith
    then show ?thesis using run_steps_OK_append[OF b1(2)] b2(1-3) by auto
  qed
  then show ?thesis unfolding fits_def by blast
qed

lemma fits_append: "fits xs i {i} m \<Longrightarrow> fits ys i K n \<Longrightarrow> fits (xs @ ys) i K (m + n)"
  by (erule fits_seq) simp

lemma fits_Cons: "fits [f] i {i} m \<Longrightarrow> fits fs i K n \<Longrightarrow> fits (f # fs) i K (m + n)"
  using fits_append[of "[f]" i m fs K n] by simp

lemma fits_enc:
  assumes "\<And>b. tx_wf b \<Longrightarrow> length img \<le> DPS_TxBufferSpace b \<Longrightarrow> f b = (DPS_OK, tx_put b img)" "length img \<le> n"
  shows "fits [enc f] i {i} n"
  unfolding fits_def
proof (intro allI impI)
  fix b :: DPS_TxBuffer
  assume b: "tx_wf b" "n \<le> DPS_TxBufferSpace b"
  then have le: "length img \<le> DPS_TxBufferSpace b" using assms(2) by simp
  then have "tx_wf (tx_put b img)" using tx_wf_put[OF b(1)] by blast
  moreover have "DPS_TxBufferSpace b \<le> DPS_TxBufferSpace (tx_put b img) + n"
    using tx_space_put[OF b(1) le] assms(2) le by simp
  ultimately show "\<exists>b' j. j \<in> {i} \<and> run_steps [enc f] (DPS_OK, (b, i)) = Some (DPS_OK, (b', j)) \<and> tx_wf b' \<and>
      DPS_TxBufferSpace b \<le> DPS_TxBufferSpace b' + n"
    using assms(1)[OF b(1) le] by (simp add: enc_def)
qed

lemma fits_uint: "Requires m + 1 \<le> n \<Longrightarrow> fits [enc_uint m] i {i} n"
  unfolding enc_uint_def by (rule fits_enc[OF uint.enc_fits]) simp_all

lemma fits_uint_sizes:
  "fits [enc_uint (ucast (c :: u8))] i {i} 2" "fits [enc_uint (ucast (p :: u16))] i {i} 3" "fits [enc_uint (ucast (q :: u32))] i {i} 5"
  using ucast_bound(1)[of p] ucast_bound(2)[of q] ucast_bound(3)[of c]
  by (auto intro!: fits_uint simp: Requires_def)

lemma fits_key: "0 \<le> k \<Longrightarrow> k < 24 \<Longrightarrow> fits [enc_key k] i {i} 2"
  unfolding enc_key_def
proof (rule fits_uint)
  assume k: "0 \<le> k" "k < 24"
  then have "(word_of_int k :: u64) < 24" by (simp add: word_less_def uint_word_of_int_eq take_bit_int_eq_self)
  then show "Requires (word_of_int k) + 1 \<le> 2" by (simp add: Requires_def)
qed

lemma fits_map: "n < 2 ^ 32 \<Longrightarrow> fits [enc (\<lambda>b. CBOR_EncodeMap b n)] i {i} (CBOR_SIZEOF_LEN (word_of_nat n))"
  by (rule fits_enc[OF map_hdr.enc_fits]) (simp_all add: CBOR_SIZEOF_LEN_eq len32_def)

lemma fits_array: "n < 2 ^ 32 \<Longrightarrow> fits [enc (\<lambda>b. CBOR_EncodeArray b n)] i {i} (CBOR_SIZEOF_LEN (word_of_nat n))"
  by (rule fits_enc[OF array.enc_fits]) (simp_all add: CBOR_SIZEOF_LEN_eq len32_def)

lemma fits_uuid: "fits [enc (\<lambda>b. CBOR_EncodeUUID b (uuid_val m))] i {i} (16 + CBOR_SIZEOF_LEN 16)"
  by (rule fits_enc[OF uuid.enc_fits[OF _ length_uuid_val]]) (simp_all add: hdr_bytes_def CBOR_SIZEOF_LEN_eq len32_def)

lemma fits_string:
  assumes "length p \<le> CBOR_MAX_STRING_LEN"
  shows "fits [enc (\<lambda>b. CBOR_EncodeString b (Some p))] i {i} (CBOR_SizeOfString (Some p))"
  by (rule fits_enc[OF str.enc_fits[OF _ assms]])
    (use assms in \<open>simp_all add: hdr_bytes_def CBOR_SizeOfString_def CBOR_SIZEOF_LEN_eq len32_def strnlen_s_def Let_def min_absorb1 CBOR_MAX_STRING_LEN_def\<close>)

lemma fits_needs:
  assumes "bv_ok FH_BITVECTOR_LEN v"
  shows "fits [enc_needs (Some v)] i {i} DPS_BitVectorSerializeFHSize"
proof -
  have l: "length (bytes_of_chunks (bits v)) = bv_len v div 8" "bv_len v = FH_BITVECTOR_LEN" "length (bits v) = 4"
    using assms by (auto simp: bv_ok_def bv_wf_def FH_BITVECTOR_LEN_def)
  have "DPS_BitVectorSerializeFH v b = (DPS_OK, tx_put b (hdr_bytes CBOR_BYTES (bytes_of_chunks (bits v))))"
    if "tx_wf b" "length (hdr_bytes CBOR_BYTES (bytes_of_chunks (bits v))) \<le> DPS_TxBufferSpace b" for b
    using bytes.enc_fits[OF that(1) TrueI that(2)] l by (simp add: DPS_BitVectorSerializeFH_def)
  then have "fits [enc (DPS_BitVectorSerializeFH v)] i {i} DPS_BitVectorSerializeFHSize"
    by (rule fits_enc) (simp_all add: l hdr_bytes_def DPS_BitVectorSerializeFHSize_def CBOR_SIZEOF_LEN_eq len32_def FH_BITVECTOR_LEN_def)
  then show ?thesis by (simp add: fits_def enc_needs_def)
qed

text \<open>The serialization of a vector fails when its run-length code is longer than the vector.\<close>

definition encodable :: "DPS_BitVector \<Rightarrow> bool" where
  "encodable v \<longleftrightarrow>
     (let load = fst (DPS_BitVectorLoadFactor v) in
      30 \<le> load \<and> load \<le> 70 \<or> bv_set v = {} \<or>
      length (rle_stream (if load < 30 then FLAG_RLE_ENCODED else FLAG_RLE_ENCODED OR FLAG_RLE_COMPLEMENT) v) \<le> bv_len v)"

lemma interests_fit:
  assumes "bv_ok n v" "n < 2 ^ 16" "encodable v"
  shows "fits [enc_interests] (Some v) UNIV (DPS_BitVectorSerializeMaxSize v)"
  unfolding fits_def
proof (intro allI impI)
  fix b assume b: "tx_wf b" "DPS_BitVectorSerializeMaxSize v \<le> DPS_TxBufferSpace b"
  have v: "bv_wf v" "bv_len v < 2 ^ 16" using assms(1,2) by (auto simp: bv_ok_def)
  obtain v' b' where s: "DPS_BitVectorSerialize v b = Some (DPS_OK, v', b')" "tx_wf b'" "length (tx_base b') = length (tx_base b)"
    "length (tx_out b') \<le> length (tx_out b) + DPS_BitVectorSerializeMaxSize v"
    using serialize_outcome[OF b(1) v b(2)] assms(3) unfolding encodable_def Let_def by auto
  have "DPS_TxBufferSpace b \<le> DPS_TxBufferSpace b' + DPS_BitVectorSerializeMaxSize v"
    using s(3,4) length_tx_out[OF b(1)] length_tx_out[OF s(2)] b(1) s(2) by simp
  then show "\<exists>b' j. j \<in> UNIV \<and> run_steps [enc_interests] (DPS_OK, (b, Some v)) = Some (DPS_OK, (b', j)) \<and> tx_wf b' \<and>
      DPS_TxBufferSpace b \<le> DPS_TxBufferSpace b' + DPS_BitVectorSerializeMaxSize v"
    using s(1,2) by (auto simp: enc_interests_def)
qed

lemma vectors_fit:
  assumes "bv_ok n v" "n < 2 ^ 16" "encodable v" "out_needs r = Some w" "bv_ok FH_BITVECTOR_LEN w"
  shows "fits (interest_steps r) (Some v) UNIV (4 + DPS_BitVectorSerializeFHSize + DPS_BitVectorSerializeMaxSize v)"
proof -
  have "fits (([enc_key DPS_CBOR_KEY_NEEDS] @ [enc_needs (Some w)] @ [enc_key DPS_CBOR_KEY_INTERESTS]) @ [enc_interests]) (Some v) UNIV
      ((2 + (DPS_BitVectorSerializeFHSize + 2)) + DPS_BitVectorSerializeMaxSize v)"
    by (intro fits_append[OF _ interests_fit[OF assms(1-3)]] fits_append fits_key fits_needs assms(5)) (simp_all add: key_defs)
  moreover have "(2 + (DPS_BitVectorSerializeFHSize + 2)) + DPS_BitVectorSerializeMaxSize v =
      4 + DPS_BitVectorSerializeFHSize + DPS_BitVectorSerializeMaxSize v" by simp
  ultimately show ?thesis unfolding interest_steps_def assms(4) by (metis append_Cons append_Nil)
qed

lemma ack_fits: "fits [enc_key DPS_CBOR_KEY_ACK_SEQ_NUM, enc_uint (ucast (q :: u32))] i {i} 7"
  using fits_append[OF fits_key[of DPS_CBOR_KEY_ACK_SEQ_NUM] fits_uint_sizes(3)[of q]] by (simp add: key_defs)

text \<open>The steps around the middle part take the sizes that the code adds up.\<close>

lemma message_fits:
  assumes mid: "fits mid i UNIV m" and a: "listener_ok a" "addr_size a = Some sz" and k: "k < 2 ^ 32"
    and buf: "tx_wf buf" "CBOR_SIZEOF_LEN 5 + 2 + 2 + CBOR_SIZEOF_LEN (word_of_nat k) + 8 + 2 + 5 + (16 + CBOR_SIZEOF_LEN 16) + sz + m +
      CBOR_SIZEOF_LEN 0 + CBOR_SIZEOF_LEN 0 \<le> DPS_TxBufferSpace buf"
  shows "\<exists>b' i'. run_steps (header_steps t k @ port_steps a @ common_steps revision flags mesh @ mid @ path_steps a @ empty_maps)
    (DPS_OK, (buf, i)) = Some (DPS_OK, (b', i'))"
proof -
  have h: "fits (header_steps t k) i {i} (CBOR_SIZEOF_LEN (word_of_nat 5) + (2 + (2 + CBOR_SIZEOF_LEN (word_of_nat k))))"
    unfolding header_steps_def by (intro fits_Cons fits_array fits_uint_sizes fits_map k) simp
  have c: "fits (common_steps revision flags mesh) i {i} (2 + (5 + (2 + (2 + (2 + (16 + CBOR_SIZEOF_LEN 16))))))"
    unfolding common_steps_def by (intro fits_Cons fits_key fits_uint_sizes fits_uuid) (simp_all add: key_defs)
  have e: "fits empty_maps j {j} (CBOR_SIZEOF_LEN (word_of_nat 0) + CBOR_SIZEOF_LEN (word_of_nat 0))" for j
    unfolding empty_maps_def by (intro fits_Cons fits_map) simp_all
  have port: "fits (port_steps a) i {i} (if is_ip (a_type a) then 2 + 3 else 0)"
    using fits_Cons[OF fits_key[of DPS_CBOR_KEY_PORT] fits_uint_sizes(2)[of "DPS_NetAddrPort (inaddr a)"]]
    by (simp add: port_steps_def fits_Nil key_defs)
  have "length (path a) \<le> CBOR_MAX_STRING_LEN" if "a_type a = DPS_PIPE"
    using a(1) that by (auto simp: listener_ok_def DPS_NODE_ADDRESS_PATH_MAX_def CBOR_MAX_STRING_LEN_def is_ip_def)
  then have p: "fits (path_steps a) j {j} (if a_type a = DPS_PIPE then 2 + CBOR_SizeOfString (Some (path a)) else 0)" for j
    using fits_Cons[OF fits_key[of DPS_CBOR_KEY_PATH] fits_string[of "path a"]]
    by (simp add: path_steps_def fits_Nil key_defs)
  have "fits (header_steps t k @ port_steps a @ common_steps revision flags mesh @ (mid @ (path_steps a @ empty_maps))) i UNIV
      ((CBOR_SIZEOF_LEN (word_of_nat 5) + (2 + (2 + CBOR_SIZEOF_LEN (word_of_nat k)))) + ((if is_ip (a_type a) then 2 + 3 else 0) +
       ((2 + (5 + (2 + (2 + (2 + (16 + CBOR_SIZEOF_LEN 16)))))) + (m + ((if a_type a = DPS_PIPE then 2 + CBOR_SizeOfString (Some (path a)) else 0) +
       (CBOR_SIZEOF_LEN (word_of_nat 0) + CBOR_SIZEOF_LEN (word_of_nat 0)))))))" (is "fits _ _ _ ?n")
    by (intro fits_append[OF h] fits_append[OF port] fits_append[OF c] fits_seq[OF mid] fits_UNIV[OF fits_append[OF p e]])
  moreover have "?n \<le> DPS_TxBufferSpace buf"
    using buf(2) a by (auto simp: addr_size_def is_ip_def listener_ok_def split: if_splits)
  ultimately show ?thesis using buf(1) unfolding fits_def by auto
qed

lemma vectorsE:
  assumes "vectors_ok config i n"
  obtains v w where "i = Some v" "bv_ok (bitLen config) v" "n = Some w" "bv_ok FH_BITVECTOR_LEN w"
  using assms by (auto simp: vectors_ok_def)

definition sendable :: "Configuration \<Rightarrow> DPS_BitVector option \<Rightarrow> DPS_BitVector option \<Rightarrow> bool" where
  "sendable config i n \<longleftrightarrow> vectors_ok config i n \<and> (case i of None \<Rightarrow> False | Some v \<Rightarrow> encodable v)"

lemma addr_size_some: "listener_ok a \<Longrightarrow> \<exists>sz. addr_size a = Some sz \<and> 0 < sz"
  by (auto simp: listener_ok_def addr_size_def CBOR_SizeOfString_def Let_def CBOR_SIZEOF_LEN_eq)

lemma sendable_fits:
  assumes "sendable config i (out_needs r)" "bitLen config < 2 ^ 16"
  obtains v where "i = Some v" "bv_len v < 2 ^ 16"
    "fits (interest_steps r) i UNIV (4 + DPS_BitVectorSerializeFHSize + DPS_BitVectorSerializeMaxSize v)"
proof -
  obtain v w where v: "i = Some v" "bv_ok (bitLen config) v" "out_needs r = Some w" "bv_ok FH_BITVECTOR_LEN w" "encodable v"
    using assms(1) by (auto simp: sendable_def elim!: vectorsE)
  then show thesis using that[of v] vectors_fit[OF v(2) assms(2) v(5,3,4)] assms(2) by (auto simp: bv_ok_def)
qed

lemma send_sub_succeeds:
  assumes r: "deref_remote node remote = Some r" "r_state r \<noteq> REMOTE_MUTED" and ctx: "netCtx node"
    and a: "listener_ok (n_addr node)" and c: "bitLen config < 2 ^ 16"
    and v: "r_state r \<noteq> REMOTE_UNLINKING \<longrightarrow> sendable config (sub_interests r) (out_needs r)"
    and mem: "\<And>n. \<exists>mem. malloc n = Some mem \<and> length mem = n" and net: "\<And>n e b. net n e b = DPS_OK"
  shows "\<exists>node'. DPS_SendSubscription malloc net node remote = Some (DPS_OK, node')"
proof -
  obtain sz where sz: "addr_size (n_addr node) = Some sz" using addr_size_some[OF a] by blast
  let ?k = "if r_state r = REMOTE_UNLINKING then 4 else 6 :: nat"
  let ?mid = "if r_state r \<noteq> REMOTE_UNLINKING then interest_steps r else []"
  obtain len m where len: "sub_size (n_addr node) r = Some (Some len)"
    and m: "fits ?mid (sub_interests r) UNIV m" and small: "\<And>v. sub_interests r = Some v \<Longrightarrow> bv_len v < 2 ^ 16"
    and le: "CBOR_SIZEOF_LEN 5 + 2 + 2 + CBOR_SIZEOF_LEN (word_of_nat ?k) + 8 + 2 + 5 + (16 + CBOR_SIZEOF_LEN 16) + sz + m +
      CBOR_SIZEOF_LEN 0 + CBOR_SIZEOF_LEN 0 \<le> len"
  proof (cases "r_state r = REMOTE_UNLINKING")
    case True
    then show ?thesis using that[of _ 0] sz fits_UNIV[OF fits_Nil]
      by (auto simp: sub_size_def frame_size_def sub_interests_def)
  next
    case False
    obtain v where v: "sub_interests r = Some v" "bv_len v < 2 ^ 16"
      "fits (interest_steps r) (sub_interests r) UNIV (4 + DPS_BitVectorSerializeFHSize + DPS_BitVectorSerializeMaxSize v)"
      using sendable_fits[of config "sub_interests r" r] v False c by blast
    show ?thesis using that[OF _ _ _ , of _ "4 + DPS_BitVectorSerializeFHSize + DPS_BitVectorSerializeMaxSize v"] v sz False
      by (auto simp: sub_size_def frame_size_def)
  qed
  have lt: "len < 2 ^ 32" using sub_size_bound[OF len small] .
  have pos: "0 < len" using le by (simp add: CBOR_SIZEOF_LEN_eq)
  obtain mem' where mem': "malloc len = Some mem'" "length mem' = len" using mem by blast
  have run: "\<exists>b' i'. run_steps (sub_steps (n_addr node) r (DPS_MinMeshId node (Some remote))) (DPS_OK, (buf, sub_interests r)) = Some (DPS_OK, (b', i'))"
    if "tx_wf buf" "DPS_TxBufferSpace buf = len" for buf
    unfolding sub_steps_def by (rule message_fits[OF m a sz _ that(1)]) (use le that(2) in simp_all)
  obtain node' where "transmit malloc net len (sub_steps (n_addr node) r (DPS_MinMeshId node (Some remote))) (sub_interests r)
      remote sub_put sub_sent sub_failed node = Some (DPS_OK, node')"
    using transmit_succeeds[where malloc = malloc and net = net and put = sub_put, OF r(1) pos lt mem' net put_ep(1) run] by blast
  then show ?thesis using r ctx len by (simp add: DPS_SendSubscription_def)
qed

lemma send_sak_succeeds:
  assumes r: "deref_remote node remote = Some r" and ctx: "netCtx node"
    and a: "listener_ok (n_addr node)" and c: "bitLen config < 2 ^ 16"
    and v: "sak_with_interests r col \<longrightarrow> sendable config (sak_interests r col) (out_needs r)"
    and mem: "\<And>n. \<exists>mem. malloc n = Some mem \<and> length mem = n" and net: "\<And>n e b. net n e b = DPS_OK"
  shows "\<exists>node'. DPS_SendSubscriptionAck malloc net node remote col = Some (DPS_OK, node')"
proof -
  obtain sz where sz: "addr_size (n_addr node) = Some sz" using addr_size_some[OF a] by blast
  let ?w = "sak_with_interests r col"
  let ?k = "if ?w then 7 else 5 :: nat"
  let ?ack = "[enc_key DPS_CBOR_KEY_ACK_SEQ_NUM, enc_uint (ucast (in_revision r))]"
  let ?mid = "(if ?w then interest_steps r else []) @ ?ack"
  obtain len m where len: "sak_size (n_addr node) r col = Some (Some len)"
    and m: "fits ?mid (sak_interests r col) UNIV (m + 7)" and small: "\<And>v. sak_interests r col = Some v \<Longrightarrow> bv_len v < 2 ^ 16"
    and le: "CBOR_SIZEOF_LEN 5 + 2 + 2 + CBOR_SIZEOF_LEN (word_of_nat ?k) + 8 + 2 + 5 + (16 + CBOR_SIZEOF_LEN 16) + sz + (m + 7) +
      CBOR_SIZEOF_LEN 0 + CBOR_SIZEOF_LEN 0 \<le> len"
  proof (cases ?w)
    case False
    then show ?thesis using that[of _ 0] sz fits_UNIV[OF ack_fits]
      by (auto simp: sak_size_def frame_size_def sak_interests_def)
  next
    case True
    obtain v where v: "sak_interests r col = Some v" "bv_len v < 2 ^ 16"
      "fits (interest_steps r) (sak_interests r col) UNIV (4 + DPS_BitVectorSerializeFHSize + DPS_BitVectorSerializeMaxSize v)"
      using sendable_fits[of config "sak_interests r col" r] v True c by blast
    show ?thesis using that[of _ "4 + DPS_BitVectorSerializeFHSize + DPS_BitVectorSerializeMaxSize v"] v sz True
        fits_seq[OF v(3) fits_UNIV[OF ack_fits]]
      by (auto simp: sak_size_def frame_size_def)
  qed
  have lt: "len < 2 ^ 32" using sak_size_bound[OF len small] .
  have pos: "0 < len" using le by (simp add: CBOR_SIZEOF_LEN_eq)
  obtain mem' where mem': "malloc len = Some mem'" "length mem' = len" using mem by blast
  obtain n1 where n1: "update_remote remote sak_remote node = Some n1" using update_defined[OF r] by blast
  note u = update_fields[OF n1] MinMeshId_update[OF n1]
  have r1: "deref_remote n1 remote = Some (sak_remote r)" using deref_update[OF n1, of remote] r by simp
  have run: "\<exists>b' i'. run_steps (sak_steps (n_addr node) r col (DPS_MinMeshId node (Some remote))) (DPS_OK, (buf, sak_interests r col)) = Some (DPS_OK, (b', i'))"
    if "tx_wf buf" "DPS_TxBufferSpace buf = len" for buf
    using message_fits[OF m a sz _ that(1), of ?k DPS_MSG_TYPE_SAK] le that(2) unfolding sak_steps_def by simp
  have put: "r_ep ((if ?w then put_interests i else id) r) = r_ep r" for i r by simp
  obtain node' where "transmit malloc net len (sak_steps (n_addr node) r col (DPS_MinMeshId node (Some remote))) (sak_interests r col)
      remote (\<lambda>i. if ?w then put_interests i else id) (sak_sent ?w) sak_failed n1 = Some (DPS_OK, node')"
    using transmit_succeeds[where malloc = malloc and net = net and put = "\<lambda>i. if ?w then put_interests i else id", OF r1 pos lt mem' net put run] by blast
  then show ?thesis using r ctx len n1 u by (simp add: DPS_SendSubscriptionAck_def)
qed

section \<open>Properties of the messages\<close>

text \<open>C9: A subscription message that was handed to the network with success, whether it carries all
  interests, a difference or the end of the link, and whether the node listens at a port or at a path,
  is read back by the receiver: message type, listening address, revision, flags, mesh id and the bits
  of the vectors of interests and needs.\<close>

theorem subscription_message_roundtrip:
  assumes "DPS_SendSubscription malloc net node remote = Some (DPS_OK, node')" "deref_remote node remote = Some r"
    and "listener_ok (n_addr node)" "config_ok config" "bitLen config < 2 ^ 16"
    and "r_state r \<noteq> REMOTE_UNLINKING \<longrightarrow> vectors_ok config (sub_interests r) (out_needs r)"
  shows "\<exists>bytes buf f buf'. events node' = events node @ [Sent (r_ep r) bytes] \<and>
    request_type \<lparr>rx_base = bytes, rxPos = 0\<rparr> = (Inr DPS_MSG_TYPE_SUB, buf) \<and>
    decode_sub_fields nd config True True transport mesh False ep buf =
      Option.bind (set_listener transport ep f) (\<lambda>(ret, ep). Some (ret, f, ep, buf')) \<and>
    received_as (n_addr node) (out_revision r) (sub_flags r) (DPS_MinMeshId node (Some remote))
      (sub_interests r) (if r_state r = REMOTE_UNLINKING then None else out_needs r) 0 f"
proof -
  let ?u = "r_state r = REMOTE_UNLINKING"
  have small: "bv_len v < 2 ^ 16" if "sub_interests r = Some v" for v
    using assms(5,6) that by (auto simp: vectors_ok_def sub_interests_def bv_ok_def split: if_splits)
  obtain buf b' i' where 1: "tx_wf buf" "tx_out buf = []"
    "run_steps (sub_steps (n_addr node) r (DPS_MinMeshId node (Some remote))) (DPS_OK, (buf, sub_interests r)) = Some (DPS_OK, (b', i'))"
    "events node' = events node @ [Sent (r_ep r) (tx_out b')]"
    using send_sub_OK[OF assms(1,2) small] by metis
  have mid: "\<exists>es. tx_wf b2 \<and> tx_out b2 = tx_out b1 @ field_bytes es \<and>
      map fst es = (if ?u then [] else [DPS_CBOR_KEY_NEEDS, DPS_CBOR_KEY_INTERESTS]) \<and>
      mid_fields nd config False es (sub_interests r) (if ?u then None else out_needs r) 0"
    if m: "tx_wf b1" "run_steps (if r_state r \<noteq> REMOTE_UNLINKING then interest_steps r else []) (DPS_OK, (b1, sub_interests r)) = Some (DPS_OK, (b2, i2))"
    for b1 b2 i2
  proof (cases ?u)
    case True
    then show ?thesis using m by (intro exI[of _ "[]"]) (auto simp: sub_interests_def mid_nothing)
  next
    case False
    then have "vectors_ok config (sub_interests r) (out_needs r)"
      "run_steps (interest_steps r) (DPS_OK, (b1, sub_interests r)) = Some (DPS_OK, (b2, i2))"
      using m(2) assms(6) by simp_all
    from wrote_vectors[OF m(1) this(1) assms(4,5) this(2)] False show ?thesis by simp
  qed
  show ?thesis
    using message_roundtrip[OF 1(3)[unfolded sub_steps_def] 1(1,2) assms(3) _ mid, where m = mesh and transport = transport and ep = ep] 1(4)
    by auto
qed

lemma ack_message_read:
  assumes "DPS_SendSubscriptionAck malloc net node remote collision = Some (DPS_OK, node')" "deref_remote node remote = Some r"
    and "listener_ok (n_addr node)" "config_ok config" "bitLen config < 2 ^ 16"
    and "sak_with_interests r collision \<longrightarrow> vectors_ok config (sak_interests r collision) (out_needs r)"
  shows "\<exists>bytes buf f buf'. events node' = events node @ [Sent (r_ep r) bytes] \<and>
    request_type \<lparr>rx_base = bytes, rxPos = 0\<rparr> = (Inr DPS_MSG_TYPE_SAK, buf) \<and>
    decode_sub_fields nd config True True transport mesh True ep buf =
      Option.bind (set_listener transport ep f) (\<lambda>(ret, ep). Some (ret, f, ep, buf')) \<and>
    received_as (n_addr node) (out_revision r) (sak_flags r collision) (DPS_MinMeshId node (Some remote))
      (sak_interests r collision) (if sak_with_interests r collision then out_needs r else None) (in_revision r) f"
proof -
  let ?w = "sak_with_interests r collision"
  let ?ack = "[enc_key DPS_CBOR_KEY_ACK_SEQ_NUM, enc_uint (ucast (in_revision r))]"
  let ?f = "[(DPS_CBOR_KEY_ACK_SEQ_NUM, uint_bytes (ucast (in_revision r)) CBOR_UINT)]"
  let ?ks = "(if ?w then [DPS_CBOR_KEY_NEEDS, DPS_CBOR_KEY_INTERESTS] else []) @ [DPS_CBOR_KEY_ACK_SEQ_NUM]"
  have small: "bv_len v < 2 ^ 16" if "sak_interests r collision = Some v" for v
    using assms(5,6) that by (auto simp: vectors_ok_def sak_interests_def bv_ok_def split: if_splits)
  obtain buf b' i' where 1: "tx_wf buf" "tx_out buf = []"
    "run_steps (sak_steps (n_addr node) r collision (DPS_MinMeshId node (Some remote))) (DPS_OK, (buf, sak_interests r collision)) = Some (DPS_OK, (b', i'))"
    "events node' = events node @ [Sent (r_ep r) (tx_out b')]"
    using send_sak_OK[OF assms(1,2) small] by metis
  have ack: "wrote ?ack (field_bytes ?f)" using wrote_field[OF wrote_uint, of DPS_CBOR_KEY_ACK_SEQ_NUM] by (simp add: key_defs)
  have mid: "\<exists>es. tx_wf b2 \<and> tx_out b2 = tx_out b1 @ field_bytes es \<and> map fst es = ?ks \<and>
      mid_fields nd config True es (sak_interests r collision) (if ?w then out_needs r else None) (in_revision r)"
    if m: "tx_wf b1" "run_steps ((if ?w then interest_steps r else []) @ ?ack) (DPS_OK, (b1, sak_interests r collision)) = Some (DPS_OK, (b2, i2))"
    for b1 b2 i2
  proof -
    obtain b3 i3 where 3: "run_steps (if ?w then interest_steps r else []) (DPS_OK, (b1, sak_interests r collision)) = Some (DPS_OK, (b3, i3))"
      and 4: "run_steps ?ack (DPS_OK, (b3, i3)) = Some (DPS_OK, (b2, i2))"
      using run_steps_append[OF m(2)] by (metis surj_pair)
    obtain es where es: "tx_wf b3" "tx_out b3 = tx_out b1 @ field_bytes es"
      "map fst es = (if ?w then [DPS_CBOR_KEY_NEEDS, DPS_CBOR_KEY_INTERESTS] else [])"
      "mid_fields nd config True es (sak_interests r collision) (if ?w then out_needs r else None) 0"
    proof (cases ?w)
      case True
      then have v: "vectors_ok config (sak_interests r collision) (out_needs r)"
        "run_steps (interest_steps r) (DPS_OK, (b1, sak_interests r collision)) = Some (DPS_OK, (b3, i3))"
        using 3 assms(6) by simp_all
      obtain es where "tx_wf b3" "tx_out b3 = tx_out b1 @ field_bytes es"
        "map fst es = [DPS_CBOR_KEY_NEEDS, DPS_CBOR_KEY_INTERESTS]" "mid_fields nd config True es (sak_interests r collision) (out_needs r) 0"
        using wrote_vectors[OF m(1) v(1) assms(4,5) v(2), where nd = nd and isSak = True]
        by (elim exE conjE) (rule that; assumption)
      then show ?thesis using that[of es] True by simp
    next
      case False
      then show ?thesis using 3 m(1) that[of "[]"] by (simp add: sak_interests_def mid_nothing)
    qed
    have "tx_wf b2 \<and> tx_out b2 = tx_out b3 @ field_bytes ?f" using ack 4 es(1) unfolding wrote_def by blast
    then show ?thesis using es mid_ack[OF es(4)] by (intro exI[of _ "es @ ?f"]) simp
  qed
  have "sak_steps (n_addr node) r collision (DPS_MinMeshId node (Some remote)) =
      header_steps DPS_MSG_TYPE_SAK (if ?w then 7 else 5) @ port_steps (n_addr node) @
      common_steps (out_revision r) (sak_flags r collision) (DPS_MinMeshId node (Some remote)) @
      ((if ?w then interest_steps r else []) @ ?ack) @ path_steps (n_addr node) @ empty_maps"
    by (simp add: sak_steps_def)
  note run = 1(3)[unfolded this]
  show ?thesis
    using message_roundtrip[OF run 1(1,2) assms(3) _ mid, where m = mesh and transport = transport and ep = ep] 1(4)
    by auto
qed

text \<open>C10: The same for an acknowledgement, with or without interests, which also carries the revision that
  is acknowledged.\<close>

theorem acknowledgement_message_roundtrip:
  assumes "DPS_SendSubscriptionAck malloc net node remote collision = Some (DPS_OK, node')" "deref_remote node remote = Some r"
    and "listener_ok (n_addr node)" "config_ok config" "bitLen config < 2 ^ 16"
    and "sak_with_interests r collision \<longrightarrow> vectors_ok config (sak_interests r collision) (out_needs r)"
  shows "\<exists>bytes buf f buf'. events node' = events node @ [Sent (r_ep r) bytes] \<and>
    request_type \<lparr>rx_base = bytes, rxPos = 0\<rparr> = (Inr DPS_MSG_TYPE_SAK, buf) \<and>
    decode_sub_fields nd config True True transport mesh True ep buf =
      Option.bind (set_listener transport ep f) (\<lambda>(ret, ep). Some (ret, f, ep, buf')) \<and>
    received_as (n_addr node) (out_revision r) (sak_flags r collision) (DPS_MinMeshId node (Some remote))
      (sak_interests r collision) (if sak_with_interests r collision then out_needs r else None) (in_revision r) f"
  using assms by (rule ack_message_read)

text \<open>C12: The number of bytes that is allocated for a message is enough: with memory and a network that
  takes the message, a subscription and an acknowledgement are sent, unless the run-length code of the
  interests is longer than the vector.\<close>

theorem message_size_sufficient:
  assumes "deref_remote node remote = Some r" "netCtx node" "listener_ok (n_addr node)" "bitLen config < 2 ^ 16"
    and "\<And>n. \<exists>mem. malloc n = Some mem \<and> length mem = n" "\<And>n e b. net n e b = DPS_OK"
  shows "(if r_state r = REMOTE_MUTED \<or> r_state r \<noteq> REMOTE_UNLINKING \<and> \<not> sendable config (sub_interests r) (out_needs r) then True
      else \<exists>node'. DPS_SendSubscription malloc net node remote = Some (DPS_OK, node')) \<and>
    (if sak_with_interests r collision \<and> \<not> sendable config (sak_interests r collision) (out_needs r) then True
      else \<exists>node'. DPS_SendSubscriptionAck malloc net node remote collision = Some (DPS_OK, node'))"
  using send_sub_succeeds[OF assms(1) _ assms(2-4) _ assms(5,6)] send_sak_succeeds[OF assms(1-4) _ assms(5,6)] by auto

text \<open>A remote node to which interests of which half the bits are set are announced\<close>

definition announcing :: RemoteNode where
  "announcing = zero_remote\<lparr>r_state := REMOTE_ACTIVE, out_revision := 7, in_revision := 3, sendInterests := True,
     out_needs := Some fh0, out_interests := Some (bv64 0x5555555555555555)\<rparr>"

lemma announcing_simps [simp]:
  "r_state announcing = REMOTE_ACTIVE" "out_revision announcing = 7" "out_needs announcing = Some fh0"
  "sub_interests announcing = Some (bv64 0x5555555555555555)" "in_revision announcing = 3"
  "sak_with_interests announcing False" "sak_interests announcing False = Some (bv64 0x5555555555555555)"
  by (simp_all add: announcing_def zero_remote_def sub_interests_def sak_with_interests_def sak_interests_def sak_remote_def)

lemma announcing_sendable: "sendable c64 (Some (bv64 0x5555555555555555)) (Some fh0)" "vectors_ok c64 (Some (bv64 0x5555555555555555)) (Some fh0)"
proof -
  have "POPCOUNT 0x5555555555555555 = 32" by code_simp
  then have "encodable (bv64 0x5555555555555555)" unfolding encodable_def Let_def LoadFactor_bv64 by simp
  then show "sendable c64 (Some (bv64 0x5555555555555555)) (Some fh0)" "vectors_ok c64 (Some (bv64 0x5555555555555555)) (Some fh0)"
    by (simp_all add: sendable_def vectors_ok_def)
qed

lemma node_with_sender [simp]:
  "netCtx (node_with fs r)" "listener_ok (n_addr (node_with fs r))" "events (node_with fs r) = []"
  by (simp_all add: node_with_def listener_ok_def is_ip_def)

abbreviation zeroed :: "nat \<Rightarrow> u8 list option" where "zeroed n \<equiv> Some (replicate n 0)"

theorem message_size_sufficient_witness:
  "(\<exists>node'. DPS_SendSubscription zeroed (\<lambda>_ _ _. DPS_OK) (node_with [] announcing) 0 = Some (DPS_OK, node')) \<and>
   (\<exists>node'. DPS_SendSubscriptionAck zeroed (\<lambda>_ _ _. DPS_OK) (node_with [] announcing) 0 False = Some (DPS_OK, node'))"
  using message_size_sufficient[of "node_with [] announcing" 0 announcing c64 zeroed "\<lambda>_ _ _. DPS_OK" False] announcing_sendable
  by simp

theorem subscription_message_roundtrip_witness:
  "\<exists>node' bytes buf f buf'.
     DPS_SendSubscription zeroed (\<lambda>_ _ _. DPS_OK) (node_with [] announcing) 0 = Some (DPS_OK, node') \<and>
     events node' = [Sent (r_ep announcing) bytes] \<and>
     request_type \<lparr>rx_base = bytes, rxPos = 0\<rparr> = (Inr DPS_MSG_TYPE_SUB, buf) \<and>
     decode_sub_fields False c64 True True DPS_UDP DPS_MaxMeshId False (r_ep announcing) buf =
       Option.bind (set_listener DPS_UDP (r_ep announcing) f) (\<lambda>(ret, ep). Some (ret, f, ep, buf')) \<and>
     f_revision f = 7 \<and> map_option bits (f_interests f) = Some [0x5555555555555555]"
proof -
  obtain node' where s: "DPS_SendSubscription zeroed (\<lambda>_ _ _. DPS_OK) (node_with [] announcing) 0 = Some (DPS_OK, node')"
    using send_sub_succeeds[of "node_with [] announcing" 0 announcing c64 zeroed "\<lambda>_ _ _. DPS_OK"] announcing_sendable by auto
  have v: "r_state announcing \<noteq> REMOTE_UNLINKING \<longrightarrow> vectors_ok c64 (sub_interests announcing) (out_needs announcing)"
    using announcing_sendable by simp
  from subscription_message_roundtrip[OF s example_nodes(3) node_with_sender(2) c64_ok(1) _ v,
      where nd = False and transport = DPS_UDP and mesh = DPS_MaxMeshId and ep = "r_ep announcing"]
  obtain bytes buf f buf' where m: "events node' = [Sent (r_ep announcing) bytes]"
    "request_type \<lparr>rx_base = bytes, rxPos = 0\<rparr> = (Inr DPS_MSG_TYPE_SUB, buf)"
    "decode_sub_fields False c64 True True DPS_UDP DPS_MaxMeshId False (r_ep announcing) buf =
       Option.bind (set_listener DPS_UDP (r_ep announcing) f) (\<lambda>(ret, ep). Some (ret, f, ep, buf'))"
    "f_revision f = 7" "same_vectors (Some (bv64 0x5555555555555555)) (Some fh0) f"
    by (auto simp: received_as_def)
  then show ?thesis using s by (auto simp: same_vectors_def bv64_def)
qed

theorem acknowledgement_message_roundtrip_witness:
  "\<exists>node' bytes buf f buf'.
     DPS_SendSubscriptionAck zeroed (\<lambda>_ _ _. DPS_OK) (node_with [] announcing) 0 False = Some (DPS_OK, node') \<and>
     events node' = [Sent (r_ep announcing) bytes] \<and>
     request_type \<lparr>rx_base = bytes, rxPos = 0\<rparr> = (Inr DPS_MSG_TYPE_SAK, buf) \<and>
     decode_sub_fields False c64 True True DPS_UDP DPS_MaxMeshId True (r_ep announcing) buf =
       Option.bind (set_listener DPS_UDP (r_ep announcing) f) (\<lambda>(ret, ep). Some (ret, f, ep, buf')) \<and>
     f_ack f = 3 \<and> map_option bits (f_interests f) = Some [0x5555555555555555]"
proof -
  obtain node' where s: "DPS_SendSubscriptionAck zeroed (\<lambda>_ _ _. DPS_OK) (node_with [] announcing) 0 False = Some (DPS_OK, node')"
    using send_sak_succeeds[of "node_with [] announcing" 0 announcing c64 False zeroed "\<lambda>_ _ _. DPS_OK"] announcing_sendable by auto
  have v: "sak_with_interests announcing False \<longrightarrow> vectors_ok c64 (sak_interests announcing False) (out_needs announcing)"
    using announcing_sendable by simp
  from acknowledgement_message_roundtrip[OF s example_nodes(3) node_with_sender(2) c64_ok(1) _ v,
      where nd = False and transport = DPS_UDP and mesh = DPS_MaxMeshId and ep = "r_ep announcing"]
  obtain bytes buf f buf' where m: "events node' = [Sent (r_ep announcing) bytes]"
    "request_type \<lparr>rx_base = bytes, rxPos = 0\<rparr> = (Inr DPS_MSG_TYPE_SAK, buf)"
    "decode_sub_fields False c64 True True DPS_UDP DPS_MaxMeshId True (r_ep announcing) buf =
       Option.bind (set_listener DPS_UDP (r_ep announcing) f) (\<lambda>(ret, ep). Some (ret, f, ep, buf'))"
    "f_ack f = 3" "same_vectors (Some (bv64 0x5555555555555555)) (Some fh0) f"
    by (auto simp: received_as_def)
  then show ?thesis using s by (auto simp: same_vectors_def bv64_def)
qed

end
