(* ===== verification/Publication.thy ===== *)
theory Publication
  imports Interest_Routing
begin

text \<open>
  The publications of a node and the requests to publish them (\<^verbatim>\<open>src/pub.c\<close>, \<^verbatim>\<open>src/dps.c\<close>): reference
  counts, the two queues of a publication, completion, expiry and the deferred freeing by
  \<open>FreeTask\<close>. The invariant \<open>pubs_ok\<close> accounts for every reference; \<open>None\<close> is again the use of a freed
  object or a failing assertion.

  Callbacks of the application are events. The callback for the destruction of a publication and the
  buffers that belong to the application are left out.
\<close>

section \<open>Objects\<close>

definition PUB_FLAG_LOCAL :: u8 where "PUB_FLAG_LOCAL = 0x02"
definition PUB_FLAG_RETAINED :: u8 where "PUB_FLAG_RETAINED = 0x04"
definition PUB_FLAG_EXPIRED :: u8 where "PUB_FLAG_EXPIRED = 0x10"
definition PUB_FLAG_WAS_FREED :: u8 where "PUB_FLAG_WAS_FREED = 0x20"
definition PUB_FLAG_MULTICAST :: u8 where "PUB_FLAG_MULTICAST = 0x40"
definition PUB_FLAG_IS_COPY :: u8 where "PUB_FLAG_IS_COPY = 0x80"

lemmas pub_flag_defs = PUB_FLAG_LOCAL_def PUB_FLAG_RETAINED_def PUB_FLAG_EXPIRED_def PUB_FLAG_WAS_FREED_def
  PUB_FLAG_MULTICAST_def PUB_FLAG_IS_COPY_def

definition has_flag :: "u8 \<Rightarrow> DPS_Publication \<Rightarrow> bool" where
  "has_flag flag pub \<longleftrightarrow> p_flags pub AND flag \<noteq> 0"

definition set_flag :: "u8 \<Rightarrow> DPS_Publication \<Rightarrow> DPS_Publication" where
  "set_flag flag pub = pub\<lparr>p_flags := p_flags pub OR flag\<rparr>"

definition clear_flag :: "u8 \<Rightarrow> DPS_Publication \<Rightarrow> DPS_Publication" where
  "clear_flag flag pub = pub\<lparr>p_flags := p_flags pub AND NOT flag\<rparr>"

definition update_pub :: "nat \<Rightarrow> (DPS_Publication \<Rightarrow> DPS_Publication) \<Rightarrow> DPS_Node \<Rightarrow> DPS_Node option" where
  "update_pub pub f node =
     (case pubs node pub of None \<Rightarrow> None | Some p \<Rightarrow> Some (node\<lparr>pubs := (pubs node)(pub \<mapsto> f p)\<rparr>))"

definition update_req :: "nat \<Rightarrow> (DPS_PublishRequest \<Rightarrow> DPS_PublishRequest) \<Rightarrow> DPS_Node \<Rightarrow> DPS_Node option" where
  "update_req req f node =
     (case reqs node req of None \<Rightarrow> None | Some q \<Rightarrow> Some (node\<lparr>reqs := (reqs node)(req \<mapsto> f q)\<rparr>))"

section \<open>Requests (src/pub.c)\<close>

definition NUM_INTERNAL_PUB_BUFS :: nat where "NUM_INTERNAL_PUB_BUFS = 4"

text \<open>\<open>mem\<close> tells whether the allocation succeeds, \<open>cb\<close> whether there is a callback.\<close>

definition DPS_CreatePublishRequest :: "bool \<Rightarrow> nat \<Rightarrow> nat \<Rightarrow> bool \<Rightarrow> DPS_Node \<Rightarrow> nat option \<times> DPS_Node" where
  "DPS_CreatePublishRequest mem pub numBufs cb node =
     (let numBufs = numBufs + NUM_INTERNAL_PUB_BUFS in
      if \<not> mem then (None, node)
      else
        (let req = nextReq node;
             q = \<lparr>q_pub = pub, q_callback = cb, q_ttl = 0, q_expires = 0, q_hopCount = 0, q_status = DPS_ERR_NO_ROUTE,
                  q_refCount = 0, q_seq = 0, q_bufs = replicate numBufs []\<rparr>
         in (Some req, node\<lparr>nextReq := req + 1, reqs := (reqs node)(req \<mapsto> q)\<rparr>)))"

definition DPS_DestroyPublishRequest :: "nat option \<Rightarrow> DPS_Node \<Rightarrow> DPS_Node option" where
  "DPS_DestroyPublishRequest req node =
     (case req of
        None \<Rightarrow> Some node
      | Some req \<Rightarrow> if reqs node req = None then None else Some (node\<lparr>reqs := (reqs node)(req := None)\<rparr>))"

text \<open>The callback reports success when there was nobody to send to.\<close>

definition DPS_PublishCompletion :: "nat \<Rightarrow> DPS_Node \<Rightarrow> DPS_Node option" where
  "DPS_PublishCompletion req node =
     do {
       q \<leftarrow> reqs node req;
       if q_refCount q = 0
       then DPS_DestroyPublishRequest (Some req)
              (if q_callback q
               then emit (Publish_Complete (q_pub q) (if q_status q = DPS_ERR_NO_ROUTE then DPS_OK else q_status q)) node
               else node)
       else Some node
     }"

text \<open>Giving up a reference, which has to be there\<close>

definition unref_req :: "nat \<Rightarrow> DPS_Node \<Rightarrow> DPS_Node option" where
  "unref_req req node =
     do {
       q \<leftarrow> reqs node req;
       if q_refCount q = 0 then None else update_req req (\<lambda>q. q\<lparr>q_refCount := q_refCount q - 1\<rparr>) node
     }"

section \<open>Publications (src/pub.c)\<close>

text \<open>The requests of a queue fail one after the other.\<close>

fun fail_requests :: "nat list \<Rightarrow> DPS_Node \<Rightarrow> DPS_Node option" where
  "fail_requests [] node = Some node"
| "fail_requests (req # queue) node =
     do {
       node \<leftarrow> unref_req req node;
       node \<leftarrow> update_req req (\<lambda>q. q\<lparr>q_status := DPS_ERR_WRITE\<rparr>) node;
       node \<leftarrow> DPS_PublishCompletion req node;
       fail_requests queue node
     }"

text \<open>
  A publication that is not a copy leaves its list and waits in \<open>freePubs\<close> for its references to go. The
  requests to send and then the retained ones are taken from their queues and fail.
\<close>

definition FreePublication :: "DPS_Node \<Rightarrow> nat \<Rightarrow> DPS_Node option" where
  "FreePublication node pub =
     do {
       p \<leftarrow> pubs node pub;
       node \<leftarrow>
         (if \<not> has_flag PUB_FLAG_WAS_FREED p
          then update_pub pub (\<lambda>p. p\<lparr>p_flags := PUB_FLAG_WAS_FREED\<rparr>)
                 (node\<lparr>publications := remove1 pub (publications node), freePubs := pub # freePubs node\<rparr>)
          else Some node);
       if p_refCount p = 0
       then
         do {
           node \<leftarrow> update_pub pub (\<lambda>p. p\<lparr>p_sendQueue := [], p_retainedQueue := []\<rparr>) node;
           node \<leftarrow> fail_requests (p_sendQueue p @ p_retainedQueue p) node;
           Some (emit Wake_Free node)
         }
       else Some node
     }"

definition DPS_PublicationIncRef :: "nat \<Rightarrow> DPS_Node \<Rightarrow> DPS_Node option" where
  "DPS_PublicationIncRef pub = update_pub pub (\<lambda>p. p\<lparr>p_refCount := p_refCount p + 1\<rparr>)"

definition DPS_PublicationDecRef :: "nat \<Rightarrow> DPS_Node \<Rightarrow> DPS_Node option" where
  "DPS_PublicationDecRef pub node =
     do {
       p \<leftarrow> pubs node pub;
       if p_refCount p = 0 then None
       else
         do {
           node \<leftarrow> update_pub pub (\<lambda>p. p\<lparr>p_refCount := p_refCount p - 1\<rparr>) node;
           if p_refCount p = 1 \<and> has_flag PUB_FLAG_WAS_FREED p then FreePublication node pub else Some node
         }
     }"

definition DPS_ExpirePub :: "DPS_Node \<Rightarrow> nat \<Rightarrow> DPS_Node option" where
  "DPS_ExpirePub node pub =
     do {
       p \<leftarrow> pubs node pub;
       if has_flag PUB_FLAG_LOCAL p then update_pub pub (set_flag PUB_FLAG_EXPIRED) node else FreePublication node pub
     }"

section \<open>Walking along a list that changes (src/dps.c)\<close>

text \<open>
  The C idiom \<^verbatim>\<open>for (x = head; x; x = next) { next = x->next; ... }\<close>: the link is read before the
  body runs, and an object that is freed by then is used in the next round. The bound on the rounds
  is the length of the list.
\<close>

fun walk :: "nat \<Rightarrow> ('s \<Rightarrow> nat \<Rightarrow> nat option option) \<Rightarrow> (nat \<Rightarrow> 's \<Rightarrow> 's option) \<Rightarrow> nat option \<Rightarrow> 's \<Rightarrow> 's option" where
  "walk n link body None s = Some s"
| "walk 0 link body (Some x) s = None"
| "walk (Suc n) link body (Some x) s =
     do {
       next_x \<leftarrow> link s x;
       s \<leftarrow> body x s;
       walk n link body next_x s
     }"

fun follower :: "nat list \<Rightarrow> nat \<Rightarrow> nat option option" where
  "follower [] x = None"
| "follower (y # ys) x = (if y = x then Some (case ys of [] \<Rightarrow> None | z # _ \<Rightarrow> Some z) else follower ys x)"

definition front :: "nat list \<Rightarrow> nat option" where
  "front xs = (case xs of [] \<Rightarrow> None | x # _ \<Rightarrow> Some x)"

text \<open>The link of a publication, which is in one of the two lists\<close>

definition pub_link :: "DPS_Node \<Rightarrow> nat \<Rightarrow> nat option option" where
  "pub_link node pub =
     (case follower (publications node) pub of None \<Rightarrow> follower (freePubs node) pub | Some l \<Rightarrow> Some l)"

section \<open>Tasks on publications (src/dps.c)\<close>

definition update_pubs_body :: "nat \<Rightarrow> DPS_Node \<times> nat \<Rightarrow> (DPS_Node \<times> nat) option" where
  "update_pubs_body pub s =
     (case s of (node, n) \<Rightarrow>
        do {
          p \<leftarrow> pubs node pub;
          if p_sendQueue p \<noteq> [] then Some (node, n + 1)
          else
            (case p_retainedQueue p of
               [] \<Rightarrow> do { node \<leftarrow> DPS_ExpirePub node pub; Some (node, n) }
             | req # queue \<Rightarrow>
                 if remoteNodes node \<noteq> [] \<or> mcastSender node
                 then do {
                   node \<leftarrow> update_pub pub (\<lambda>p. p\<lparr>p_retainedQueue := queue, p_sendQueue := p_sendQueue p @ [req]\<rparr>) node;
                   Some (node, n + 1)
                 }
                 else Some (node, n))
        })"

definition DPS_UpdatePubs :: "DPS_Node \<Rightarrow> DPS_Node option" where
  "DPS_UpdatePubs node =
     (if n_state node \<noteq> DPS_NODE_RUNNING then Some node
      else
        do {
          (node, n) \<leftarrow> walk (length (publications node)) (\<lambda>s. pub_link (fst s)) update_pubs_body (front (publications node)) (node, 0);
          Some (if n > 0 then emit Wake_Pubs node else node)
        })"

text \<open>The part of \<open>FreeTask\<close> for publications\<close>

fun free_pubs :: "nat list \<Rightarrow> DPS_Node \<Rightarrow> DPS_Node option" where
  "free_pubs [] node = Some node"
| "free_pubs (pub # rest) node =
     do {
       p \<leftarrow> pubs node pub;
       node \<leftarrow>
         (if p_refCount p = 0
          then
            if has_flag PUB_FLAG_WAS_FREED p
            then Some (node\<lparr>freePubs := remove1 pub (freePubs node), pubs := (pubs node)(pub := None)\<rparr>)
            else None
          else Some node);
       free_pubs rest node
     }"

text \<open>An object is only freed when it is marked as such; this is an assertion.\<close>

definition FreeTask :: "DPS_Node \<Rightarrow> DPS_Node option" where
  "FreeTask node =
     (if list_ex (\<lambda>s. s_refCount s = 0 \<and> s_flags s AND SUB_FLAG_WAS_FREED = 0) (freeSubs node) then None
      else free_pubs (freePubs node) (node\<lparr>freeSubs := filter (\<lambda>s. s_refCount s \<noteq> 0) (freeSubs node)\<rparr>))"

section \<open>Looking up and destroying a publication (src/pub.c)\<close>

definition IsValidPub :: "DPS_Node \<Rightarrow> nat \<Rightarrow> bool" where
  "IsValidPub node pub = list_ex (\<lambda>p. p = pub) (publications node)"

fun find_pub :: "(DPS_Publication \<Rightarrow> bool) \<Rightarrow> DPS_Node \<Rightarrow> nat list \<Rightarrow> nat option option" where
  "find_pub P node [] = Some None"
| "find_pub P node (pub # rest) =
     do { p \<leftarrow> pubs node pub; if P p then Some (Some pub) else find_pub P node rest }"

definition LookupRetained :: "DPS_Node \<Rightarrow> DPS_UUID \<Rightarrow> nat option option" where
  "LookupRetained node pubId =
     find_pub (\<lambda>p. has_flag PUB_FLAG_RETAINED p \<and> DPS_UUIDCompare (p_id p) pubId = 0) node (publications node)"

definition LookupPublication :: "DPS_Node \<Rightarrow> DPS_UUID \<Rightarrow> nat option option" where
  "LookupPublication node pubId =
     find_pub (\<lambda>p. \<not> has_flag PUB_FLAG_LOCAL p \<and> DPS_UUIDCompare (p_id p) pubId = 0) node (publications node)"

definition DPS_LookupAckHandler :: "DPS_Node \<Rightarrow> DPS_UUID \<Rightarrow> u32 \<Rightarrow> nat option option" where
  "DPS_LookupAckHandler node pubId sequenceNum =
     find_pub (\<lambda>p. p_handler p \<and> DPS_UUIDCompare (p_id p) pubId = 0 \<and> sequenceNum \<le> p_seq p) node (publications node)"

definition DPS_DestroyPublication :: "DPS_Node \<Rightarrow> nat \<Rightarrow> (DPS_Status \<times> DPS_Node) option" where
  "DPS_DestroyPublication node pub =
     do {
       p \<leftarrow> pubs node pub;
       if IsValidPub node pub \<and> \<not> has_flag PUB_FLAG_LOCAL p then Some (DPS_ERR_MISSING, node)
       else do { node \<leftarrow> FreePublication node pub; Some (DPS_OK, node) }
     }"

section \<open>Every reference is accounted for\<close>

text \<open>
  A request is referenced by its place in a queue of its publication and by each send the network has
  not completed; a publication by each such send of one of its requests, and by each acknowledgement of it
  that waits or is being sent. The code that is running may
  hold \<open>extra\<close> references to requests and \<open>held\<close> references to publications, and may \<open>own\<close> requests that
  nothing refers to; without that every request is referenced, so that none is leaked.
\<close>

definition queue_of :: "DPS_Publication \<Rightarrow> nat list" where
  "queue_of p = p_sendQueue p @ p_retainedQueue p"

definition queued :: "DPS_Node \<Rightarrow> nat \<Rightarrow> DPS_PublishRequest \<Rightarrow> bool" where
  "queued node q r \<longleftrightarrow> (\<exists>p. pubs node (q_pub r) = Some p \<and> q \<in> set (queue_of p))"

definition acks :: "DPS_Node \<Rightarrow> nat \<Rightarrow> nat" where
  "acks node i = count_list (map k_pub (ackQueue node @ sendingAcks node)) i"

definition sends :: "DPS_Node \<Rightarrow> nat \<Rightarrow> nat" where
  "sends node i = length (filter (\<lambda>q. \<exists>r. reqs node q = Some r \<and> q_pub r = i) (sending node)) + acks node i"

text \<open>An acknowledgement begins with the array of five items, the version, the type and an empty map.\<close>

definition ack_message :: "PublicationAck \<Rightarrow> bool" where
  "ack_message a \<longleftrightarrow> (\<exists>rest. concat (k_bufs a) = [0x85, 1, 3, 0xA0] @ rest)"

definition lists_ok :: "DPS_Node \<Rightarrow> bool" where
  "lists_ok node \<longleftrightarrow> distinct (publications node @ freePubs node) \<and>
     set (publications node @ freePubs node) = dom (pubs node) \<and> (\<forall>q \<in> set (sending node). reqs node q \<noteq> None) \<and>
     (\<forall>a \<in> set (ackQueue node @ sendingAcks node). pubs node (k_pub a) \<noteq> None \<and> ack_message a)"

definition pub_ok :: "(nat \<Rightarrow> nat) \<Rightarrow> DPS_Node \<Rightarrow> nat \<Rightarrow> DPS_Publication \<Rightarrow> bool" where
  "pub_ok held node i p \<longleftrightarrow> i < nextPub node \<and> (has_flag PUB_FLAG_WAS_FREED p \<longleftrightarrow> i \<in> set (freePubs node)) \<and>
     distinct (queue_of p) \<and> (\<forall>q \<in> set (queue_of p). \<exists>r. reqs node q = Some r \<and> q_pub r = i) \<and>
     p_refCount p = sends node i + held i \<and> (i \<in> set (freePubs node) \<and> p_refCount p = 0 \<longrightarrow> queue_of p = [])"

definition req_ok :: "nat set \<Rightarrow> (nat \<Rightarrow> nat) \<Rightarrow> DPS_Node \<Rightarrow> nat \<Rightarrow> DPS_PublishRequest \<Rightarrow> bool" where
  "req_ok own extra node q r \<longleftrightarrow> q < nextReq node \<and> pubs node (q_pub r) \<noteq> None \<and>
     q_refCount r = of_bool (queued node q r) + count_list (sending node) q + extra q \<and> (q_refCount r = 0 \<longrightarrow> q \<in> own)"

definition pubs_ok :: "nat set \<Rightarrow> (nat \<Rightarrow> nat) \<Rightarrow> (nat \<Rightarrow> nat) \<Rightarrow> DPS_Node \<Rightarrow> bool" where
  "pubs_ok own extra held node \<longleftrightarrow> lists_ok node \<and> (\<forall>i p. pubs node i = Some p \<longrightarrow> pub_ok held node i p) \<and>
     (\<forall>q r. reqs node q = Some r \<longrightarrow> req_ok own extra node q r)"

lemmas pubs_ok_defs = pubs_ok_def lists_ok_def pub_ok_def req_ok_def queued_def sends_def acks_def

lemma acks_fields [simp]:
  "acks (node\<lparr>pubs := a\<rparr>) = acks node" "acks (node\<lparr>publications := l\<rparr>) = acks node" "acks (node\<lparr>freePubs := l\<rparr>) = acks node"
  "acks (node\<lparr>nextPub := n\<rparr>) = acks node" "acks (node\<lparr>reqs := c\<rparr>) = acks node" "acks (node\<lparr>nextReq := n\<rparr>) = acks node"
  "acks (node\<lparr>sending := l\<rparr>) = acks node" "acks (node\<lparr>n_history := h\<rparr>) = acks node" "acks (emit e node) = acks node"
  by (simp_all add: acks_def fun_eq_iff emit_def)

text \<open>What the invariant does not look at\<close>

definition same_pubs :: "DPS_Node \<Rightarrow> DPS_Node \<Rightarrow> bool" where
  "same_pubs node node' \<longleftrightarrow> pubs node' = pubs node \<and> publications node' = publications node \<and> freePubs node' = freePubs node \<and>
     nextPub node' = nextPub node \<and> reqs node' = reqs node \<and> nextReq node' = nextReq node \<and> sending node' = sending node \<and>
     ackQueue node' = ackQueue node \<and> sendingAcks node' = sendingAcks node"

lemma pubs_ok_cong: "same_pubs node node' \<Longrightarrow> pubs_ok own extra held node' \<longleftrightarrow> pubs_ok own extra held node"
  by (simp add: same_pubs_def pubs_ok_defs)

lemma same_pubs_emit [simp]: "same_pubs node (emit e node)"
  by (simp add: same_pubs_def emit_def)

lemma emit_pubs [simp]:
  "pubs (emit e node) = pubs node" "publications (emit e node) = publications node" "freePubs (emit e node) = freePubs node"
  "reqs (emit e node) = reqs node" "sending (emit e node) = sending node" "nextPub (emit e node) = nextPub node"
  by (simp_all add: emit_def)

lemma pubs_ok_emit [simp]: "pubs_ok own extra held (emit e node) \<longleftrightarrow> pubs_ok own extra held node"
  by (simp add: pubs_ok_cong)

lemma pubs_okD:
  assumes "pubs_ok own extra held node"
  shows "lists_ok node" and "pubs node i = Some p \<Longrightarrow> pub_ok held node i p" and "reqs node q = Some r \<Longrightarrow> req_ok own extra node q r"
  using assms by (auto simp: pubs_ok_def)

text \<open>The references of a request change, and what the running code holds of it.\<close>

lemma req_update_ok:
  assumes ok: "pubs_ok own extra held node" and q: "reqs node q = Some r"
    and r': "q_pub r' = q_pub r" "q_refCount r' + extra q = q_refCount r + n" "q_refCount r' = 0 \<Longrightarrow> q \<in> own'"
    and own: "own - {q} \<subseteq> own'"
  shows "pubs_ok own' (extra(q := n)) held (node\<lparr>reqs := (reqs node)(q \<mapsto> r')\<rparr>)"
proof -
  let ?n = "node\<lparr>reqs := (reqs node)(q \<mapsto> r')\<rparr>"
  have s: "sends ?n i = sends node i" for i
  proof -
    have "(\<exists>r. reqs ?n x = Some r \<and> q_pub r = i) \<longleftrightarrow> (\<exists>r. reqs node x = Some r \<and> q_pub r = i)" for x
      using q r'(1) by auto
    then show ?thesis by (simp add: sends_def)
  qed
  have "lists_ok ?n" using pubs_okD(1)[OF ok] by (auto simp: lists_ok_def)
  moreover have "pub_ok held ?n i p" if "pubs node i = Some p" for i p
    using pubs_okD(2)[OF ok that] q r'(1) unfolding pub_ok_def s by fastforce
  moreover have "req_ok own' (extra(q := n)) ?n x y" if "reqs ?n x = Some y" for x y
  proof (cases "x = q")
    case True
    then have y: "y = r'" using that by simp
    have "req_ok own extra node q r" using pubs_okD(3)[OF ok q] .
    moreover have "queued ?n q y = queued node q r" using y r'(1) by (simp add: queued_def)
    ultimately show ?thesis using True y r' by (auto simp: req_ok_def)
  next
    case False
    then show ?thesis using pubs_okD(3)[OF ok, of x y] that own by (auto simp: req_ok_def queued_def)
  qed
  ultimately show ?thesis by (simp add: pubs_ok_def)
qed

text \<open>A request that nothing refers to is freed.\<close>

lemma req_free_ok:
  assumes ok: "pubs_ok own extra held node" and q: "reqs node q = Some r" and z: "q_refCount r = 0"
  shows "pubs_ok (own - {q}) extra held (node\<lparr>reqs := (reqs node)(q := None)\<rparr>)"
proof -
  let ?n = "node\<lparr>reqs := (reqs node)(q := None)\<rparr>"
  have r: "\<not> queued node q r" "q \<notin> set (sending node)"
    using pubs_okD(3)[OF ok q] z by (auto simp: req_ok_def count_list_0_iff)
  have s: "sends ?n i = sends node i" for i
    using r(2) by (auto simp: sends_def intro!: arg_cong[where f = length] filter_cong)
  have "lists_ok ?n" using pubs_okD(1)[OF ok] r(2) by (auto simp: lists_ok_def)
  moreover have "pub_ok held ?n i p" if "pubs node i = Some p" for i p
  proof -
    have "q \<notin> set (queue_of p)" if "q_pub r = i" using r(1) \<open>pubs node i = Some p\<close> that by (auto simp: queued_def)
    then show ?thesis using pubs_okD(2)[OF ok that] q unfolding pub_ok_def s by fastforce
  qed
  moreover have "req_ok (own - {q}) extra ?n x y" if "reqs ?n x = Some y" for x y
    using pubs_okD(3)[OF ok, of x y] that by (auto simp: req_ok_def queued_def split: if_splits)
  ultimately show ?thesis by (simp add: pubs_ok_def)
qed

lemma completion_ok:
  assumes ok: "pubs_ok own extra held node" and q: "reqs node q \<noteq> None"
  shows "\<exists>node'. DPS_PublishCompletion q node = Some node' \<and> pubs_ok (own - {q}) extra held node' \<and>
    pubs node' = pubs node \<and> publications node' = publications node \<and> freePubs node' = freePubs node \<and> sending node' = sending node"
proof -
  obtain r where r: "reqs node q = Some r" using q by auto
  show ?thesis
  proof (cases "q_refCount r = 0")
    case True
    define node1 where "node1 =
      (if q_callback r then emit (Publish_Complete (q_pub r) (if q_status r = DPS_ERR_NO_ROUTE then DPS_OK else q_status r)) node else node)"
    have s: "same_pubs node node1" by (simp add: node1_def same_pubs_def emit_def)
    then have "pubs_ok own extra held node1" "reqs node1 q = Some r" using ok r by (simp_all add: pubs_ok_cong) (simp add: same_pubs_def)
    from req_free_ok[OF this True] have "pubs_ok (own - {q}) extra held (node1\<lparr>reqs := (reqs node1)(q := None)\<rparr>)" .
    moreover have "DPS_PublishCompletion q node = Some (node1\<lparr>reqs := (reqs node1)(q := None)\<rparr>)"
      using r True \<open>reqs node1 q = Some r\<close> by (simp add: DPS_PublishCompletion_def DPS_DestroyPublishRequest_def node1_def)
    ultimately show ?thesis using s by (simp add: same_pubs_def)
  next
    case False
    have "pubs_ok (own - {q}) extra held node"
      using ok r False by (auto simp: pubs_ok_def req_ok_def)
    then show ?thesis using r False by (simp add: DPS_PublishCompletion_def)
  qed
qed

lemma unref_ok:
  assumes ok: "pubs_ok own extra held node" and q: "reqs node q = Some r" and e: "extra q = Suc n"
  shows "\<exists>node'. unref_req q node = Some node' \<and> node' = node\<lparr>reqs := (reqs node)(q \<mapsto> r\<lparr>q_refCount := q_refCount r - 1\<rparr>)\<rparr> \<and>
    0 < q_refCount r \<and> pubs_ok (insert q own) (extra(q := n)) held node'"
proof -
  have "0 < q_refCount r" using pubs_okD(3)[OF ok q] e by (simp add: req_ok_def)
  moreover have "pubs_ok (insert q own) (extra(q := n)) held (node\<lparr>reqs := (reqs node)(q \<mapsto> r\<lparr>q_refCount := q_refCount r - 1\<rparr>)\<rparr>)"
    by (rule req_update_ok[OF ok q]) (use \<open>0 < q_refCount r\<close> e in auto)
  ultimately show ?thesis using q by (simp add: unref_req_def update_req_def)
qed


text \<open>
  The operations on publications leave everything else of the node alone: \<open>sans_pubs\<close> is the node without its
  publications and events.
\<close>

definition sans_pubs :: "DPS_Node \<Rightarrow> DPS_Node" where
  "sans_pubs node = node\<lparr>pubs := Map.empty, publications := [], freePubs := [], nextPub := 0, reqs := Map.empty, nextReq := 0,
     sending := [], events := []\<rparr>"

lemma sans_pubs_simps [simp]:
  "sans_pubs (emit e node) = sans_pubs node" "sans_pubs (node\<lparr>pubs := a\<rparr>) = sans_pubs node" "sans_pubs (node\<lparr>publications := l\<rparr>) = sans_pubs node"
  "sans_pubs (node\<lparr>freePubs := l\<rparr>) = sans_pubs node" "sans_pubs (node\<lparr>reqs := c\<rparr>) = sans_pubs node" "sans_pubs (node\<lparr>nextReq := n\<rparr>) = sans_pubs node"
  "sans_pubs (node\<lparr>nextPub := n\<rparr>) = sans_pubs node" "sans_pubs (node\<lparr>sending := l\<rparr>) = sans_pubs node"
  by (simp_all add: sans_pubs_def emit_def)

lemma sans_pubs_sel [simp]:
  "remoteNodes (sans_pubs node) = remoteNodes node"
  "subscriptions (sans_pubs node) = subscriptions node"
  "n_interests (sans_pubs node) = n_interests node"
  "n_needs (sans_pubs node) = n_needs node"
  "nextRemote (sans_pubs node) = nextRemote node"
  "n_state (sans_pubs node) = n_state node"
  "netCtx (sans_pubs node) = netCtx node"
  "n_addr (sans_pubs node) = n_addr node"
  "n_history (sans_pubs node) = n_history node"
  "ackQueue (sans_pubs node) = ackQueue node"
  "sendingAcks (sans_pubs node) = sendingAcks node"
  "n_signer (sans_pubs node) = n_signer node"
  "mcastSender (sans_pubs node) = mcastSender node"
  "subsPending (sans_pubs node) = subsPending node"
  "meshId (sans_pubs node) = meshId node"
  "separators (sans_pubs node) = separators node"
  "n_entropy (sans_pubs node) = n_entropy node"
  "onShutdown (sans_pubs node) = onShutdown node"
  "linkLossCB (sans_pubs node) = linkLossCB node"
  "subsRate (sans_pubs node) = subsRate node"
  by (simp_all add: sans_pubs_def)

lemma sans_pubsD:
  assumes "sans_pubs node' = sans_pubs node"
  shows "remoteNodes node' = remoteNodes node"
    and "subscriptions node' = subscriptions node"
    and "n_interests node' = n_interests node"
    and "n_needs node' = n_needs node"
    and "nextRemote node' = nextRemote node"
    and "n_state node' = n_state node"
    and "netCtx node' = netCtx node"
    and "n_addr node' = n_addr node"
    and "n_history node' = n_history node"
    and "ackQueue node' = ackQueue node"
    and "sendingAcks node' = sendingAcks node"
    and "n_signer node' = n_signer node"
    and "mcastSender node' = mcastSender node"
    and "subsPending node' = subsPending node"
    and "meshId node' = meshId node"
    and "separators node' = separators node"
    and "n_entropy node' = n_entropy node"
    and "onShutdown node' = onShutdown node"
    and "linkLossCB node' = linkLossCB node"
    and "subsRate node' = subsRate node"
  by (metis assms sans_pubs_sel)+

lemma node_ok_rest:
  assumes "sans_pubs node' = sans_pubs node"
  shows "node_ok config node' \<longleftrightarrow> node_ok config node"
  by (simp add: node_ok_def node_inv_def counts_ok_def interest_vectors_def needs_vectors_def sans_pubsD[OF assms])

lemma update_rest:
  "update_pub i f node = Some node' \<Longrightarrow> sans_pubs node' = sans_pubs node" "update_req q g node = Some node' \<Longrightarrow> sans_pubs node' = sans_pubs node"
  by (auto simp: update_pub_def update_req_def split: option.splits)

lemma unref_rest: "unref_req q node = Some node' \<Longrightarrow> sans_pubs node' = sans_pubs node"
  using update_rest(2) by (fastforce simp: unref_req_def bind_eq_Some_conv split: if_splits)

lemma completion_rest: "DPS_PublishCompletion q node = Some node' \<Longrightarrow> sans_pubs node' = sans_pubs node"
proof -
  have "DPS_DestroyPublishRequest (Some q) n = Some node' \<Longrightarrow> sans_pubs node' = sans_pubs n" for n
    by (auto simp: DPS_DestroyPublishRequest_def split: if_splits)
  then show "DPS_PublishCompletion q node = Some node' \<Longrightarrow> sans_pubs node' = sans_pubs node"
    by (fastforce simp: DPS_PublishCompletion_def bind_eq_Some_conv split: if_splits)
qed

lemma fail_requests_rest: "fail_requests qs node = Some node' \<Longrightarrow> sans_pubs node' = sans_pubs node"
proof (induction qs arbitrary: node)
  case (Cons q qs)
  then obtain n1 n2 n3 where "unref_req q node = Some n1" "update_req q (\<lambda>q. q\<lparr>q_status := DPS_ERR_WRITE\<rparr>) n1 = Some n2"
    "DPS_PublishCompletion q n2 = Some n3" "fail_requests qs n3 = Some node'" by (auto simp: bind_eq_Some_conv)
  then show ?case using Cons.IH unref_rest update_rest(2) completion_rest by metis
qed simp


lemma FreePublication_rest:
  assumes "FreePublication node i = Some node'"
  shows "sans_pubs node' = sans_pubs node"
proof -
  have f: "sans_pubs (node\<lparr>publications := l, freePubs := l'\<rparr>) = sans_pubs node" for l l' by (simp add: sans_pubs_def)
  obtain p node1 where p: "pubs node i = Some p" "sans_pubs node1 = sans_pubs node"
    "(if p_refCount p = 0
      then do { node \<leftarrow> update_pub i (\<lambda>p. p\<lparr>p_sendQueue := [], p_retainedQueue := []\<rparr>) node1;
                node \<leftarrow> fail_requests (p_sendQueue p @ p_retainedQueue p) node; Some (emit Wake_Free node) }
      else Some node1) = Some node'"
    using assms by (auto simp: FreePublication_def bind_eq_Some_conv f dest: update_rest(1) split: if_splits)
  then show ?thesis by (auto simp: bind_eq_Some_conv dest!: fail_requests_rest update_rest(1) split: if_splits)
qed

lemma pubs_ok_own: "pubs_ok own extra held node \<Longrightarrow> own \<subseteq> own' \<Longrightarrow> pubs_ok own' extra held node"
  by (auto simp: pubs_ok_def req_ok_def)

text \<open>A publication changes: its queues, its reference count and flags other than that of having been freed.\<close>

lemma pub_update_ok:
  assumes ok: "pubs_ok own extra held node" and i: "pubs node i = Some p"
    and p': "has_flag PUB_FLAG_WAS_FREED p' = has_flag PUB_FLAG_WAS_FREED p" "p_refCount p' + held i = p_refCount p + h"
    and d: "distinct (queue_of p')" "\<And>q. q \<in> set (queue_of p') \<Longrightarrow> \<exists>r. reqs node q = Some r \<and> q_pub r = i"
    and e: "\<And>q. extra' q + of_bool (q \<in> set (queue_of p')) = extra q + (of_bool (q \<in> set (queue_of p)) :: nat)"
    and z: "i \<in> set (freePubs node) \<Longrightarrow> p_refCount p' = 0 \<Longrightarrow> queue_of p' = []"
  shows "pubs_ok own extra' (held(i := h)) (node\<lparr>pubs := (pubs node)(i \<mapsto> p')\<rparr>)"
proof -
  let ?n = "node\<lparr>pubs := (pubs node)(i \<mapsto> p')\<rparr>"
  have s: "sends ?n = sends node" by (simp add: sends_def fun_eq_iff)
  have oth: "extra' q = extra q" if "reqs node q = Some r" "q_pub r \<noteq> i" for q r
  proof -
    have "q \<notin> set (queue_of p')" using d(2)[of q] that by auto
    moreover have "q \<notin> set (queue_of p)" using pubs_okD(2)[OF ok i] that by (auto simp: pub_ok_def)
    ultimately show ?thesis using e[of q] by simp
  qed
  have "lists_ok ?n" using pubs_okD(1)[OF ok] i by (auto simp: lists_ok_def)
  moreover have "pub_ok (held(i := h)) ?n j y" if "pubs ?n j = Some y" for j y
  proof (cases "j = i")
    case True
    have y: "y = p'" using that True by simp
    show ?thesis using pubs_okD(2)[OF ok i] p' d z unfolding True y by (auto simp: pub_ok_def s)
  next
    case False
    then show ?thesis using that pubs_okD(2)[OF ok, of j y] by (simp add: pub_ok_def s)
  qed
  moreover have "req_ok own extra' ?n q r" if "reqs ?n q = Some r" for q r
  proof (cases "q_pub r = i")
    case True
    then have "queued ?n q r \<longleftrightarrow> q \<in> set (queue_of p')" "queued node q r \<longleftrightarrow> q \<in> set (queue_of p)" using i by (auto simp: queued_def)
    then show ?thesis using pubs_okD(3)[OF ok, of q r] that e[of q] True by (auto simp: req_ok_def)
  next
    case False
    then show ?thesis using pubs_okD(3)[OF ok, of q r] that oth[of q r] by (auto simp: req_ok_def queued_def)
  qed
  ultimately show ?thesis by (simp add: pubs_ok_def)
qed

lemma fail_requests_ok:
  assumes "pubs_ok own extra held node" "distinct qs" "\<And>q. q \<in> set qs \<Longrightarrow> reqs node q \<noteq> None \<and> 0 < extra q"
  shows "\<exists>node'. fail_requests qs node = Some node' \<and> pubs_ok own (\<lambda>q. if q \<in> set qs then extra q - 1 else extra q) held node' \<and>
    pubs node' = pubs node \<and> publications node' = publications node \<and> freePubs node' = freePubs node \<and> sending node' = sending node \<and>
    (\<forall>q. q \<notin> set qs \<longrightarrow> reqs node' q = reqs node q)"
  using assms
proof (induction qs arbitrary: node extra)
  case (Cons q qs)
  obtain r n where r: "reqs node q = Some r" "extra q = Suc n" using Cons.prems(3)[of q] by (cases "extra q") auto
  obtain n1 where n1: "unref_req q node = Some n1" "n1 = node\<lparr>reqs := (reqs node)(q \<mapsto> r\<lparr>q_refCount := q_refCount r - 1\<rparr>)\<rparr>"
    "0 < q_refCount r" "pubs_ok (insert q own) (extra(q := n)) held n1" using unref_ok[OF Cons.prems(1) r] by blast
  have r1: "reqs n1 q = Some (r\<lparr>q_refCount := q_refCount r - 1\<rparr>)" by (simp add: n1)
  define n2 where "n2 = n1\<lparr>reqs := (reqs n1)(q \<mapsto> r\<lparr>q_refCount := q_refCount r - 1, q_status := DPS_ERR_WRITE\<rparr>)\<rparr>"
  have "pubs_ok (insert q own) ((extra(q := n))(q := n)) held n2"
    unfolding n2_def by (rule req_update_ok[OF n1(4) r1]) auto
  then have n2: "pubs_ok (insert q own) (extra(q := n)) held n2" "update_req q (\<lambda>q. q\<lparr>q_status := DPS_ERR_WRITE\<rparr>) n1 = Some n2"
    "reqs n2 q \<noteq> None" using r1 by (simp_all add: update_req_def n2_def)
  obtain n3 where n3: "DPS_PublishCompletion q n2 = Some n3" "pubs_ok (insert q own - {q}) (extra(q := n)) held n3"
    "pubs n3 = pubs n2" "publications n3 = publications n2" "freePubs n3 = freePubs n2" "sending n3 = sending n2"
    using completion_ok[OF n2(1,3)] by blast
  have k: "reqs n3 x = reqs node x" if "x \<noteq> q" for x
    using n3(1) n2(3) that by (auto simp: DPS_PublishCompletion_def DPS_DestroyPublishRequest_def n2_def n1(2) emit_def split: if_splits)
  have "pubs_ok own (extra(q := n)) held n3" using n3(2) by (rule pubs_ok_own) auto
  moreover have "reqs n3 x \<noteq> None \<and> 0 < (extra(q := n)) x" if "x \<in> set qs" for x
    using Cons.prems(2,3) that k[of x] by auto
  ultimately obtain n4 where n4: "fail_requests qs n3 = Some n4"
    "pubs_ok own (\<lambda>x. if x \<in> set qs then (extra(q := n)) x - 1 else (extra(q := n)) x) held n4"
    "pubs n4 = pubs n3" "publications n4 = publications n3" "freePubs n4 = freePubs n3" "sending n4 = sending n3"
    "\<forall>x. x \<notin> set qs \<longrightarrow> reqs n4 x = reqs n3 x"
    using Cons.IH[of "extra(q := n)" n3] Cons.prems(2) unfolding distinct.simps by blast
  have "(\<lambda>x. if x \<in> set qs then (extra(q := n)) x - 1 else (extra(q := n)) x) =
      (\<lambda>x. if x \<in> set (q # qs) then extra x - 1 else extra x)"
    using Cons.prems(2) r(2) by (auto simp: fun_eq_iff)
  then show ?case using n1(1) n2(2) n3 n4 k by (simp add: n2_def n1(2))
qed simp


text \<open>A publication moves to the list of the freed ones.\<close>

lemma pub_move_ok:
  assumes ok: "pubs_ok own extra held node" and i: "pubs node i = Some p" and nf: "\<not> has_flag PUB_FLAG_WAS_FREED p"
    and p': "has_flag PUB_FLAG_WAS_FREED p'" "p_refCount p' = p_refCount p" "queue_of p' = queue_of p \<or> queue_of p' = []"
    and z: "p_refCount p = 0 \<Longrightarrow> queue_of p' = []"
    and e: "\<And>q. extra' q + of_bool (q \<in> set (queue_of p')) = extra q + (of_bool (q \<in> set (queue_of p)) :: nat)"
    and n: "node' = node\<lparr>publications := remove1 i (publications node), freePubs := i # freePubs node, pubs := (pubs node)(i \<mapsto> p')\<rparr>"
  shows "pubs_ok own extra' held node'"
proof -
  have s: "sends node' j = sends node j" for j by (simp add: sends_def n)
  have l: "lists_ok node" and pi: "pub_ok held node i p" using pubs_okD[OF ok] i by auto
  have "i \<in> dom (pubs node)" using i by auto
  then have m: "i \<in> set (publications node)" "i \<notin> set (freePubs node)" using l pi nf by (auto simp: lists_ok_def pub_ok_def)
  have "set (remove1 i (publications node)) = set (publications node) - {i}" using l by (simp add: lists_ok_def set_remove1_eq)
  moreover have "distinct (remove1 i (publications node))" using l by (simp add: lists_ok_def distinct_remove1)
  ultimately have "lists_ok node'" using l m by (auto simp: lists_ok_def n)
  moreover have "pub_ok held node' j y" if "pubs node' j = Some y" for j y
  proof (cases "j = i")
    case True
    have y: "y = p'" using that True by (simp add: n)
    show ?thesis using pi p' z unfolding True y pub_ok_def s by (auto simp: n)
  next
    case False
    then show ?thesis using pubs_okD(2)[OF ok, of j y] that unfolding pub_ok_def s by (auto simp: n)
  qed
  moreover have "req_ok own extra' node' q r" if "reqs node' q = Some r" for q r
  proof (cases "q_pub r = i")
    case True
    then have "queued node' q r \<longleftrightarrow> q \<in> set (queue_of p')" "queued node q r \<longleftrightarrow> q \<in> set (queue_of p)" using i by (auto simp: queued_def n)
    then show ?thesis using pubs_okD(3)[OF ok, of q r] that e[of q] True by (auto simp: req_ok_def n)
  next
    case False
    then have "q \<notin> set (queue_of p)" using pi that by (auto simp: pub_ok_def n)
    then have "extra' q = extra q" using e[of q] p'(3) by auto
    then show ?thesis using pubs_okD(3)[OF ok, of q r] that False by (auto simp: req_ok_def queued_def n)
  qed
  ultimately show ?thesis by (simp add: pubs_ok_def)
qed

lemma flag_freed [simp]: "has_flag PUB_FLAG_WAS_FREED (p\<lparr>p_flags := PUB_FLAG_WAS_FREED\<rparr>)"
  by (simp add: has_flag_def pub_flag_defs)

text \<open>The requests taken from the queues of a publication whose references are gone fail.\<close>

lemma drain_ok:
  assumes ok: "pubs_ok own (\<lambda>q. if q \<in> set qs then extra q + 1 else extra q) held node" and d: "distinct qs"
    and r: "\<And>q. q \<in> set qs \<Longrightarrow> reqs node q \<noteq> None"
  shows "\<exists>node'. fail_requests qs node = Some node' \<and> pubs_ok own extra held node' \<and>
    pubs node' = pubs node \<and> publications node' = publications node \<and> freePubs node' = freePubs node \<and> sending node' = sending node"
proof -
  have "(\<lambda>q. if q \<in> set qs then (if q \<in> set qs then extra q + 1 else extra q) - 1 else if q \<in> set qs then extra q + 1 else extra q) = extra"
    by auto
  then show ?thesis using fail_requests_ok[OF ok d] r by (auto simp: fun_eq_iff)
qed

lemma FreePublication_ok:
  assumes ok: "pubs_ok own extra held node" and i: "pubs node i = Some p"
  shows "\<exists>node' p'. FreePublication node i = Some node' \<and> pubs_ok own extra held node' \<and> pubs node' = (pubs node)(i \<mapsto> p') \<and>
    p_refCount p' = p_refCount p \<and> queue_of p' = (if p_refCount p = 0 then [] else queue_of p) \<and> has_flag PUB_FLAG_WAS_FREED p' \<and>
    publications node' = remove1 i (publications node) \<and>
    freePubs node' = (if has_flag PUB_FLAG_WAS_FREED p then freePubs node else i # freePubs node) \<and> sending node' = sending node"
proof -
  define p' where "p' = (let p1 = if has_flag PUB_FLAG_WAS_FREED p then p else p\<lparr>p_flags := PUB_FLAG_WAS_FREED\<rparr> in
    if p_refCount p = 0 then p1\<lparr>p_sendQueue := [], p_retainedQueue := []\<rparr> else p1)"
  define node1 where "node1 = (if has_flag PUB_FLAG_WAS_FREED p then node\<lparr>pubs := (pubs node)(i \<mapsto> p')\<rparr>
    else node\<lparr>publications := remove1 i (publications node), freePubs := i # freePubs node, pubs := (pubs node)(i \<mapsto> p')\<rparr>)"
  define ex where "ex = (if p_refCount p = 0 then (\<lambda>q. if q \<in> set (queue_of p) then extra q + 1 else extra q) else extra)"
  have l: "lists_ok node" and pi: "pub_ok held node i p" using pubs_okD[OF ok] i by auto
  have p': "p_refCount p' = p_refCount p" "has_flag PUB_FLAG_WAS_FREED p'" "queue_of p' = (if p_refCount p = 0 then [] else queue_of p)"
    by (simp_all add: p'_def Let_def queue_of_def has_flag_def pub_flag_defs)
  have e: "ex q + of_bool (q \<in> set (queue_of p')) = extra q + (of_bool (q \<in> set (queue_of p)) :: nat)" for q
    using p'(3) by (simp add: ex_def)
  have "pubs_ok own ex held node1"
  proof (cases "has_flag PUB_FLAG_WAS_FREED p")
    case True
    have "pubs_ok own ex (held(i := held i)) (node\<lparr>pubs := (pubs node)(i \<mapsto> p')\<rparr>)"
      by (rule pub_update_ok[OF ok i]) (use p' pi e True in \<open>auto simp: pub_ok_def split: if_splits\<close>)
    then show ?thesis using True by (simp add: node1_def)
  next
    case False
    show ?thesis by (rule pub_move_ok[OF ok i False p'(2,1)]) (use p'(3) e False in \<open>auto simp: node1_def\<close>)
  qed
  note n1 = this
  have rem: "remove1 i (publications node) = publications node" if "has_flag PUB_FLAG_WAS_FREED p"
  proof -
    have "i \<notin> set (publications node)" using that l pi by (auto simp: lists_ok_def pub_ok_def)
    then show ?thesis by (rule remove1_idem)
  qed
  show ?thesis
  proof (cases "p_refCount p = 0")
    case True
    have "\<exists>node'. fail_requests (queue_of p) node1 = Some node' \<and> pubs_ok own extra held node' \<and>
      pubs node' = pubs node1 \<and> publications node' = publications node1 \<and> freePubs node' = freePubs node1 \<and> sending node' = sending node1"
      by (rule drain_ok) (use n1 True pi in \<open>auto simp: ex_def pub_ok_def node1_def\<close>)
    then obtain node' where n': "fail_requests (queue_of p) node1 = Some node'" "pubs_ok own extra held node'"
      "pubs node' = pubs node1" "publications node' = publications node1" "freePubs node' = freePubs node1" "sending node' = sending node1"
      by blast
    have "FreePublication node i = Some (emit Wake_Free node')"
      using True i n'(1)
      by (cases "has_flag PUB_FLAG_WAS_FREED p") (simp_all add: FreePublication_def update_pub_def node1_def p'_def Let_def queue_of_def)
    then show ?thesis using n' p' rem by (auto simp: node1_def)
  next
    case False
    have "FreePublication node i = Some node1"
      using False i map_upd_triv[of "pubs node" i p] by (simp add: FreePublication_def update_pub_def node1_def p'_def Let_def)
    then show ?thesis using n1 p' rem False by (auto simp: node1_def ex_def)
  qed
qed


lemma incref_ok:
  assumes ok: "pubs_ok own extra held node" and i: "pubs node i = Some p" "held i \<noteq> 0 \<or> i \<notin> set (freePubs node) \<or> queue_of p = []"
  shows "DPS_PublicationIncRef i node = Some (node\<lparr>pubs := (pubs node)(i \<mapsto> p\<lparr>p_refCount := p_refCount p + 1\<rparr>)\<rparr>) \<and>
    pubs_ok own extra (held(i := held i + 1)) (node\<lparr>pubs := (pubs node)(i \<mapsto> p\<lparr>p_refCount := p_refCount p + 1\<rparr>)\<rparr>)"
proof -
  have pi: "pub_ok held node i p" using pubs_okD(2)[OF ok i(1)] .
  have "pubs_ok own extra (held(i := held i + 1)) (node\<lparr>pubs := (pubs node)(i \<mapsto> p\<lparr>p_refCount := p_refCount p + 1\<rparr>)\<rparr>)"
    by (rule pub_update_ok[OF ok i(1)]) (use pi in \<open>auto simp: pub_ok_def queue_of_def has_flag_def\<close>)
  then show ?thesis using i by (simp add: DPS_PublicationIncRef_def update_pub_def)
qed

lemma decref_ok:
  assumes ok: "pubs_ok own extra held node" and i: "pubs node i = Some p" "held i = Suc n"
  shows "\<exists>node' p'. DPS_PublicationDecRef i node = Some node' \<and> pubs_ok own extra (held(i := n)) node' \<and>
    pubs node' = (pubs node)(i \<mapsto> p') \<and> publications node' = publications node \<and> freePubs node' = freePubs node \<and>
    sending node' = sending node \<and> (\<not> has_flag PUB_FLAG_WAS_FREED p \<longrightarrow> p' = p\<lparr>p_refCount := p_refCount p - 1\<rparr> \<and> reqs node' = reqs node)"
proof -
  have pi: "pub_ok held node i p" using pubs_okD(2)[OF ok i(1)] .
  then have rc: "0 < p_refCount p" using i(2) by (simp add: pub_ok_def)
  define node1 where "node1 = node\<lparr>pubs := (pubs node)(i \<mapsto> p\<lparr>p_refCount := p_refCount p - 1\<rparr>)\<rparr>"
  have q: "queue_of (p\<lparr>p_refCount := m\<rparr>) = queue_of p" "has_flag f (p\<lparr>p_refCount := m\<rparr>) = has_flag f p" for m f
    by (simp_all add: queue_of_def has_flag_def)
  show ?thesis
  proof (cases "p_refCount p = 1 \<and> has_flag PUB_FLAG_WAS_FREED p")
    case False
    have "pubs_ok own extra (held(i := n)) node1" unfolding node1_def
      by (rule pub_update_ok[OF ok i(1)]) (use pi rc i(2) False in \<open>auto simp: q pub_ok_def\<close>)
    moreover have "DPS_PublicationDecRef i node = Some node1"
      using rc i False by (auto simp: DPS_PublicationDecRef_def update_pub_def node1_def)
    ultimately show ?thesis by (auto simp: node1_def)
  next
    case True
    define p' where "p' = p\<lparr>p_refCount := 0, p_sendQueue := [], p_retainedQueue := []\<rparr>"
    define node2 where "node2 = node\<lparr>pubs := (pubs node)(i \<mapsto> p')\<rparr>"
    have "pubs_ok own (\<lambda>q. if q \<in> set (queue_of p) then extra q + 1 else extra q) (held(i := n)) node2" unfolding node2_def
      by (rule pub_update_ok[OF ok i(1)]) (use pi i(2) True in \<open>auto simp: p'_def queue_of_def has_flag_def pub_ok_def\<close>)
    then have "\<exists>node'. fail_requests (queue_of p) node2 = Some node' \<and> pubs_ok own extra (held(i := n)) node' \<and>
      pubs node' = pubs node2 \<and> publications node' = publications node2 \<and> freePubs node' = freePubs node2 \<and> sending node' = sending node2"
      by (rule drain_ok) (use pi in \<open>auto simp: pub_ok_def node2_def\<close>)
    then obtain node' where n': "fail_requests (queue_of p) node2 = Some node'" "pubs_ok own extra (held(i := n)) node'"
      "pubs node' = pubs node2" "publications node' = publications node2" "freePubs node' = freePubs node2" "sending node' = sending node2"
      by blast
    have "DPS_PublicationDecRef i node = Some (emit Wake_Free node')"
      using True i n'(1) by (simp add: DPS_PublicationDecRef_def FreePublication_def update_pub_def has_flag_def node2_def p'_def queue_of_def)
    then show ?thesis using n' True by (auto simp: node2_def)
  qed
qed

lemma expire_ok:
  assumes ok: "pubs_ok own extra held node" and i: "pubs node i = Some p"
  shows "\<exists>node' p'. DPS_ExpirePub node i = Some node' \<and> pubs_ok own extra held node' \<and> pubs node' = (pubs node)(i \<mapsto> p') \<and>
    (if has_flag PUB_FLAG_LOCAL p then publications node' = publications node \<and> freePubs node' = freePubs node
     else publications node' = remove1 i (publications node) \<and> has_flag PUB_FLAG_WAS_FREED p') \<and> sending node' = sending node"
proof (cases "has_flag PUB_FLAG_LOCAL p")
  case True
  have pi: "pub_ok held node i p" using pubs_okD(2)[OF ok i] .
  have f: "has_flag PUB_FLAG_WAS_FREED (set_flag PUB_FLAG_EXPIRED p) = has_flag PUB_FLAG_WAS_FREED p" "queue_of (set_flag PUB_FLAG_EXPIRED p) = queue_of p"
    "p_refCount (set_flag PUB_FLAG_EXPIRED p) = p_refCount p"
    by (simp_all add: has_flag_def set_flag_def pub_flag_defs queue_of_def bit.conj_disj_distrib2)
  have "pubs_ok own extra (held(i := held i)) (node\<lparr>pubs := (pubs node)(i \<mapsto> set_flag PUB_FLAG_EXPIRED p)\<rparr>)"
    by (rule pub_update_ok[OF ok i]) (use pi in \<open>auto simp: f pub_ok_def\<close>)
  then show ?thesis using True i by (auto simp: DPS_ExpirePub_def update_pub_def)
next
  case False
  then show ?thesis using FreePublication_ok[OF ok i] i by (auto simp: DPS_ExpirePub_def)
qed


section \<open>Walks that return\<close>

text \<open>When the link of an object leads to the rest of the list that is still to be visited, the walk visits it.\<close>

lemma walk_list:
  assumes "\<And>x ys s. I (x # ys) s \<Longrightarrow> link s x = Some (front ys) \<and> (\<exists>s'. body x s = Some s' \<and> I ys s')"
  shows "I xs s \<Longrightarrow> length xs \<le> n \<Longrightarrow> \<exists>s'. walk n link body (front xs) s = Some s' \<and> I [] s'"
proof (induction xs arbitrary: s n)
  case (Cons x xs)
  obtain m where m: "n = Suc m" "length xs \<le> m" using Cons.prems(2) by (cases n) auto
  obtain s' where s': "link s x = Some (front xs)" "body x s = Some s'" "I xs s'" using assms[OF Cons.prems(1)] by blast
  obtain s'' where "walk m link body (front xs) s' = Some s''" "I [] s''" using Cons.IH[OF s'(3) m(2)] by blast
  then show ?case using s' by (simp add: front_def m(1))
qed (simp add: front_def)

lemma follower_suffix: "distinct (us @ x # ys) \<Longrightarrow> follower (us @ x # ys) x = Some (front ys)"
proof (induction us)
  case Nil
  then show ?case by (cases ys) (auto simp: front_def)
next
  case (Cons u us)
  then show ?case by auto
qed

lemma pub_link_suffix: "distinct (publications node) \<Longrightarrow> publications node = us @ x # ys \<Longrightarrow> pub_link node x = Some (front ys)"
  using follower_suffix[of us x ys] by (simp add: pub_link_def)

text \<open>Moving a request from the retained ones to those to be sent keeps the references as they are.\<close>

lemma requeue_ok:
  assumes ok: "pubs_ok own extra held node" and i: "pubs node i = Some p" and q: "p_retainedQueue p = q # qs"
  shows "pubs_ok own extra held (node\<lparr>pubs := (pubs node)(i \<mapsto> p\<lparr>p_retainedQueue := qs, p_sendQueue := p_sendQueue p @ [q]\<rparr>)\<rparr>)"
proof -
  have pi: "pub_ok held node i p" using pubs_okD(2)[OF ok i] .
  have "pubs_ok own extra (held(i := held i)) (node\<lparr>pubs := (pubs node)(i \<mapsto> p\<lparr>p_retainedQueue := qs, p_sendQueue := p_sendQueue p @ [q]\<rparr>)\<rparr>)"
    by (rule pub_update_ok[OF ok i]) (use pi q in \<open>auto simp: pub_ok_def queue_of_def has_flag_def\<close>)
  then show ?thesis by simp
qed

lemma update_pubs_step:
  assumes ok: "pubs_ok own extra held node" and l: "publications node = us @ i # ys"
  shows "\<exists>node' m us'. update_pubs_body i (node, n) = Some (node', m) \<and> pubs_ok own extra held node' \<and> publications node' = us' @ ys \<and>
    sans_pubs node' = sans_pubs node \<and> sending node' = sending node"
proof -
  have "i \<in> dom (pubs node)" using pubs_okD(1)[OF ok] l by (auto simp: lists_ok_def)
  then obtain p where p: "pubs node i = Some p" by auto
  have d: "distinct (us @ i # ys)" using pubs_okD(1)[OF ok] l by (auto simp: lists_ok_def)
  then have r: "remove1 i (us @ i # ys) = us @ ys" by (simp add: remove1_append)
  obtain n1 p1 where e: "DPS_ExpirePub node i = Some n1" "pubs_ok own extra held n1" "sending n1 = sending node"
    "publications n1 = publications node \<or> publications n1 = remove1 i (publications node)"
    using expire_ok[OF ok p] by (auto split: if_splits)
  have er: "sans_pubs n1 = sans_pubs node" using e(1) FreePublication_rest update_rest(1)
    by (auto simp: DPS_ExpirePub_def p split: if_splits)
  consider "p_sendQueue p \<noteq> []" | "p_sendQueue p = []" "p_retainedQueue p = []" | q qs where "p_sendQueue p = []" "p_retainedQueue p = q # qs"
    by (cases "p_retainedQueue p") auto
  then show ?thesis
  proof cases
    case 1
    then show ?thesis using p ok l by (auto simp: update_pubs_body_def intro!: exI[of _ "us @ [i]"])
  next
    case 2
    have "publications n1 = (us @ [i]) @ ys \<or> publications n1 = us @ ys" using e(4) l r by auto
    then show ?thesis using 2 p e er by (auto simp: update_pubs_body_def)
  next
    case 3
    then show ?thesis using p ok l requeue_ok[OF ok p 3(2)]
      by (auto simp: update_pubs_body_def update_pub_def intro!: exI[of _ "us @ [i]"])
  qed
qed

lemma UpdatePubs_ok:
  assumes ok: "pubs_ok own extra held node"
  shows "\<exists>node'. DPS_UpdatePubs node = Some node' \<and> pubs_ok own extra held node' \<and> sans_pubs node' = sans_pubs node \<and> sending node' = sending node"
proof -
  define I where "I ys s \<longleftrightarrow> (case s of (n, k) \<Rightarrow> pubs_ok own extra held n \<and> sans_pubs n = sans_pubs node \<and> sending n = sending node \<and>
    (\<exists>us. publications n = us @ ys))" for ys and s :: "DPS_Node \<times> nat"
  have step: "pub_link (fst s) x = Some (front ys) \<and> (\<exists>s'. update_pubs_body x s = Some s' \<and> I ys s')" if "I (x # ys) s" for x ys s
  proof -
    note i = that
    obtain n k us where s: "s = (n, k)" "pubs_ok own extra held n" "sans_pubs n = sans_pubs node" "sending n = sending node" "publications n = us @ x # ys"
      using i by (cases s) (auto simp: I_def)
    have "distinct (publications n)" using pubs_okD(1)[OF s(2)] by (simp add: lists_ok_def)
    then have "pub_link n x = Some (front ys)" using s(5) by (rule pub_link_suffix)
    then show ?thesis using update_pubs_step[OF s(2,5), of k] s by (auto simp: I_def)
  qed
  have "I (publications node) (node, 0)" using ok by (auto simp: I_def)
  from walk_list[of I "\<lambda>s. pub_link (fst s)", OF step this order_refl]
  obtain n k where "walk (length (publications node)) (\<lambda>s. pub_link (fst s)) update_pubs_body (front (publications node)) (node, 0) = Some (n, k)"
    "I [] (n, k)" by auto
  then show ?thesis using ok by (auto simp: DPS_UpdatePubs_def I_def)
qed


text \<open>A publication whose references are gone can be freed.\<close>

lemma free_pub_ok:
  assumes ok: "pubs_ok {} (\<lambda>_. 0) held node" and i: "pubs node i = Some p" "p_refCount p = 0" "i \<in> set (freePubs node)"
  shows "pubs_ok {} (\<lambda>_. 0) held (node\<lparr>freePubs := remove1 i (freePubs node), pubs := (pubs node)(i := None)\<rparr>)"
proof -
  let ?n = "node\<lparr>freePubs := remove1 i (freePubs node), pubs := (pubs node)(i := None)\<rparr>"
  have l: "lists_ok node" and pi: "pub_ok held node i p" using pubs_okD[OF ok] i by auto
  then have z: "sends node i = 0" "queue_of p = []" using i(2,3) by (auto simp: pub_ok_def)
  have none: "q_pub r \<noteq> i" if r: "reqs node q = Some r" for q r
  proof
    assume e: "q_pub r = i"
    then have "q \<notin> set (sending node)" using z(1) r by (auto simp: sends_def filter_empty_conv)
    moreover have "\<not> queued node q r" using e z(2) i(1) by (simp add: queued_def)
    ultimately show False using pubs_okD(3)[OF ok r] by (auto simp: req_ok_def)
  qed
  have s: "sends ?n j = sends node j" for j by (simp add: sends_def)
  have "set (remove1 i (freePubs node)) = set (freePubs node) - {i}" "distinct (remove1 i (freePubs node))" "i \<notin> set (publications node)"
    using l i(3) by (auto simp: lists_ok_def set_remove1_eq distinct_remove1)
  moreover have "i \<notin> k_pub ` set (ackQueue node @ sendingAcks node)"
    using z(1) by (auto simp: sends_def acks_def count_list_0_iff)
  ultimately have "lists_ok ?n" and f: "j \<in> set (freePubs ?n) \<longleftrightarrow> j \<in> set (freePubs node)" if "j \<noteq> i" for j
    using l that by (auto simp: lists_ok_def)
  moreover have "pub_ok held ?n j y" if "pubs ?n j = Some y" for j y
    using pubs_okD(2)[OF ok, of j y] that f[of j] unfolding pub_ok_def s by (auto split: if_splits)
  moreover have "req_ok {} (\<lambda>_. 0) ?n q r" if "reqs ?n q = Some r" for q r
    using pubs_okD(3)[OF ok, of q r] none[of q r] that by (auto simp: req_ok_def queued_def)
  ultimately show ?thesis unfolding pubs_ok_def by (metis n_not_Suc_n)
qed

lemma free_pubs_ok:
  assumes "pubs_ok {} (\<lambda>_. 0) held node" "set is \<subseteq> set (freePubs node)" "distinct is"
  shows "\<exists>node'. free_pubs is node = Some node' \<and> pubs_ok {} (\<lambda>_. 0) held node' \<and> sans_pubs node' = sans_pubs node \<and>
    publications node' = publications node \<and> sending node' = sending node \<and>
    (\<forall>i \<in> set is. \<forall>p. pubs node' i = Some p \<longrightarrow> p_refCount p \<noteq> 0) \<and> (\<forall>i. i \<notin> set is \<longrightarrow> pubs node' i = pubs node i)"
  using assms
proof (induction "is" arbitrary: node)
  case (Cons i "is")
  have "i \<in> dom (pubs node)" using Cons.prems pubs_okD(1)[OF Cons.prems(1)] by (auto simp: lists_ok_def)
  then obtain p where p: "pubs node i = Some p" by auto
  have pi: "pub_ok held node i p" using pubs_okD(2)[OF Cons.prems(1) p] .
  show ?case
  proof (cases "p_refCount p = 0")
    case True
    let ?n = "node\<lparr>freePubs := remove1 i (freePubs node), pubs := (pubs node)(i := None)\<rparr>"
    have i: "i \<in> set (freePubs node)" using Cons.prems(2) by simp
    have "has_flag PUB_FLAG_WAS_FREED p" using pi i by (simp add: pub_ok_def)
    then have run: "free_pubs (i # is) node = free_pubs is ?n" using p True by simp
    have "distinct (freePubs node)" using pubs_okD(1)[OF Cons.prems(1)] by (auto simp: lists_ok_def)
    then have "set is \<subseteq> set (freePubs ?n)" using Cons.prems(2,3) by (auto simp: set_remove1_eq)
    from Cons.IH[OF free_pub_ok[OF Cons.prems(1) p True i] this] Cons.prems(3)
    obtain node' where "free_pubs is ?n = Some node'" "pubs_ok {} (\<lambda>_. 0) held node'" "sans_pubs node' = sans_pubs ?n"
      "publications node' = publications ?n" "sending node' = sending ?n"
      "\<forall>i \<in> set is. \<forall>p. pubs node' i = Some p \<longrightarrow> p_refCount p \<noteq> 0" "\<forall>j. j \<notin> set is \<longrightarrow> pubs node' j = pubs ?n j" by auto
    then show ?thesis using run Cons.prems(3) by (intro exI[of _ node']) (auto simp: sans_pubs_def)
  next
    case False
    then have run: "free_pubs (i # is) node = free_pubs is node" using p by simp
    from Cons.IH[OF Cons.prems(1)] Cons.prems(2,3)
    obtain node' where "free_pubs is node = Some node'" "pubs_ok {} (\<lambda>_. 0) held node'" "sans_pubs node' = sans_pubs node"
      "publications node' = publications node" "sending node' = sending node"
      "\<forall>i \<in> set is. \<forall>p. pubs node' i = Some p \<longrightarrow> p_refCount p \<noteq> 0" "\<forall>j. j \<notin> set is \<longrightarrow> pubs node' j = pubs node j" by auto
    then show ?thesis using run Cons.prems(3) False p by (intro exI[of _ node']) auto
  qed
qed simp


lemma destroy_publication_ok:
  assumes ok: "pubs_ok own extra held node" and i: "pubs node i = Some p"
  shows "\<exists>ret node'. DPS_DestroyPublication node i = Some (ret, node') \<and> pubs_ok own extra held node' \<and> sans_pubs node' = sans_pubs node \<and>
    sending node' = sending node"
  using FreePublication_ok[OF ok i] FreePublication_rest ok i by (auto simp: DPS_DestroyPublication_def)

end
