(* ===== verification/Sub_Protocol.thy ===== *)
theory Sub_Protocol
  imports Message_Wire Publication
begin

text \<open>
  The subscription protocol (\<^verbatim>\<open>src/sub.c\<close>, \<^verbatim>\<open>src/dps.c\<close>): what a node does with a received
  subscription or acknowledgement, linking and unlinking, the completion of these operations, and the
  timer that sends subscriptions, repeats unanswered ones and gives up neighbours that stay silent.

  The surroundings of an operation are one record: whether assertions are compiled out, the
  configuration, the outcome of allocations, the contents of fresh memory and the network.
\<close>

record Env =
  e_ndebug :: bool
  e_config :: Configuration
  e_mem :: "nat \<Rightarrow> bool"
  e_malloc :: "nat \<Rightarrow> u8 list option"
  e_net :: network

section \<open>Sending to a remote node\<close>

definition send_sub :: "Env \<Rightarrow> DPS_Node \<Rightarrow> nat \<Rightarrow> (DPS_Status \<times> DPS_Node) option" where
  "send_sub env node remote = DPS_SendSubscription (e_malloc env) (e_net env) node remote"

definition send_sak :: "Env \<Rightarrow> DPS_Node \<Rightarrow> nat \<Rightarrow> bool \<Rightarrow> (DPS_Status \<times> DPS_Node) option" where
  "send_sak env node remote collision = DPS_SendSubscriptionAck (e_malloc env) (e_net env) node remote collision"

text \<open>\<open>DPS_UpdateOutboundInterests\<close> on a remote node in its place in the list\<close>

definition update_outbound :: "Env \<Rightarrow> DPS_Node \<Rightarrow> nat \<Rightarrow> (DPS_Status \<times> bool \<times> DPS_Node) option" where
  "update_outbound env node remote =
     do {
       r \<leftarrow> deref_remote node remote;
       (ret, changes, node, r) \<leftarrow> DPS_UpdateOutboundInterests (e_ndebug env) (e_config env) (e_mem env) node r;
       node \<leftarrow> update_remote remote (\<lambda>_. r) node;
       Some (ret, changes, node)
     }"

definition clear_outbound :: "Env \<Rightarrow> DPS_Node \<Rightarrow> nat \<Rightarrow> (DPS_Status \<times> DPS_Node) option" where
  "clear_outbound env node remote =
     do {
       r \<leftarrow> deref_remote node remote;
       case DPS_ClearOutboundInterests (e_config env) (e_mem env 3) (e_mem env 4) r of
         (ret, r) \<Rightarrow> do { node \<leftarrow> update_remote remote (\<lambda>_. r) node; Some (ret, node) }
     }"

section \<open>Unmuting (src/dps.c)\<close>

definition DPS_UnmuteRemoteNode :: "Env \<Rightarrow> DPS_Node \<Rightarrow> nat \<Rightarrow> (DPS_Status \<times> DPS_Node) option" where
  "DPS_UnmuteRemoteNode env node remote =
     do {
       r \<leftarrow> deref_remote node remote;
       if r_state r = REMOTE_MUTED \<or> r_state r = REMOTE_UNMUTING
       then
         do {
           node \<leftarrow> update_remote remote (\<lambda>r. r\<lparr>r_state := REMOTE_UNMUTING, sakCounter := 0\<rparr>) node;
           (case DPS_RandUUIDLess (DPS_MinMeshId node None) (n_entropy node) of
              (m, e) \<Rightarrow>
                do {
                  (_, node) \<leftarrow> clear_outbound env (node\<lparr>meshId := m, n_entropy := e\<rparr>) remote;
                  (ret, _, node) \<leftarrow> update_outbound env node remote;
                  if ret = DPS_OK then send_sub env node remote else Some (ret, node)
                })
         }
       else Some (DPS_OK, node)
     }"

section \<open>Received messages (src/sub.c)\<close>

definition UnlinkRemote :: "Env \<Rightarrow> DPS_Node \<Rightarrow> DPS_NodeAddress \<Rightarrow> u32 \<Rightarrow> (DPS_Status \<times> DPS_Node) option" where
  "UnlinkRemote env node a revision =
     (case DPS_LookupRemoteNode node (Some a) of
        Some remote \<Rightarrow>
          do {
            node \<leftarrow> update_remote remote (\<lambda>r. r\<lparr>sendInterests := False, in_revision := revision\<rparr>) node;
            (_, node) \<leftarrow> send_sak env node remote False;
            node \<leftarrow> update_remote remote (\<lambda>r. r\<lparr>linkRequested := False\<rparr>) node;
            node \<leftarrow> DPS_DeleteRemoteNode node remote;
            Some (DPS_OK, DPS_UpdateSubs node SubsSendNow)
          }
      | None \<Rightarrow> Some (DPS_ERR_MISSING, node))"

definition sub_flag :: "u8 \<Rightarrow> SubFields \<Rightarrow> bool" where
  "sub_flag flag f \<longleftrightarrow> f_flags f AND flag \<noteq> 0"

text \<open>The end of \<open>DecodeSubscription\<close> for a message that is discarded\<close>

definition discard_message :: "DPS_Status \<Rightarrow> DPS_Node \<Rightarrow> nat \<Rightarrow> (DPS_Status \<times> DPS_Node) option" where
  "discard_message ret node remote =
     do {
       r \<leftarrow> deref_remote node remote;
       node \<leftarrow> (if r_state r = REMOTE_NEW then DPS_DeleteRemoteNode node remote else Some node);
       Some (ret, node)
     }"

text \<open>The sender of a subscription: a known remote node or a new one, and whether the message crossed
  one of this node. When a new one cannot be allocated the code goes on with a null pointer.\<close>

definition sub_sender :: "Env \<Rightarrow> DPS_Node \<Rightarrow> DPS_NetEndpoint \<Rightarrow> (DPS_Status \<times> nat \<times> bool \<times> DPS_Node) option" where
  "sub_sender env node ep =
     do {
       (ret, remote, node) \<leftarrow> DPS_AddRemoteNode (e_mem env 5) node (addr ep) (cn ep);
       remote \<leftarrow> remote;
       if ret = DPS_ERR_EXISTS
       then do { r \<leftarrow> deref_remote node remote; Some (DPS_OK, remote, sakPending r, node) }
       else do { (ret, node) \<leftarrow> clear_outbound env node remote; Some (ret, remote, False, node) }
     }"

text \<open>Muting and unmuting as the message asks for it or the mesh has a loop\<close>

definition check_mute :: "Env \<Rightarrow> bool \<Rightarrow> SubFields \<Rightarrow> DPS_Node \<Rightarrow> nat \<Rightarrow> (DPS_Status \<times> DPS_Node) option" where
  "check_mute env isSak f node remote =
     do {
       r \<leftarrow> deref_remote node remote;
       loop \<leftarrow> MeshHasLoop node remote (f_mesh f);
       if sub_flag DPS_SUB_FLAG_UNMUTE_REQ f
       then if isSak then Some (DPS_ERR_INVALID, node) else DPS_UnmuteRemoteNode env node remote
       else if r_state r \<noteq> REMOTE_MUTED \<and> r_state r \<noteq> REMOTE_UNMUTING \<and> (sub_flag DPS_SUB_FLAG_MUTE_IND f \<or> loop)
       then DPS_MuteRemoteNode node remote REMOTE_MUTED
       else Some (DPS_OK, node)
     }"

text \<open>The interests of a new revision; those of a message that is a duplicate are dropped.\<close>

definition store_interests :: "bool \<Rightarrow> SubFields \<Rightarrow> DPS_Node \<Rightarrow> nat \<Rightarrow> DPS_Node option" where
  "store_interests isDuplicate f node remote =
     (if isDuplicate then Some node
      else
        do {
          r \<leftarrow> deref_remote node remote;
          i \<leftarrow> f_interests f;
          n \<leftarrow> f_needs f;
          (_, node, r) \<leftarrow> UpdateInboundInterests node r i n (sub_flag DPS_SUB_FLAG_DELTA_IND f);
          node \<leftarrow> update_remote remote (\<lambda>_. r) node;
          DPS_UpdatePubs node
        })"

text \<open>
  Preparing the first acknowledgement for a new remote node, which always has interests. It is an
  assertion that the message is not a duplicate. When the interests cannot be computed, those of the
  message are freed with the remote node, and once more at the end: \<open>None\<close>.
\<close>

definition first_interests :: "Env \<Rightarrow> bool \<Rightarrow> DPS_Node \<Rightarrow> nat \<Rightarrow> DPS_Node option" where
  "first_interests env isDuplicate node remote =
     do {
       r \<leftarrow> deref_remote node remote;
       if r_state r \<noteq> REMOTE_NEW then Some node
       else if isDuplicate \<and> \<not> e_ndebug env then None
       else
         do {
           (ret, changes, node) \<leftarrow> update_outbound env node remote;
           if ret \<noteq> DPS_OK then None
           else update_remote remote (\<lambda>r. r\<lparr>sendInterests := changes\<rparr>) node
         }
     }"

definition OptKeysMask :: u16 where
  "OptKeysMask = push_bit (nat DPS_CBOR_KEY_NEEDS) 1 OR push_bit (nat DPS_CBOR_KEY_INTERESTS) 1"

text \<open>A message whose sender is known; the mesh identifier and the state are kept up with at the end.\<close>

definition accept_message :: "Env \<Rightarrow> bool \<Rightarrow> SubFields \<Rightarrow> bool \<Rightarrow> DPS_Node \<Rightarrow> nat \<Rightarrow> (DPS_Status \<times> DPS_Node) option" where
  "accept_message env isSak f collision node remote =
     do {
       r \<leftarrow> deref_remote node remote;
       if f_revision f < in_revision r then discard_message DPS_ERR_STALE node remote
       else
         do {
           node \<leftarrow> update_remote remote (\<lambda>r. r\<lparr>in_revision := f_revision f\<rparr>) node;
           (ret, node) \<leftarrow> check_mute env isSak f node remote;
           if ret \<noteq> DPS_OK then discard_message ret node remote
           else if sub_flag DPS_SUB_FLAG_SAK_REQ f \<and> f_keys f AND OptKeysMask \<noteq> OptKeysMask
           then discard_message DPS_ERR_INVALID node remote
           else if \<not> sub_flag DPS_SUB_FLAG_SAK_REQ f \<and> \<not> isSak
           then discard_message DPS_ERR_INVALID node remote
           else
             do {
               (ret, node) \<leftarrow>
                 (if sub_flag DPS_SUB_FLAG_SAK_REQ f then
                    do {
                      node \<leftarrow> store_interests (in_revision r = f_revision f) f node remote;
                      node \<leftarrow> first_interests env (in_revision r = f_revision f) node remote;
                      send_sak env node remote collision
                    }
                  else do { node \<leftarrow> update_remote remote (\<lambda>r. r\<lparr>lastSubMsgType := 0\<rparr>) node; Some (DPS_OK, node) });
               node \<leftarrow> update_remote remote
                 (\<lambda>r. r\<lparr>in_meshId := f_mesh f, r_state := (if r_state r = REMOTE_NEW then REMOTE_ACTIVE else r_state r)\<rparr>) node;
               Some (ret, node)
             }
         }
     }"

text \<open>What a node does with the fields of a message from the endpoint \<open>ep\<close>\<close>

definition handle_message :: "Env \<Rightarrow> bool \<Rightarrow> SubFields \<Rightarrow> DPS_NetEndpoint \<Rightarrow> DPS_Node \<Rightarrow> (DPS_Status \<times> DPS_Node) option" where
  "handle_message env isSak f ep node =
     (if isSak then
        (case DPS_LookupRemoteNode node (Some (addr ep)) of
           None \<Rightarrow> Some (DPS_ERR_MISSING, node)
         | Some remote \<Rightarrow> accept_message env isSak f False node remote)
      else if sub_flag DPS_SUB_FLAG_UNLINK_IND f then UnlinkRemote env node (addr ep) (f_revision f)
      else
        do {
          (ret, remote, collision, node) \<leftarrow> sub_sender env node ep;
          if ret \<noteq> DPS_OK then discard_message ret node remote
          else accept_message env isSak f collision node remote
        })"

text \<open>The results are the status, the acknowledged revision, the node and the endpoint with the
  listening address of the sender. \<open>transport\<close> is the kind of network and \<open>mesh\<close> the uninitialized
  mesh identifier.\<close>

definition DecodeSubscription ::
  "Env \<Rightarrow> DPS_NodeAddressType \<Rightarrow> DPS_UUID \<Rightarrow> bool \<Rightarrow> DPS_Node \<Rightarrow> DPS_NetEndpoint \<Rightarrow> DPS_RxBuffer \<Rightarrow>
   (DPS_Status \<times> u32 \<times> DPS_Node \<times> DPS_NetEndpoint) option" where
  "DecodeSubscription env transport mesh isSak node ep buf =
     do {
       (ret, f, ep, buf) \<leftarrow>
         decode_sub_fields (e_ndebug env) (e_config env) (e_mem env 6) (e_mem env 7) transport mesh isSak ep buf;
       if ret \<noteq> DPS_OK then Some (ret, f_ack f, node, ep)
       else do { (ret, node) \<leftarrow> handle_message env isSak f ep node; Some (ret, f_ack f, node, ep) }
     }"

section \<open>Linking and unlinking (src/dps.c)\<close>

text \<open>\<open>mem\<close> tells whether the completion can be allocated, \<open>shutdown\<close> whether the callback is that of a shutdown.\<close>

definition Unlink :: "bool \<Rightarrow> bool \<Rightarrow> DPS_Node \<Rightarrow> nat \<Rightarrow> (DPS_Status \<times> DPS_Node) option" where
  "Unlink mem shutdown node remote =
     do {
       r \<leftarrow> deref_remote node remote;
       if completion r \<noteq> None then Some (DPS_ERR_BUSY, node)
       else if \<not> mem
       then do { node \<leftarrow> update_remote remote (\<lambda>r. r\<lparr>linkRequested := False\<rparr>) node; Some (DPS_ERR_RESOURCES, node) }
       else
         do {
           node \<leftarrow> update_remote remote
             (\<lambda>r. r\<lparr>linkRequested := False,
                    completion := Some \<lparr>c_op = UNLINK_OP, c_addr = addr (r_ep r), c_shutdown = shutdown\<rparr>\<rparr>) node;
           if sakPending r then Some (DPS_OK, node)
           else
             do {
               node \<leftarrow> update_remote remote (\<lambda>r. r\<lparr>r_state := REMOTE_UNLINKING\<rparr>) node;
               Some (DPS_OK, DPS_UpdateSubs node SubsSendNow)
             }
         }
     }"

definition DPS_Unlink :: "bool \<Rightarrow> DPS_Node \<Rightarrow> DPS_NodeAddress \<Rightarrow> (DPS_Status \<times> DPS_Node) option" where
  "DPS_Unlink mem node a =
     (case DPS_LookupRemoteNode node (Some a) of
        None \<Rightarrow> Some (DPS_ERR_MISSING, node)
      | Some remote \<Rightarrow>
          do {
            (ret, node) \<leftarrow> Unlink mem False node remote;
            node \<leftarrow> (if ret \<noteq> DPS_OK \<and> ret \<noteq> DPS_ERR_BUSY then DPS_DeleteRemoteNode node remote else Some node);
            Some (ret, node)
          })"

text \<open>\<open>DPS_NodeRequestSchedule\<close>; \<open>err\<close> says that waking the request task fails.\<close>

definition schedule :: "NodeRequest \<Rightarrow> bool \<Rightarrow> DPS_Node \<Rightarrow> DPS_Status \<times> DPS_Node" where
  "schedule req err node =
     (if err then (DPS_ERR_FAILURE, node) else (DPS_OK, node\<lparr>requestQueue := requestQueue node @ [req]\<rparr>))"

text \<open>
  \<open>Link\<close> with a completion that has been allocated by its caller, who frees it when the result is an
  error. \<open>mem\<close> tells whether a remote node can be allocated.
\<close>

definition Link :: "bool \<Rightarrow> bool \<Rightarrow> DPS_Node \<Rightarrow> DPS_NodeAddress \<Rightarrow> (DPS_Status \<times> DPS_Node) option" where
  "Link mem err node a =
     do {
       (ret, remote, node) \<leftarrow> DPS_AddRemoteNode mem node a False;
       case remote of
         None \<Rightarrow> Some (ret, node)
       | Some remote \<Rightarrow>
           do {
             (ret, node) \<leftarrow>
               (if ret = DPS_OK then
                  do {
                    node \<leftarrow> update_remote remote (\<lambda>r. r\<lparr>linkRequested := True, r_state := REMOTE_LINKING\<rparr>) node;
                    Some (DPS_OK, DPS_UpdateSubs node SubsSendNow)
                  }
                else
                  do {
                    r \<leftarrow> deref_remote node remote;
                    Some (if completion r \<noteq> None then (DPS_ERR_BUSY, node) else schedule (Link_Exists remote) err node)
                  });
             if ret = DPS_OK then
               do {
                 r \<leftarrow> deref_remote node remote;
                 if completion r \<noteq> None then None
                 else
                   do {
                     node \<leftarrow> update_remote remote
                       (\<lambda>r. r\<lparr>completion := Some \<lparr>c_op = LINK_OP, c_addr = a, c_shutdown = False\<rparr>\<rparr>) node;
                     Some (DPS_OK, node)
                   }
               }
             else Some (ret, node)
           }
     }"

definition DPS_LinkRemoteAddr :: "bool \<Rightarrow> bool \<Rightarrow> bool \<Rightarrow> DPS_Node \<Rightarrow> DPS_NodeAddress \<Rightarrow> (DPS_Status \<times> DPS_Node) option" where
  "DPS_LinkRemoteAddr mem1 mem2 err node a = (if mem1 then Link mem2 err node a else Some (DPS_ERR_RESOURCES, node))"

section \<open>Completions (src/dps.c)\<close>

text \<open>
  The end of \<open>RemoteCompletion\<close> for the completion of a remote node that is there: the remote node
  forgets the operation, is deleted on an error, and the application is told. During a shutdown a link
  is unlinked at once.
\<close>

definition finish_completion :: "bool \<Rightarrow> DPS_Node \<Rightarrow> nat \<Rightarrow> OnOpCompletion \<Rightarrow> DPS_Status \<Rightarrow> DPS_Node option" where
  "finish_completion mem node remote c status =
     do {
       r \<leftarrow> deref_remote node remote;
       if completion r \<noteq> Some c then None
       else
         do {
           node \<leftarrow> update_remote remote (\<lambda>r. r\<lparr>completion := None\<rparr>) node;
           node \<leftarrow> (if status \<noteq> DPS_OK \<and> status \<noteq> DPS_ERR_EXISTS then DPS_DeleteRemoteNode node remote else Some node);
           (let node = call_completion c status (cancel_request remote node) in
            if \<not> onShutdown node then Some node
            else if c_op c = UNLINK_OP then Some (OnShutdown node)
            else
              do {
                (status, node) \<leftarrow> Unlink mem True node remote;
                if status = DPS_ERR_BUSY then None
                else if status \<noteq> DPS_OK
                then do { node \<leftarrow> DPS_DeleteRemoteNode node remote; Some (OnShutdown node) }
                else Some node
              })
         }
     }"

text \<open>An unlink operation that had to wait for an acknowledgement is carried out now.\<close>

definition DPS_RemoteCompletion :: "Env \<Rightarrow> DPS_Node \<Rightarrow> nat \<Rightarrow> OnOpCompletion \<Rightarrow> DPS_Status \<Rightarrow> DPS_Node option" where
  "DPS_RemoteCompletion env node remote c status =
     do {
       r \<leftarrow> deref_remote node remote;
       case c_op c of
         LINK_OP \<Rightarrow>
           do {
             node \<leftarrow> (if r_state r = REMOTE_LINKING then update_remote remote (\<lambda>r. r\<lparr>r_state := REMOTE_ACTIVE\<rparr>) node
                     else Some node);
             finish_completion (e_mem env 8) node remote c status
           }
       | UNLINK_OP \<Rightarrow>
           if r_state r \<noteq> REMOTE_UNLINKING
           then
             do {
               node \<leftarrow> update_remote remote (\<lambda>r. r\<lparr>r_state := REMOTE_UNLINKING\<rparr>) node;
               (_, _, node) \<leftarrow> update_outbound env node remote;
               (ret, node) \<leftarrow> send_sub env node remote;
               if ret = DPS_OK then Some node
               else finish_completion (e_mem env 8) node remote c DPS_ERR_MISSING
             }
           else finish_completion (e_mem env 8) node remote c DPS_ERR_MISSING
     }"

definition LinkExists :: "Env \<Rightarrow> DPS_Node \<Rightarrow> nat \<Rightarrow> DPS_Node option" where
  "LinkExists env node remote =
     do {
       r \<leftarrow> deref_remote node remote;
       c \<leftarrow> completion r;
       node \<leftarrow> (if linkRequested r then Some node else update_remote remote (\<lambda>r. r\<lparr>linkRequested := True\<rparr>) node);
       DPS_RemoteCompletion env node remote c (if linkRequested r then DPS_ERR_EXISTS else DPS_OK)
     }"

text \<open>Requests run one after the other; the bound is the number that are queued.\<close>

fun RunRequestsTask :: "Env \<Rightarrow> nat \<Rightarrow> DPS_Node \<Rightarrow> DPS_Node option" where
  "RunRequestsTask env n node =
     (case requestQueue node of
        [] \<Rightarrow> Some node
      | req # queue \<Rightarrow>
          (case n of
             0 \<Rightarrow> None
           | Suc n \<Rightarrow>
               do {
                 node \<leftarrow> (let node = node\<lparr>requestQueue := queue\<rparr> in
                         case req of Link_Exists remote \<Rightarrow> LinkExists env node remote | Shutdown_Request \<Rightarrow> Some (OnShutdown node));
                 RunRequestsTask env n node
               }))"

declare RunRequestsTask.simps [simp del]

section \<open>Received messages to the end (src/sub.c)\<close>

definition complete_pending :: "Env \<Rightarrow> DPS_Node \<Rightarrow> nat \<Rightarrow> DPS_Node option" where
  "complete_pending env node remote =
     do {
       r \<leftarrow> deref_remote node remote;
       case completion r of None \<Rightarrow> Some node | Some c \<Rightarrow> DPS_RemoteCompletion env node remote c DPS_OK
     }"

definition DPS_DecodeSubscription ::
  "Env \<Rightarrow> DPS_NodeAddressType \<Rightarrow> DPS_UUID \<Rightarrow> DPS_Node \<Rightarrow> DPS_NetEndpoint \<Rightarrow> DPS_RxBuffer \<Rightarrow> (DPS_Status \<times> DPS_Node) option" where
  "DPS_DecodeSubscription env transport mesh node ep buf =
     do {
       (ret, _, node, ep) \<leftarrow> DecodeSubscription env transport mesh False node ep buf;
       (let node = (if ret = DPS_OK then DPS_UpdateSubs node SubsThrottled else node) in
        case DPS_LookupRemoteNode node (Some (addr ep)) of
          None \<Rightarrow> Some (ret, node)
        | Some remote \<Rightarrow>
            do {
              r \<leftarrow> deref_remote node remote;
              node \<leftarrow> (if sakPending r then Some node else complete_pending env node remote);
              Some (ret, node)
            })
     }"

definition acknowledged :: "RemoteNode \<Rightarrow> RemoteNode" where
  "acknowledged r =
     r\<lparr>sendInterests := False, sakPending := False,
       r_state := (if r_state r = REMOTE_UNMUTING then REMOTE_ACTIVE else r_state r)\<rparr>"

definition DPS_DecodeSubscriptionAck ::
  "Env \<Rightarrow> DPS_NodeAddressType \<Rightarrow> DPS_UUID \<Rightarrow> DPS_Node \<Rightarrow> DPS_NetEndpoint \<Rightarrow> DPS_RxBuffer \<Rightarrow> (DPS_Status \<times> DPS_Node) option" where
  "DPS_DecodeSubscriptionAck env transport mesh node ep buf =
     do {
       (ret, revision, node, ep) \<leftarrow> DecodeSubscription env transport mesh True node ep buf;
       if ret \<noteq> DPS_OK then Some (ret, node)
       else
         (case DPS_LookupRemoteNode node (Some (addr ep)) of
            None \<Rightarrow> Some (DPS_ERR_MISSING, node)
          | Some remote \<Rightarrow>
              do {
                r \<leftarrow> deref_remote node remote;
                if out_revision r = revision
                then
                  do {
                    node \<leftarrow> update_remote remote acknowledged node;
                    node \<leftarrow> complete_pending env node remote;
                    Some (DPS_OK, node)
                  }
                else Some (DPS_ERR_STALE, node)
              })
     }"

section \<open>Reports of the network (src/dps.c)\<close>

definition DPS_OnSendSubscriptionComplete :: "DPS_Node \<Rightarrow> DPS_NetEndpoint option \<Rightarrow> DPS_Status \<Rightarrow> DPS_Node option" where
  "DPS_OnSendSubscriptionComplete node ep status =
     (case ep of
        None \<Rightarrow> Some node
      | Some ep \<Rightarrow>
          (case DPS_LookupRemoteNode node (Some (addr ep)) of
             None \<Rightarrow> Some node
           | Some remote \<Rightarrow>
               if status = DPS_OK then
                 do {
                   r \<leftarrow> deref_remote node remote;
                   Some (if n_state node = DPS_NODE_RUNNING \<and> sakPending r then DPS_UpdateSubs node SubsThrottled else node)
                 }
               else DPS_DeleteRemoteNode node remote))"

section \<open>The subscription timer (src/dps.c)\<close>

definition DPS_SAK_RETRY_THRESHOLD :: u8 where "DPS_SAK_RETRY_THRESHOLD = 2"
definition DPS_SAK_RETRY_LIMIT :: u8 where "DPS_SAK_RETRY_LIMIT = 3"

text \<open>\<open>None\<close> when a route exists already or is being restored, otherwise the muted remote node, if any\<close>

fun alternative :: "nat \<Rightarrow> DPS_UUID \<Rightarrow> nat option \<Rightarrow> (nat \<times> RemoteNode) list \<Rightarrow> nat option" where
  "alternative oldRoute m altRoute [] = altRoute"
| "alternative oldRoute m altRoute ((i, r) # rest) =
     (if i = oldRoute then alternative oldRoute m altRoute rest
      else if DPS_UUIDCompare (in_meshId r) m = 0 \<and> (r_state r = REMOTE_ACTIVE \<or> r_state r = REMOTE_UNMUTING) then None
      else if DPS_UUIDCompare (in_meshId r) m = 0 \<and> r_state r = REMOTE_MUTED then Some i
      else alternative oldRoute m (if altRoute = None \<and> r_state r = REMOTE_MUTED then Some i else altRoute) rest)"

definition FindAlternativeRoute :: "Env \<Rightarrow> DPS_Node \<Rightarrow> nat \<Rightarrow> DPS_Node option" where
  "FindAlternativeRoute env node oldRoute =
     do {
       r \<leftarrow> deref_remote node oldRoute;
       case alternative oldRoute (in_meshId r) None (remoteNodes node) of
         None \<Rightarrow> Some node
       | Some altRoute \<Rightarrow> do { (_, node) \<leftarrow> DPS_UnmuteRemoteNode env node altRoute; Some node }
     }"

text \<open>One round of the loop; the flag is \<open>reschedule\<close>. A remote node for which something failed is deleted.\<close>

definition after_send :: "nat \<Rightarrow> bool \<Rightarrow> (DPS_Status \<times> DPS_Node) \<Rightarrow> (DPS_Node \<times> bool) option" where
  "after_send remote reschedule s =
     (case s of (ret, node) \<Rightarrow>
        if ret = DPS_OK then Some (node, True)
        else do { node \<leftarrow> DPS_DeleteRemoteNode node remote; Some (node, reschedule) })"

definition resend :: "Env \<Rightarrow> nat \<Rightarrow> bool \<Rightarrow> DPS_Node \<Rightarrow> (DPS_Node \<times> bool) option" where
  "resend env remote reschedule node =
     do {
       r \<leftarrow> deref_remote node remote;
       if subsPending node = SubsSendNow then Some (node, True)
       else
         do {
           node \<leftarrow> update_remote remote (\<lambda>r. r\<lparr>sakCounter := sakCounter r + 1\<rparr>) node;
           (let n = sakCounter r + 1 in
            if n < DPS_SAK_RETRY_THRESHOLD then Some (node, True)
            else if n \<ge> DPS_SAK_RETRY_THRESHOLD + DPS_SAK_RETRY_LIMIT
            then
              do {
                node \<leftarrow> (if r_state r = REMOTE_ACTIVE then FindAlternativeRoute env node remote else Some node);
                node \<leftarrow> DPS_DeleteRemoteNode node remote;
                Some (node, reschedule)
              }
            else
              do {
                s \<leftarrow> (if lastSubMsgType r = DPS_MSG_TYPE_SUB then send_sub env node remote else send_sak env node remote False);
                after_send remote reschedule s
              })
         }
     }"

definition timer_body :: "Env \<Rightarrow> nat \<Rightarrow> DPS_Node \<times> bool \<Rightarrow> (DPS_Node \<times> bool) option" where
  "timer_body env remote s =
     (case s of (node, reschedule) \<Rightarrow>
        do {
          r \<leftarrow> deref_remote node remote;
          if sakPending r then resend env remote reschedule node
          else if r_state r = REMOTE_MUTED then Some (node, reschedule)
          else
            do {
              (ret, changes, node) \<leftarrow> update_outbound env node remote;
              if ret \<noteq> DPS_OK then after_send remote reschedule (ret, node)
              else if changes \<or> subsPending node = SubsNonePending
              then do { s \<leftarrow> send_sub env node remote; after_send remote reschedule s }
              else Some (node, reschedule)
            }
        })"

definition remote_link :: "DPS_Node \<Rightarrow> nat \<Rightarrow> nat option option" where
  "remote_link node remote = follower (map fst (remoteNodes node)) remote"

definition SendSubsTimer :: "Env \<Rightarrow> DPS_Node \<Rightarrow> DPS_Node option" where
  "SendSubsTimer env node =
     do {
       (node, reschedule) \<leftarrow>
         walk (length (remoteNodes node)) (\<lambda>s. remote_link (fst s)) (timer_body env) (front (map fst (remoteNodes node))) (node, False);
       Some (if reschedule then emit (Subs_Timer (subsRate node)) (node\<lparr>subsPending := SubsThrottled\<rparr>)
             else node\<lparr>subsPending := SubsNonePending\<rparr>)
     }"

definition SendSubsTask :: "Env \<Rightarrow> DPS_Node \<Rightarrow> DPS_Node option" where
  "SendSubsTask env node =
     (if n_state node = DPS_NODE_RUNNING
      then if subsPending node = SubsSendNow then SendSubsTimer env node else Some (emit (Subs_Timer (subsRate node)) node)
      else Some node)"

section \<open>Shutting down (src/dps.c)\<close>

definition shutdown_body :: "bool \<Rightarrow> nat \<Rightarrow> DPS_Node \<times> DPS_Status \<Rightarrow> (DPS_Node \<times> DPS_Status) option" where
  "shutdown_body mem remote s =
     do {
       (ret, node) \<leftarrow> Unlink mem True (fst s) remote;
       (let ret = (if ret = DPS_ERR_BUSY then DPS_OK else ret) in
        do {
          node \<leftarrow> (if ret \<noteq> DPS_OK then DPS_DeleteRemoteNode node remote else Some node);
          Some (node, ret)
        })
     }"

definition DPS_ShutdownNode :: "bool \<Rightarrow> bool \<Rightarrow> DPS_Node \<Rightarrow> (DPS_Status \<times> DPS_Node) option" where
  "DPS_ShutdownNode mem err node =
     (if n_state node \<noteq> DPS_NODE_RUNNING \<or> onShutdown node then Some (DPS_ERR_INVALID, node)
      else
        do {
          (node, ret) \<leftarrow>
            walk (length (remoteNodes node)) (\<lambda>s. remote_link (fst s)) (shutdown_body mem) (front (map fst (remoteNodes node)))
              (node\<lparr>onShutdown := True\<rparr>, DPS_OK);
          Some (if remoteNodes node = [] then schedule Shutdown_Request err node else (ret, node))
        })"

end
