(* ===== verification/Sub_Safety.thy ===== *)
theory Sub_Safety
  imports Sub_Protocol
begin

text \<open>
  What the operations of the subscription protocol keep, whatever the network and the allocator do: the
  counting vectors, the outbound interests and the accounts of the publications stay in order on every
  branch that does not end in undefined behaviour.
\<close>

section \<open>The invariant\<close>

text \<open>The number of those whose vectors are counted stays below a bound, which leaves room for a new one.\<close>

definition crowd :: "DPS_Node \<Rightarrow> nat" where
  "crowd node = length (remoteNodes node) + length (subscriptions node)"

definition sound :: "Configuration \<Rightarrow> (nat \<Rightarrow> nat) \<Rightarrow> nat \<Rightarrow> DPS_Node \<Rightarrow> bool" where
  "sound config held k node \<longleftrightarrow> node_ok config node \<and> pubs_ok {} (\<lambda>_. 0) held node \<and> crowd node \<le> k"

definition calm :: "DPS_Node \<Rightarrow> DPS_Node \<Rightarrow> bool" where
  "calm node node' \<longleftrightarrow> same_pubs node node' \<and> crowd node' \<le> crowd node"

lemma calm_refl [simp]: "calm node node"
  by (simp add: calm_def same_pubs_def)

lemma calm_trans [trans]: "calm a b \<Longrightarrow> calm b c \<Longrightarrow> calm a c"
  by (simp add: calm_def same_pubs_def)

lemma calm_emit [simp]: "calm node (emit e node)"
  by (simp add: calm_def crowd_def emit_def same_pubs_def)

lemma soundI: "node_ok config node' \<Longrightarrow> calm node node' \<Longrightarrow> sound config held k node \<Longrightarrow> sound config held k node'"
  using pubs_ok_cong[of node node'] by (auto simp: sound_def calm_def)

lemma sound_mono: "sound config held k node \<Longrightarrow> k \<le> l \<Longrightarrow> sound config held l node"
  by (simp add: sound_def)

lemma sound_room:
  assumes "sound config held k node" "k < CV_MAX"
  shows "room node"
proof -
  have s: "length (concat (map (\<lambda>s. olist (f s)) xs)) \<le> length xs" for f :: "'a \<Rightarrow> DPS_BitVector option" and xs
  proof (induction xs)
    case (Cons x xs)
    then show ?case by (cases "f x") auto
  qed simp
  show ?thesis using assms s[of "\<lambda>(i, r). in_interests r" "remoteNodes node"] s[of "\<lambda>(i, r). in_needs r" "remoteNodes node"]
      s[of s_bf "subscriptions node"] s[of s_needs "subscriptions node"]
    by (simp add: sound_def crowd_def room_def interest_vectors_def needs_vectors_def case_prod_unfold)
qed

text \<open>Fields the invariant does not look at\<close>

lemma sound_fields [simp]:
  "sound config held k (emit e node) \<longleftrightarrow> sound config held k node"
  "sound config held k (DPS_UpdateSubs node p) \<longleftrightarrow> sound config held k node"
  "sound config held k (node\<lparr>subsPending := x\<rparr>) \<longleftrightarrow> sound config held k node"
  "sound config held k (node\<lparr>meshId := m, n_entropy := y\<rparr>) \<longleftrightarrow> sound config held k node"
  "sound config held k (node\<lparr>requestQueue := z\<rparr>) \<longleftrightarrow> sound config held k node"
  "sound config held k (node\<lparr>onShutdown := b\<rparr>) \<longleftrightarrow> sound config held k node"
  by (simp_all add: sound_def node_ok_def node_inv_def counts_ok_def interest_vectors_def needs_vectors_def pubs_ok_defs crowd_def
      emit_def DPS_UpdateSubs_def)

lemma update_calm: "update_remote i f node = Some node' \<Longrightarrow> calm node node'"
  by (auto simp: update_remote_def calm_def crowd_def same_pubs_def split: if_splits)

lemma update_deref: "update_remote i f node = Some node' \<Longrightarrow> \<exists>r. deref_remote node i = Some r"
  by (auto simp: update_remote_def deref_remote_def split: if_splits dest: weak_map_of_SomeI)

text \<open>A change of a remote node that leaves its vectors alone\<close>

lemma sound_update:
  assumes "sound config held k node" "update_remote i f node = Some node'"
    and f: "\<And>r. in_interests (f r) = in_interests r" "\<And>r. in_needs (f r) = in_needs r" "\<And>r. out_ok config r \<Longrightarrow> out_ok config (f r)"
  shows "sound config held k node'"
proof -
  have ok: "node_ok config node" and inv: "node_inv config node" using assms(1) by (auto simp: sound_def node_ok_def)
  obtain r where r: "deref_remote node i = Some r" using update_deref[OF assms(2)] by blast
  obtain xs ys where s: "remoteNodes node = xs @ (i, r) # ys" "i \<notin> fst ` set (xs @ ys)"
    using remote_split[OF _ r] inv by (auto simp: node_inv_def)
  have u: "update_remote i (\<lambda>_. f r) node = Some node'" using update_split[OF s] assms(2) by simp
  then have "node_inv config node'" using node_inv_update[OF inv r f(1,2)] by auto
  moreover have "out_ok config (f r)" using f(3) out_okD[OF ok r] .
  ultimately have "node_ok config node'" using update_set[OF u] ok by (auto simp: node_ok_def)
  then show ?thesis using soundI update_calm[OF assms(2)] assms(1) by blast
qed

lemma out_ok_cong:
  "out_interests r' = out_interests r \<Longrightarrow> out_needs r' = out_needs r \<Longrightarrow> out_delta r' = out_delta r \<Longrightarrow>
   out_ok config r' \<longleftrightarrow> out_ok config r"
  by (simp add: out_ok_def)

section \<open>Deleting and muting\<close>

lemma unlink_length: "unlink_remote i xs = Some ys \<Longrightarrow> Suc (length ys) = length xs"
  by (induction xs arbitrary: ys) (auto simp: bind_eq_Some_conv split: if_splits)

lemma delete_calm: "DPS_DeleteRemoteNode node i = Some node' \<Longrightarrow> calm node node'"
proof -
  have d: "calm n (detached_completion i c st n)" for n c st
    by (simp add: calm_def crowd_def same_pubs_def detached_completion_def call_completion_def cancel_request_def OnShutdown_def emit_def Let_def)
  assume "DPS_DeleteRemoteNode node i = Some node'"
  then consider "node' = node" | r n1 n2 r' where "RemoveRemoteNode node i = Some n1" "DPS_ClearInboundInterests n1 r = Some (n2, r')"
      "node' = (case completion r' of Some c \<Rightarrow> detached_completion i c DPS_ERR_MISSING n2
        | None \<Rightarrow> if linkRequested r' \<and> linkLossCB n2 then emit (Link_Loss (addr (r_ep r'))) n2 else n2)"
    by (auto simp: DPS_DeleteRemoteNode_def bind_eq_Some_conv split: if_splits)
  then show "calm node node'"
  proof cases
    case 1
    then show ?thesis by simp
  next
    case 2
    have "calm node n1" using 2(1) by (auto simp: RemoveRemoteNode_def calm_def crowd_def same_pubs_def dest: unlink_length)
    also have "calm n1 n2" using 2(2) by (auto simp: DPS_ClearInboundInterests_def bind_eq_Some_conv calm_def crowd_def same_pubs_def)
    also have "calm n2 node'" unfolding 2(3) using d calm_emit by (simp split: option.split)
    finally show ?thesis .
  qed
qed

lemma delete_node_ok: "node_ok config node \<Longrightarrow> DPS_DeleteRemoteNode node i = Some node' \<Longrightarrow> node_ok config node'"
  using delete_step[of config node i] by auto

lemma sound_delete: "sound config held k node \<Longrightarrow> DPS_DeleteRemoteNode node i = Some node' \<Longrightarrow> sound config held k node'"
  by (rule soundI[OF delete_node_ok delete_calm]) (auto simp: sound_def)

lemma sound_send_complete: "sound config held k node \<Longrightarrow> DPS_SendComplete node a st = Some node' \<Longrightarrow> sound config held k node'"
  by (auto simp: DPS_SendComplete_def split: if_splits option.splits dest: sound_delete)

lemma sound_mute: 
  assumes "sound config held k node" "DPS_MuteRemoteNode node i st = Some (ret, node')"
  shows "sound config held k node'"
proof -
  obtain r where r: "deref_remote node i = Some r" using deref_of_mute[OF assms(2)] by blast
  have "calm node node'" using assms(2)
    by (auto simp: DPS_MuteRemoteNode_def RemoveRemoteNode_def InsertRemoteNode_def bind_eq_Some_conv calm_def crowd_def same_pubs_def split: if_splits dest: unlink_length)
  then show ?thesis using soundI mute_step[of config node i r st] r assms by (auto simp: sound_def)
qed

section \<open>Sending\<close>

text \<open>The serialization of a vector stores its count in it, and nothing else of a step touches it.\<close>

abbreviation contents :: "DPS_BitVector option \<Rightarrow> (u64 list \<times> nat) option" where
  "contents \<equiv> map_option (\<lambda>v. (bits v, bv_len v))"

definition keeps :: "Configuration \<Rightarrow> enc_step \<Rightarrow> bool" where
  "keeps config f \<longleftrightarrow> (\<forall>s ret s'. f s = Some (ret, s') \<longrightarrow> (\<forall>v. snd s = Some v \<longrightarrow> bv_ok (bitLen config) v) \<longrightarrow>
     (\<forall>v. snd s' = Some v \<longrightarrow> bv_ok (bitLen config) v) \<and> contents (snd s') = contents (snd s))"

lemma run_steps_keep:
  assumes "run_steps fs (ret, s) = Some (ret', s')" "\<forall>f \<in> set fs. keeps config f" "\<And>v. snd s = Some v \<Longrightarrow> bv_ok (bitLen config) v"
  shows "(\<forall>v. snd s' = Some v \<longrightarrow> bv_ok (bitLen config) v) \<and> contents (snd s') = contents (snd s)"
  using assms
proof (induction fs arbitrary: ret s)
  case (Cons f fs)
  show ?case
  proof (cases "ret = DPS_OK")
    case True
    then obtain r1 s1 where s1: "f s = Some (r1, s1)" "run_steps fs (r1, s1) = Some (ret', s')"
      using Cons.prems(1) by (auto simp: bind_eq_Some_conv)
    have "(\<forall>v. snd s1 = Some v \<longrightarrow> bv_ok (bitLen config) v) \<and> contents (snd s1) = contents (snd s)"
    proof -
      have "keeps config f" using Cons.prems(2) by simp
      then show ?thesis using s1(1) Cons.prems(3) unfolding keeps_def by meson
    qed
    then show ?thesis using Cons.IH[OF s1(2)] Cons.prems(2) by auto
  next
    case False
    then show ?thesis using Cons.prems by auto
  qed
qed auto

lemma keeps_enc: "keeps config (enc g)"
  by (auto simp: keeps_def enc_def split: prod.splits)

lemma keeps_uint: "keeps config (enc_uint n)" "keeps config (enc_key k)"
  by (simp_all add: enc_uint_def enc_key_def keeps_enc)

lemma keeps_needs: "keeps config (enc_needs n)"
  by (auto simp: keeps_def enc_needs_def enc_def split: prod.splits option.splits)

lemma keeps_interests: "keeps config enc_interests"
proof -
  have "bv_ok (bitLen config) v'" if "bv_ok (bitLen config) v" "DPS_BitVectorSerialize v b = Some (ret, v', b')" for v v' b b' ret
  proof -
    have "v' = snd (DPS_BitVectorLoadFactor v)"
      using that(2) by (auto simp: DPS_BitVectorSerialize_def split: prod.splits if_splits)
    moreover have "bv_wf (v\<lparr>popCount := c\<rparr>) \<longleftrightarrow> c < 0 \<or> c = int (card (bv_set v))" if "bv_wf v" for c
      using that by (auto simp: bv_wf_iff bv_set_def)
    ultimately show ?thesis using that(1) PopCount_ok[of v] by (auto simp: DPS_BitVectorLoadFactor_def bv_ok_def split: prod.splits)
  qed
  moreover have "bits v' = bits v \<and> bv_len v' = bv_len v" if "DPS_BitVectorSerialize v b = Some (ret, v', b')" for v v' b b' ret
    using Serialize_keeps[OF that] by (metis DPS_BitVector.select_convs(2,3) DPS_BitVector.surjective DPS_BitVector.update_convs(1))
  ultimately show ?thesis by (auto simp: keeps_def enc_interests_def split: option.splits)
qed

lemma all_keep:
  "f \<in> set (sub_steps a r m) \<Longrightarrow> keeps config f" "f \<in> set (sak_steps a r c m) \<Longrightarrow> keeps config f"
  by (auto simp: sub_steps_def sak_steps_def header_steps_def port_steps_def common_steps_def interest_steps_def path_steps_def empty_maps_def
      keeps_enc keeps_uint keeps_needs keeps_interests split: if_splits)

text \<open>\<open>put\<close> stores a vector where the one that was sent came from.\<close>

lemma sound_transmit:
  assumes t: "transmit malloc net len steps i remote put sent failed node = Some (ret, node')" and ok: "sound config held k node"
    and k: "\<And>f. f \<in> set steps \<Longrightarrow> keeps config f" and i: "\<And>v. i = Some v \<Longrightarrow> bv_ok (bitLen config) v"
    and put: "\<And>j r. deref_remote node remote = Some r \<Longrightarrow> (j = None \<longleftrightarrow> i = None) \<Longrightarrow> (\<And>v. j = Some v \<Longrightarrow> bv_ok (bitLen config) v) \<Longrightarrow> out_ok config r \<Longrightarrow>
      out_ok config (put j r)"
    and keep: "\<And>j r. in_interests (put j r) = in_interests r \<and> in_needs (put j r) = in_needs r"
      "\<And>r. in_interests (sent r) = in_interests r \<and> in_needs (sent r) = in_needs r \<and> out_interests (sent r) = out_interests r \<and>
        out_needs (sent r) = out_needs r \<and> out_delta (sent r) = out_delta r"
      "\<And>r. in_interests (failed r) = in_interests r \<and> in_needs (failed r) = in_needs r \<and> out_interests (failed r) = out_interests r \<and>
        out_needs (failed r) = out_needs r \<and> out_delta (failed r) = out_delta r"
  shows "sound config held k node'"
proof -
  obtain st buf where b: "DPS_TxBufferInit malloc None len = (st, buf)" by fastforce
  obtain r1 b1 j n1 where run: "run_steps steps (st, (buf, i)) = Some (r1, (b1, j))" and n1: "update_remote remote (put j) node = Some n1"
    using t b by (auto simp: transmit_def bind_eq_Some_conv)
  obtain r where r: "deref_remote node remote = Some r" using update_deref[OF n1] by blast
  have j: "(\<forall>v. j = Some v \<longrightarrow> bv_ok (bitLen config) v) \<and> (j = None \<longleftrightarrow> i = None)"
  proof -
    have "(\<forall>v. snd (b1, j) = Some v \<longrightarrow> bv_ok (bitLen config) v) \<and> contents (snd (b1, j)) = contents (snd (buf, i))"
      by (rule run_steps_keep[OF run]) (use k i in auto)
    then show ?thesis by (cases i; cases j) simp_all
  qed
  have d1: "deref_remote n1 remote = Some (put j r)" using deref_update[OF n1, of remote] r by simp
  have s1: "sound config held k n1"
  proof -
    have ok': "node_ok config node" and inv: "node_inv config node" using ok by (auto simp: sound_def node_ok_def)
    obtain xs ys where s: "remoteNodes node = xs @ (remote, r) # ys" "remote \<notin> fst ` set (xs @ ys)"
      using remote_split[OF _ r] inv by (auto simp: node_inv_def)
    have u: "update_remote remote (\<lambda>_. put j r) node = Some n1" using update_split[OF s] n1 by simp
    have "node_inv config n1" using node_inv_update[OF inv r, of "put j r"] keep(1) u by auto
    moreover have "out_ok config (put j r)" using put[OF r] j out_okD[OF ok' r] by blast
    ultimately have "node_ok config n1" using update_set[OF u] ok' by (auto simp: node_ok_def)
    then show ?thesis using soundI update_calm[OF n1] ok by blast
  qed
  have s2: "sound config held k n2" if "update_remote remote sent n1 = Some n2" for n2
    by (rule sound_update[OF s1 that]) (use keep(2) out_ok_cong[of "sent r" r config for r] in simp_all)
  have s3: "sound config held k n2" if "update_remote remote failed n1 = Some n2" for n2
    by (rule sound_update[OF s1 that]) (use keep(3) out_ok_cong[of "failed r" r config for r] in simp_all)
  show ?thesis
  proof (cases "r1 = DPS_OK \<and> net n1 (r_ep (put j r)) (tx_out b1) \<noteq> DPS_OK")
    case False
    then consider "node' = n1" | n2 e where "update_remote remote sent n1 = Some n2" "node' = emit e n2"
      using t b run n1 d1 by (auto simp: transmit_def Let_def bind_eq_Some_conv split: if_splits)
    then show ?thesis
    proof cases
      case 1
      then show ?thesis using s1 by simp
    next
      case 2
      then show ?thesis using s2[OF 2(1)] by simp
    qed
  next
    case True
    then obtain n2 where n2: "update_remote remote failed n1 = Some n2"
      "DPS_SendComplete n2 (Some (addr (r_ep (put j r)))) (net n1 (r_ep (put j r)) (tx_out b1)) = Some node'"
      using t b run n1 d1 by (auto simp: transmit_def Let_def bind_eq_Some_conv)
    show ?thesis using sound_send_complete[OF s3[OF n2(1)] n2(2)] .
  qed
qed


lemma put_interests_ok:
  assumes "out_ok config r" "j = None \<longleftrightarrow> i = None" "\<And>v. j = Some v \<Longrightarrow> bv_ok (bitLen config) v"
    and "i = (if deltaInd r then out_delta r else out_interests r)"
  shows "out_ok config (put_interests j r)"
  using assms by (auto simp: out_ok_def put_interests_def)

lemma put_keeps [simp]: "in_interests (put_interests j r) = in_interests r" "in_needs (put_interests j r) = in_needs r"
  by (simp_all add: put_interests_def)

lemma sound_send_sub:
  assumes "sound config held k node" "send_sub env node remote = Some (ret, node')"
  shows "sound config held k node'"
proof (cases "netCtx node")
  case False
  then show ?thesis using assms by (auto simp: send_sub_def DPS_SendSubscription_def bind_eq_Some_conv split: if_splits)
next
  case True
  obtain r where r: "deref_remote node remote = Some r" using assms(2) by (auto simp: send_sub_def DPS_SendSubscription_def bind_eq_Some_conv)
  have o: "out_ok config r" using assms(1) r out_okD by (auto simp: sound_def)
  let ?steps = "sub_steps (n_addr node) r (DPS_MinMeshId node (Some remote))"
  consider "node' = node" | len where
      "transmit (e_malloc env) (e_net env) len ?steps (sub_interests r) remote sub_put sub_sent sub_failed node = Some (ret, node')"
    using assms(2) r True by (auto simp: send_sub_def DPS_SendSubscription_def bind_eq_Some_conv split: if_splits option.splits)
  then show ?thesis
  proof cases
    case 1
    then show ?thesis using assms(1) by simp
  next
    case 2
    show ?thesis
    proof (rule sound_transmit[OF 2 assms(1)])
      show "keeps config f" if "f \<in> set ?steps" for f using all_keep(1) that by blast
      show "bv_ok (bitLen config) v" if "sub_interests r = Some v" for v
        using o that by (auto simp: sub_interests_def out_ok_def split: if_splits)
      show "out_ok config (sub_put j q)" if "deref_remote node remote = Some q" "j = None \<longleftrightarrow> sub_interests r = None"
        "\<And>v. j = Some v \<Longrightarrow> bv_ok (bitLen config) v" "out_ok config q" for j q
        using that r put_interests_ok[OF that(4,2,3)] by (auto simp: sub_put_def sub_interests_def)
    qed (simp_all add: sub_put_def sub_sent_def sub_failed_def)
  qed
qed

lemma sound_send_sak:
  assumes "sound config held k node" "send_sak env node remote collision = Some (ret, node')"
  shows "sound config held k node'"
proof (cases "netCtx node")
  case False
  then show ?thesis using assms by (auto simp: send_sak_def DPS_SendSubscriptionAck_def bind_eq_Some_conv split: if_splits)
next
  case True
  obtain r where r: "deref_remote node remote = Some r" using assms(2) by (auto simp: send_sak_def DPS_SendSubscriptionAck_def bind_eq_Some_conv)
  obtain n1 where n1: "update_remote remote sak_remote node = Some n1"
    using assms(2) r True by (auto simp: send_sak_def DPS_SendSubscriptionAck_def bind_eq_Some_conv)
  have s1: "sound config held k n1" using sound_update[OF assms(1) n1] by (auto simp: sak_remote_def out_ok_def)
  have r1: "deref_remote n1 remote = Some (sak_remote r)" using deref_update[OF n1, of remote] r by simp
  have o: "out_ok config r" using assms(1) r out_okD by (auto simp: sound_def)
  let ?steps = "sak_steps (n_addr n1) r collision (DPS_MinMeshId n1 (Some remote))"
  let ?w = "sak_with_interests r collision"
  consider "node' = n1" | len where
      "transmit (e_malloc env) (e_net env) len ?steps (sak_interests r collision) remote (\<lambda>i. if ?w then put_interests i else id)
        (sak_sent ?w) sak_failed n1 = Some (ret, node')"
    using assms(2) r True n1
    by (auto simp: send_sak_def DPS_SendSubscriptionAck_def bind_eq_Some_conv Let_def split: if_splits option.splits)
  then show ?thesis
  proof cases
    case 1
    then show ?thesis using s1 by simp
  next
    case 2
    show ?thesis
    proof (rule sound_transmit[OF 2 s1])
      show "keeps config f" if "f \<in> set ?steps" for f using all_keep(2) that by blast
      show "bv_ok (bitLen config) v" if "sak_interests r collision = Some v" for v
        using o that by (auto simp: sak_interests_def out_ok_def split: if_splits)
      show "out_ok config ((if ?w then put_interests j else id) q)" if "deref_remote n1 remote = Some q" "j = None \<longleftrightarrow> sak_interests r collision = None"
        "\<And>v. j = Some v \<Longrightarrow> bv_ok (bitLen config) v" "out_ok config q" for j q
      proof -
        have "deltaInd q = deltaInd r" "out_delta q = out_delta r" "out_interests q = out_interests r"
          using that(1) r1 by (auto simp: sak_remote_def split: if_splits)
        then show ?thesis using that(4) put_interests_ok[OF that(4,2,3)] by (auto simp: sak_interests_def)
      qed
    qed (simp_all add: sak_sent_def sak_failed_def)
  qed
qed


section \<open>Announcing and unmuting\<close>

lemma sound_update_outbound:
  assumes "sound config held k node" "config_ok config" "e_config env = config" "update_outbound env node remote = Some (ret, changes, node')"
  shows "sound config held k node'"
proof -
  obtain r n1 r' where r: "deref_remote node remote = Some r"
    "DPS_UpdateOutboundInterests (e_ndebug env) config (e_mem env) node r = Some (ret, changes, n1, r')"
    "update_remote remote (\<lambda>_. r') n1 = Some node'"
    using assms(3,4) by (auto simp: update_outbound_def bind_eq_Some_conv)
  have ok: "node_ok config node" using assms(1) by (simp add: sound_def)
  have inv: "node_inv config node" using ok by (simp add: node_ok_def)
  obtain cv cw where "n1 = node\<lparr>n_interests := cv, n_needs := cw\<rparr>"
    using outbound_keeps[OF inv r(1) out_okD[OF ok r(1)] assms(2) r(2)] by blast
  then have "calm node n1" by (simp add: calm_def crowd_def same_pubs_def)
  also have "calm n1 node'" using update_calm[OF r(3)] .
  finally show ?thesis using soundI[OF _ _ assms(1)] outbound_step[OF ok assms(2) r(1,2)] r(3) by auto
qed

lemma sound_clear_outbound:
  assumes "sound config held k node" "config_ok config" "e_config env = config" "clear_outbound env node remote = Some (ret, node')"
  shows "sound config held k node'"
proof -
  obtain r where d: "deref_remote node remote = Some r" using assms(4) by (auto simp: clear_outbound_def bind_eq_Some_conv)
  obtain st r' where c: "DPS_ClearOutboundInterests config (e_mem env 3) (e_mem env 4) r = (st, r')" by fastforce
  have u: "update_remote remote (\<lambda>_. r') node = Some node'" using assms(3,4) d c by (auto simp: clear_outbound_def bind_eq_Some_conv)
  have ok: "node_ok config node" using assms(1) by (simp add: sound_def)
  show ?thesis using soundI[OF clear_outbound_step[OF ok assms(2) d c u] update_calm[OF u] assms(1)] .
qed

text \<open>A change that the vectors of a remote node do not notice\<close>

definition plain :: "(RemoteNode \<Rightarrow> RemoteNode) \<Rightarrow> bool" where
  "plain f \<longleftrightarrow> (\<forall>r. in_interests (f r) = in_interests r \<and> in_needs (f r) = in_needs r \<and> out_interests (f r) = out_interests r \<and>
     out_needs (f r) = out_needs r \<and> out_delta (f r) = out_delta r)"

lemma sound_plain:
  assumes "sound config held k node" "update_remote remote f node = Some node'" "plain f"
  shows "sound config held k node'"
  by (rule sound_update[OF assms(1,2)]) (use assms(3) out_ok_cong[of "f r" r config for r] in \<open>simp_all add: plain_def\<close>)

lemma sound_unmute:
  assumes "sound config held k node" "config_ok config" "e_config env = config" "DPS_UnmuteRemoteNode env node remote = Some (ret, node')"
  shows "sound config held k node'"
proof -
  obtain r where r: "deref_remote node remote = Some r" using assms(4) by (auto simp: DPS_UnmuteRemoteNode_def bind_eq_Some_conv)
  define m e where "m n = fst (DPS_RandUUIDLess (DPS_MinMeshId n None) (n_entropy n))"
    and "e n = snd (DPS_RandUUIDLess (DPS_MinMeshId n None) (n_entropy n))" for n
  then have me: "DPS_RandUUIDLess (DPS_MinMeshId n None) (n_entropy n) = (m n, e n)" for n by simp
  show ?thesis
  proof (cases "r_state r = REMOTE_MUTED \<or> r_state r = REMOTE_UNMUTING")
    case False
    then show ?thesis using assms(1,4) r by (simp add: DPS_UnmuteRemoteNode_def)
  next
    case True
    obtain n1 where n1: "update_remote remote (\<lambda>r. r\<lparr>r_state := REMOTE_UNMUTING, sakCounter := 0\<rparr>) node = Some n1"
      using assms(4) r True by (auto simp: DPS_UnmuteRemoteNode_def bind_eq_Some_conv)
    obtain st1 n2 st2 ch n3 where n2: "clear_outbound env (n1\<lparr>meshId := m n1, n_entropy := e n1\<rparr>) remote = Some (st1, n2)"
      "update_outbound env n2 remote = Some (st2, ch, n3)" "if st2 = DPS_OK then send_sub env n3 remote = Some (ret, node') else node' = n3"
      using assms(4) r True n1 me by (auto simp: DPS_UnmuteRemoteNode_def bind_eq_Some_conv split: if_splits)
    have s1: "sound config held k n1" using sound_plain[OF assms(1) n1] by (simp add: plain_def)
    have "sound config held k n3"
      using sound_update_outbound[OF sound_clear_outbound[OF _ assms(2,3) n2(1)] assms(2,3) n2(2)] s1 by simp
    then show ?thesis using n2(3) sound_send_sub by (auto split: if_splits)
  qed
qed

section \<open>Received messages\<close>

lemma sound_unlink_remote:
  assumes "sound config held k node" "UnlinkRemote env node a revision = Some (ret, node')"
  shows "sound config held k node'"
proof (cases "DPS_LookupRemoteNode node (Some a)")
  case None
  then show ?thesis using assms by (simp add: UnlinkRemote_def)
next
  case (Some remote)
  obtain n1 st n2 n3 n4 where n: "update_remote remote (\<lambda>r. r\<lparr>sendInterests := False, in_revision := revision\<rparr>) node = Some n1"
    "send_sak env n1 remote False = Some (st, n2)" "update_remote remote (\<lambda>r. r\<lparr>linkRequested := False\<rparr>) n2 = Some n3"
    "DPS_DeleteRemoteNode n3 remote = Some n4" "node' = DPS_UpdateSubs n4 SubsSendNow"
    using assms(2) Some by (auto simp: UnlinkRemote_def bind_eq_Some_conv)
  have "sound config held k n1" using sound_plain[OF assms(1) n(1)] by (simp add: plain_def)
  then have "sound config held k n3" using sound_plain[OF sound_send_sak[OF _ n(2)] n(3)] by (simp add: plain_def)
  then show ?thesis using sound_delete[OF _ n(4)] n(5) by simp
qed

lemma sound_discard:
  "sound config held k node \<Longrightarrow> discard_message ret node remote = Some (ret', node') \<Longrightarrow> sound config held k node'"
  by (auto simp: discard_message_def bind_eq_Some_conv split: if_splits intro: sound_delete)

lemma sound_add:
  assumes "sound config held k node" "DPS_AddRemoteNode mem node a conn = Some (ret, remote, node')"
  shows "sound config held (k + 1) node'"
proof -
  have "node_ok config node'" using connect_ok[of config node a mem conn] assms by (auto simp: sound_def)
  moreover have "same_pubs node node' \<and> crowd node' \<le> crowd node + 1"
  proof (cases "DPS_LookupRemoteNode node (Some a)")
    case None
    then show ?thesis using assms(2)
      by (auto simp: DPS_AddRemoteNode_def Let_def InsertRemoteNode_def same_pubs_def crowd_def split: if_splits)
  next
    case (Some i)
    then obtain f where "update_remote i f node = Some node'" using assms(2) by (auto simp: DPS_AddRemoteNode_def bind_eq_Some_conv)
    from update_calm[OF this] show ?thesis by (simp add: calm_def)
  qed
  ultimately show ?thesis using assms(1) pubs_ok_cong[of node node'] by (auto simp: sound_def)
qed

lemma sound_sender:
  assumes "sound config held k node" "config_ok config" "e_config env = config" "sub_sender env node ep = Some (ret, remote, collision, node')"
  shows "sound config held (k + 1) node'"
proof -
  obtain st i n1 where n1: "DPS_AddRemoteNode (e_mem env 5) node (addr ep) (cn ep) = Some (st, Some i, n1)"
    "if st = DPS_ERR_EXISTS then node' = n1 else clear_outbound env n1 i = Some (ret, node')"
    using assms(4) by (auto simp: sub_sender_def bind_eq_Some_conv split: if_splits)
  have "sound config held (k + 1) n1" using sound_add[OF assms(1) n1(1)] .
  then show ?thesis using n1(2) sound_clear_outbound[OF _ assms(2,3)] by (auto split: if_splits)
qed

lemma sound_check_mute:
  assumes "sound config held k node" "config_ok config" "e_config env = config" "check_mute env isSak f node remote = Some (ret, node')"
  shows "sound config held k node'"
proof -
  consider "node' = node" | "DPS_UnmuteRemoteNode env node remote = Some (ret, node')" | "DPS_MuteRemoteNode node remote REMOTE_MUTED = Some (ret, node')"
    using assms(4) by (auto simp: check_mute_def bind_eq_Some_conv split: if_splits)
  then show ?thesis
    using assms(1) sound_unmute[OF assms(1-3)] sound_mute[OF assms(1)] by cases auto
qed


text \<open>
  The vectors of a message. A vector that was received in complemented form has a wrong count, see
  \<open>complement_unknown_count\<close> in \<open>Bit_Vector\<close>; it is not covered here.
\<close>

definition received_ok :: "Configuration \<Rightarrow> SubFields \<Rightarrow> bool" where
  "received_ok config f \<longleftrightarrow> (\<forall>v. f_interests f = Some v \<longrightarrow> bv_ok (bitLen config) v) \<and> (\<forall>w. f_needs f = Some w \<longrightarrow> bv_ok FH_BITVECTOR_LEN w)"

lemma sound_UpdatePubs:
  assumes "sound config held k node" "DPS_UpdatePubs node = Some node'"
  shows "sound config held k node'"
proof -
  have "pubs_ok {} (\<lambda>_. 0) held node'" "sans_pubs node' = sans_pubs node"
    using UpdatePubs_ok[of "{}" "\<lambda>_. 0" held node] assms by (auto simp: sound_def)
  then show ?thesis using assms(1) node_ok_rest[of node' node config] sans_pubsD(1,2)[of node' node] by (simp add: sound_def crowd_def)
qed

lemma sound_store_interests:
  assumes "sound config held k node" "k < CV_MAX" "received_ok config f" "store_interests dup f node remote = Some node'"
  shows "sound config held k node'"
proof (cases dup)
  case True
  then show ?thesis using assms(1,4) by (simp add: store_interests_def)
next
  case False
  obtain r i n st n1 r' n2 where s: "deref_remote node remote = Some r" "f_interests f = Some i" "f_needs f = Some n"
    "UpdateInboundInterests node r i n (sub_flag DPS_SUB_FLAG_DELTA_IND f) = Some (st, n1, r')"
    "update_remote remote (\<lambda>_. r') n1 = Some n2" "DPS_UpdatePubs n2 = Some node'"
    using assms(4) False by (auto simp: store_interests_def bind_eq_Some_conv)
  have ok: "node_ok config node" and inv: "node_inv config node" using assms(1) by (auto simp: sound_def node_ok_def)
  have v: "bv_ok (bitLen config) i" "bv_ok FH_BITVECTOR_LEN n" using assms(3) s(2,3) by (auto simp: received_ok_def)
  have room: "room node" using sound_room assms(1,2) .
  obtain cv cw where "n1 = node\<lparr>n_interests := cv, n_needs := cw\<rparr>"
    using update_inbound_ok[OF inv s(1) v, of "sub_flag DPS_SUB_FLAG_DELTA_IND f"] room_others[OF room, of remote] s(4) by force
  then have "calm node n1" by (simp add: calm_def crowd_def same_pubs_def)
  also have "calm n1 n2" using update_calm[OF s(5)] .
  finally have "sound config held k n2" using soundI[OF _ _ assms(1)] inbound_step[OF ok room s(1) v, of "sub_flag DPS_SUB_FLAG_DELTA_IND f"] s(4,5) by auto
  then show ?thesis using sound_UpdatePubs s(6) by blast
qed

lemma sound_first_interests:
  assumes "sound config held k node" "config_ok config" "e_config env = config" "first_interests env dup node remote = Some node'"
  shows "sound config held k node'"
proof -
  consider "node' = node" | changes n1 where "update_outbound env node remote = Some (DPS_OK, changes, n1)"
      "update_remote remote (\<lambda>r. r\<lparr>sendInterests := changes\<rparr>) n1 = Some node'"
    using assms(4) by (auto simp: first_interests_def bind_eq_Some_conv split: if_splits)
  then show ?thesis
  proof cases
    case 2
    show ?thesis using sound_plain[OF sound_update_outbound[OF assms(1-3) 2(1)] 2(2)] by (simp add: plain_def)
  qed (simp add: assms(1))
qed

lemma sound_accept:
  assumes "sound config held k node" "k < CV_MAX" "config_ok config" "e_config env = config" "received_ok config f"
    and "accept_message env isSak f collision node remote = Some (ret, node')"
  shows "sound config held k node'"
proof -
  obtain r where r: "deref_remote node remote = Some r" using assms(6) by (auto simp: accept_message_def bind_eq_Some_conv)
  show ?thesis
  proof (cases "f_revision f < in_revision r")
    case True
    then show ?thesis using assms(1,6) r sound_discard by (auto simp: accept_message_def)
  next
    case False
    obtain n1 st n2 where n: "update_remote remote (\<lambda>r. r\<lparr>in_revision := f_revision f\<rparr>) node = Some n1"
      "check_mute env isSak f n1 remote = Some (st, n2)"
      using assms(6) r False by (auto simp: accept_message_def bind_eq_Some_conv)
    have "sound config held k n1" using sound_plain[OF assms(1) n(1)] by (simp add: plain_def)
    then have s2: "sound config held k n2" using sound_check_mute[OF _ assms(3,4) n(2)] by blast
    consider x where "discard_message x n2 remote = Some (ret, node')"
      | n3 n4 n5 where "store_interests (in_revision r = f_revision f) f n2 remote = Some n3"
        "first_interests env (in_revision r = f_revision f) n3 remote = Some n4"
        "send_sak env n4 remote collision = Some (ret, n5)" "update_remote remote
          (\<lambda>r. r\<lparr>in_meshId := f_mesh f, r_state := (if r_state r = REMOTE_NEW then REMOTE_ACTIVE else r_state r)\<rparr>) n5 = Some node'"
      | n3 where "update_remote remote (\<lambda>r. r\<lparr>lastSubMsgType := 0\<rparr>) n2 = Some n3" "update_remote remote
          (\<lambda>r. r\<lparr>in_meshId := f_mesh f, r_state := (if r_state r = REMOTE_NEW then REMOTE_ACTIVE else r_state r)\<rparr>) n3 = Some node'"
      using assms(6) r False n by (auto simp: accept_message_def bind_eq_Some_conv split: if_splits)
    then show ?thesis
    proof cases
      case 1
      then show ?thesis using s2 sound_discard by blast
    next
      case 2
      have "sound config held k n5"
        using sound_send_sak[OF sound_first_interests[OF sound_store_interests[OF s2 assms(2,5) 2(1)] assms(3,4) 2(2)] 2(3)] .
      then show ?thesis using sound_plain[OF _ 2(4)] by (simp add: plain_def)
    next
      case 3
      show ?thesis using sound_plain[OF sound_plain[OF s2 3(1)] 3(2)] by (simp add: plain_def)
    qed
  qed
qed

lemma sound_handle:
  assumes "sound config held k node" "k + 1 < CV_MAX" "config_ok config" "e_config env = config" "received_ok config f"
    and "handle_message env isSak f ep node = Some (ret, node')"
  shows "sound config held (k + 1) node'"
proof -
  have m: "sound config held (k + 1) node" using sound_mono[OF assms(1)] by simp
  show ?thesis
  proof (cases "isSak \<or> sub_flag DPS_SUB_FLAG_UNLINK_IND f")
    case True
    then consider "node' = node" | i where "accept_message env isSak f False node i = Some (ret, node')"
      | "UnlinkRemote env node (addr ep) (f_revision f) = Some (ret, node')"
      using assms(6) by (cases isSak) (auto simp: handle_message_def split: option.splits)
    then show ?thesis using m
    proof cases
      case 2
      show ?thesis using sound_accept[OF m assms(2-5) 2] .
    next
      case 3
      show ?thesis using sound_unlink_remote[OF m 3] .
    qed simp
  next
    case False
    obtain st i c n1 where n: "sub_sender env node ep = Some (st, i, c, n1)"
      "(if st \<noteq> DPS_OK then discard_message st n1 i else accept_message env isSak f c n1 i) = Some (ret, node')"
      using assms(6) False by (auto simp: handle_message_def bind_eq_Some_conv)
    have "sound config held (k + 1) n1" using sound_sender[OF assms(1,3,4) n(1)] .
    then show ?thesis using n(2) sound_accept[OF _ assms(2-5)] sound_discard by (metis (full_types))
  qed
qed


section \<open>Linking, completions and the timer\<close>

lemma sound_call [simp]:
  "sound config held k (call_completion c st node) \<longleftrightarrow> sound config held k node"
  "sound config held k (cancel_request remote node) \<longleftrightarrow> sound config held k node"
  "sound config held k (OnShutdown node) \<longleftrightarrow> sound config held k node"
  by (simp_all add: call_completion_def cancel_request_def OnShutdown_def)

lemma sound_unlink:
  assumes "sound config held k node" "Unlink mem sd node remote = Some (ret, node')"
  shows "sound config held k node'"
proof -
  obtain r where r: "deref_remote node remote = Some r" using assms(2) by (auto simp: Unlink_def bind_eq_Some_conv)
  consider "node' = node" | f where "update_remote remote f node = Some node'" "plain f"
    | f g n1 n2 where "update_remote remote f node = Some n1" "plain f" "update_remote remote g n1 = Some n2" "plain g"
      "node' = DPS_UpdateSubs n2 SubsSendNow"
    using assms(2) r by (auto simp: Unlink_def bind_eq_Some_conv plain_def split: if_splits)
  then show ?thesis
  proof cases
    case 2
    show ?thesis using sound_plain[OF assms(1) 2] .
  next
    case 3
    show ?thesis using sound_plain[OF sound_plain[OF assms(1) 3(1,2)] 3(3,4)] 3(5) by simp
  qed (simp add: assms(1))
qed

lemma sound_finish:
  assumes "sound config held k node" "finish_completion mem node remote c st = Some node'"
  shows "sound config held k node'"
proof -
  obtain r where r: "deref_remote node remote = Some r" "completion r = Some c"
    using assms(2) by (auto simp: finish_completion_def bind_eq_Some_conv split: if_splits)
  obtain n1 n2 where n: "update_remote remote (\<lambda>r. r\<lparr>completion := None\<rparr>) node = Some n1"
    "(if st \<noteq> DPS_OK \<and> st \<noteq> DPS_ERR_EXISTS then DPS_DeleteRemoteNode n1 remote else Some n1) = Some n2"
    using assms(2) r by (auto simp: finish_completion_def bind_eq_Some_conv)
  have "sound config held k n1" using sound_plain[OF assms(1) n(1)] by (simp add: plain_def)
  then have s2: "sound config held k n2" using n(2) sound_delete[of config held k n1 remote n2] by (cases "st \<noteq> DPS_OK \<and> st \<noteq> DPS_ERR_EXISTS") auto
  let ?n = "call_completion c st (cancel_request remote n2)"
  consider "node' = ?n" | "node' = OnShutdown ?n" | x where "Unlink mem True ?n remote = Some (x, node')"
    | x n3 n4 where "Unlink mem True ?n remote = Some (x, n3)" "DPS_DeleteRemoteNode n3 remote = Some n4" "node' = OnShutdown n4"
    using assms(2) n r by (simp add: finish_completion_def bind_eq_Some_conv Let_def split del: if_split)
      (auto simp: bind_eq_Some_conv split: if_splits)
  then show ?thesis
  proof cases
    case 3
    show ?thesis using sound_unlink[OF _ 3] s2 by simp
  next
    case 4
    show ?thesis using sound_delete[OF sound_unlink[OF _ 4(1)] 4(2)] s2 4(3) by simp
  qed (use s2 in simp_all)
qed

lemma sound_completion:
  assumes "sound config held k node" "config_ok config" "e_config env = config" "DPS_RemoteCompletion env node remote c st = Some node'"
  shows "sound config held k node'"
proof -
  obtain r where r: "deref_remote node remote = Some r" using assms(4) by (auto simp: DPS_RemoteCompletion_def bind_eq_Some_conv)
  show ?thesis
  proof (cases "c_op c = UNLINK_OP \<and> r_state r \<noteq> REMOTE_UNLINKING")
    case False
    then consider x where "finish_completion (e_mem env 8) node remote c x = Some node'"
      | f n1 where "update_remote remote f node = Some n1" "plain f" "finish_completion (e_mem env 8) n1 remote c st = Some node'"
      using assms(4) r by (cases "c_op c") (auto simp: DPS_RemoteCompletion_def bind_eq_Some_conv plain_def split: if_splits)
    then show ?thesis
    proof cases
      case 1
      show ?thesis using sound_finish[OF assms(1) 1] .
    next
      case 2
      show ?thesis using sound_finish[OF sound_plain[OF assms(1) 2(1,2)] 2(3)] .
    qed
  next
    case True
    obtain n1 x1 ch n2 x2 n3 where n: "update_remote remote (\<lambda>r. r\<lparr>r_state := REMOTE_UNLINKING\<rparr>) node = Some n1"
      "update_outbound env n1 remote = Some (x1, ch, n2)" "send_sub env n2 remote = Some (x2, n3)"
      "if x2 = DPS_OK then node' = n3 else finish_completion (e_mem env 8) n3 remote c DPS_ERR_MISSING = Some node'"
      using assms(4) r True by (auto simp: DPS_RemoteCompletion_def bind_eq_Some_conv split: if_splits)
    have "sound config held k n1" using sound_plain[OF assms(1) n(1)] by (simp add: plain_def)
    then have "sound config held k n3" using sound_send_sub[OF sound_update_outbound[OF _ assms(2,3) n(2)] n(3)] by simp
    then show ?thesis using n(4) sound_finish[of config held k n3] by (cases "x2 = DPS_OK") auto
  qed
qed

lemma sound_link_exists:
  assumes "sound config held k node" "config_ok config" "e_config env = config" "LinkExists env node remote = Some node'"
  shows "sound config held k node'"
proof -
  consider c where "DPS_RemoteCompletion env node remote c DPS_ERR_EXISTS = Some node'"
    | c n1 where "update_remote remote (\<lambda>r. r\<lparr>linkRequested := True\<rparr>) node = Some n1" "DPS_RemoteCompletion env n1 remote c DPS_OK = Some node'"
    using assms(4) by (auto simp: LinkExists_def bind_eq_Some_conv split: if_splits)
  then show ?thesis
  proof cases
    case 1
    show ?thesis using sound_completion[OF assms(1-3) 1] .
  next
    case 2
    have "sound config held k n1" using sound_plain[OF assms(1) 2(1)] by (simp add: plain_def)
    then show ?thesis using sound_completion[OF _ assms(2,3) 2(2)] by blast
  qed
qed

lemma sound_requests:
  assumes "sound config held k node" "config_ok config" "e_config env = config" "RunRequestsTask env n node = Some node'"
  shows "sound config held k node'"
  using assms(1,4)
proof (induction n arbitrary: node)
  case 0
  then show ?case by (simp add: RunRequestsTask.simps split: list.splits)
next
  case (Suc n)
  show ?case
  proof (cases "requestQueue node")
    case Nil
    then show ?thesis using Suc.prems by (simp add: RunRequestsTask.simps)
  next
    case (Cons req queue)
    let ?n = "node\<lparr>requestQueue := queue\<rparr>"
    obtain n1 where n1: "(case req of Link_Exists remote \<Rightarrow> LinkExists env ?n remote | Shutdown_Request \<Rightarrow> Some (OnShutdown ?n)) = Some n1"
      "RunRequestsTask env n n1 = Some node'"
      using Suc.prems(2) Cons by (subst (asm) RunRequestsTask.simps) (auto simp: bind_eq_Some_conv Let_def)
    have s: "sound config held k ?n" using Suc.prems(1) by simp
    have "sound config held k n1"
    proof (cases req)
      case (Link_Exists i)
      show ?thesis using sound_link_exists[OF s assms(2,3)] n1(1) Link_Exists by simp
    next
      case Shutdown_Request
      then show ?thesis using n1(1) s by auto
    qed
    then show ?thesis using Suc.IH n1(2) by blast
  qed
qed


lemma sound_decode:
  assumes "sound config held k node" "k + 1 < CV_MAX" "config_ok config" "e_config env = config"
    and f: "\<And>ret f ep' b. decode_sub_fields (e_ndebug env) config (e_mem env 6) (e_mem env 7) transport mesh isSak ep buf = Some (ret, f, ep', b) \<Longrightarrow> received_ok config f"
    and "DecodeSubscription env transport mesh isSak node ep buf = Some (ret, ack, node', ep')"
  shows "sound config held (k + 1) node'"
proof -
  have m: "sound config held (k + 1) node" using sound_mono[OF assms(1)] by simp
  obtain st f ep1 b where d: "decode_sub_fields (e_ndebug env) config (e_mem env 6) (e_mem env 7) transport mesh isSak ep buf = Some (st, f, ep1, b)"
    using assms(4,6) by (auto simp: DecodeSubscription_def bind_eq_Some_conv)
  then have "node' = node \<or> handle_message env isSak f ep1 node = Some (ret, node')"
    using assms(4,6) by (auto simp: DecodeSubscription_def bind_eq_Some_conv split: if_splits)
  then show ?thesis using m sound_handle[OF assms(1-4) f[OF d]] by blast
qed

lemma sound_pending:
  assumes "sound config held k node" "config_ok config" "e_config env = config" "complete_pending env node remote = Some node'"
  shows "sound config held k node'"
proof -
  consider "node' = node" | c where "DPS_RemoteCompletion env node remote c DPS_OK = Some node'"
    using assms(4) by (auto simp: complete_pending_def bind_eq_Some_conv split: option.splits)
  then show ?thesis using sound_completion[OF assms(1-3)] assms(1) by cases auto
qed

lemma sound_sub:
  assumes "sound config held k node" "k + 1 < CV_MAX" "config_ok config" "e_config env = config"
    and f: "\<And>ret f ep' b. decode_sub_fields (e_ndebug env) config (e_mem env 6) (e_mem env 7) transport mesh False ep buf = Some (ret, f, ep', b) \<Longrightarrow> received_ok config f"
    and "DPS_DecodeSubscription env transport mesh node ep buf = Some (ret, node')"
  shows "sound config held (k + 1) node'"
proof -
  obtain st ack n1 ep1 where d: "DecodeSubscription env transport mesh False node ep buf = Some (st, ack, n1, ep1)"
    using assms(6) by (auto simp: DPS_DecodeSubscription_def bind_eq_Some_conv)
  define n2 where "n2 = (if st = DPS_OK then DPS_UpdateSubs n1 SubsThrottled else n1)"
  have s2: "sound config held (k + 1) n2" using sound_decode[OF assms(1-4) f d] by (simp add: n2_def)
  have "(case DPS_LookupRemoteNode n2 (Some (addr ep1)) of None \<Rightarrow> Some (st, n2)
      | Some remote \<Rightarrow> do { r \<leftarrow> deref_remote n2 remote;
          node \<leftarrow> (if sakPending r then Some n2 else complete_pending env n2 remote); Some (st, node) }) = Some (ret, node')"
    unfolding n2_def using assms(6) d by (simp add: DPS_DecodeSubscription_def Let_def split del: if_split)
  then have "node' = n2 \<or> (\<exists>i. complete_pending env n2 i = Some node')"
    by (auto simp: bind_eq_Some_conv split: option.splits if_splits)
  then show ?thesis using s2 sound_pending[OF s2 assms(3,4)] by blast
qed

lemma sound_sak:
  assumes "sound config held k node" "k + 1 < CV_MAX" "config_ok config" "e_config env = config"
    and f: "\<And>ret f ep' b. decode_sub_fields (e_ndebug env) config (e_mem env 6) (e_mem env 7) transport mesh True ep buf = Some (ret, f, ep', b) \<Longrightarrow> received_ok config f"
    and "DPS_DecodeSubscriptionAck env transport mesh node ep buf = Some (ret, node')"
  shows "sound config held (k + 1) node'"
proof -
  obtain st ack n1 ep1 where d: "DecodeSubscription env transport mesh True node ep buf = Some (st, ack, n1, ep1)"
    using assms(6) by (auto simp: DPS_DecodeSubscriptionAck_def bind_eq_Some_conv)
  have s1: "sound config held (k + 1) n1" using sound_decode[OF assms(1-4) f d] .
  consider "node' = n1" | i n2 where "update_remote i acknowledged n1 = Some n2" "complete_pending env n2 i = Some node'"
    using assms(6) d by (auto simp: DPS_DecodeSubscriptionAck_def bind_eq_Some_conv split: option.splits if_splits)
  then show ?thesis
  proof cases
    case 2
    have "sound config held (k + 1) n2" using sound_plain[OF s1 2(1)] by (simp add: plain_def acknowledged_def)
    then show ?thesis using sound_pending[OF _ assms(3,4) 2(2)] by blast
  qed (use s1 in simp)
qed

lemma sound_sub_complete:
  assumes "sound config held k node" "DPS_OnSendSubscriptionComplete node ep st = Some node'"
  shows "sound config held k node'"
proof -
  show ?thesis
  proof (cases "case ep of None \<Rightarrow> None | Some ep \<Rightarrow> DPS_LookupRemoteNode node (Some (addr ep))")
    case None
    then show ?thesis using assms by (simp add: DPS_OnSendSubscriptionComplete_def split: option.splits)
  next
    case (Some i)
    show ?thesis
    proof (cases "st = DPS_OK")
      case True
      then show ?thesis using assms Some
        by (simp add: DPS_OnSendSubscriptionComplete_def bind_eq_Some_conv split: option.splits if_splits) auto
    next
      case False
      then have "DPS_DeleteRemoteNode node i = Some node'" using assms(2) Some by (simp add: DPS_OnSendSubscriptionComplete_def split: option.splits)
      from sound_delete[OF assms(1) this] show ?thesis .
    qed
  qed
qed

lemma sound_link:
  assumes "sound config held k node" "Link mem err node a = Some (ret, node')"
  shows "sound config held (k + 1) node'"
proof -
  obtain st i n1 where n1: "DPS_AddRemoteNode mem node a False = Some (st, i, n1)" using assms(2) by (auto simp: Link_def bind_eq_Some_conv)
  have s1: "sound config held (k + 1) n1" using sound_add[OF assms(1) n1] .
  show ?thesis
  proof (cases i)
    case None
    then show ?thesis using assms(2) n1 s1 by (simp add: Link_def)
  next
    case (Some i)
    define upd where "upd = (if st = DPS_OK then
        do { node \<leftarrow> update_remote i (\<lambda>r. r\<lparr>linkRequested := True, r_state := REMOTE_LINKING\<rparr>) n1; Some (DPS_OK, DPS_UpdateSubs node SubsSendNow) }
      else do { r \<leftarrow> deref_remote n1 i; Some (if completion r \<noteq> None then (DPS_ERR_BUSY, n1) else schedule (Link_Exists i) err n1) })"
    obtain x n2 where n2: "upd = Some (x, n2)"
      using assms(2) n1 Some by (auto simp: Link_def upd_def bind_eq_Some_conv)
    have s2: "sound config held (k + 1) n2"
    proof (cases "st = DPS_OK")
      case True
      then obtain n where n: "update_remote i (\<lambda>r. r\<lparr>linkRequested := True, r_state := REMOTE_LINKING\<rparr>) n1 = Some n" "n2 = DPS_UpdateSubs n SubsSendNow"
        using n2 by (auto simp: upd_def bind_eq_Some_conv)
      show ?thesis using sound_plain[OF s1 n(1)] n(2) by (simp add: plain_def)
    next
      case False
      then show ?thesis using n2 s1 by (auto simp: upd_def bind_eq_Some_conv schedule_def split: if_splits)
    qed
    have "node' = n2 \<or> (\<exists>f. update_remote i f n2 = Some node' \<and> plain f)"
      using assms(2) n1 Some n2 unfolding Link_def
      by (auto simp: upd_def[symmetric] bind_eq_Some_conv plain_def split: if_splits)
    then show ?thesis using s2 sound_plain by blast
  qed
qed


lemma walk_keeps:
  assumes "walk n link body x s = Some s'" "P s" "\<And>y s s'. body y s = Some s' \<Longrightarrow> P s \<Longrightarrow> P s'"
  shows "P s'"
  using assms(1,2)
proof (induction n arbitrary: x s)
  case (Suc n)
  show ?case
  proof (cases x)
    case (Some y)
    then obtain l t where t: "body y s = Some t" "walk n link body l t = Some s'" using Suc.prems(1) by (auto simp: bind_eq_Some_conv)
    show ?thesis using Suc.IH[OF t(2)] assms(3)[OF t(1) Suc.prems(2)] by blast
  qed (use Suc.prems in simp)
next
  case 0
  then show ?case by (cases x) simp_all
qed

lemma sound_alternative:
  assumes "sound config held k node" "config_ok config" "e_config env = config" "FindAlternativeRoute env node remote = Some node'"
  shows "sound config held k node'"
proof -
  consider "node' = node" | i x where "DPS_UnmuteRemoteNode env node i = Some (x, node')"
    using assms(4) by (auto simp: FindAlternativeRoute_def bind_eq_Some_conv split: option.splits)
  then show ?thesis
  proof cases
    case 2
    show ?thesis using sound_unmute[OF assms(1-3) 2] .
  qed (simp add: assms(1))
qed

lemma sound_after_send:
  assumes "sound config held k node" "after_send remote b (ret, node) = Some (node', b')"
  shows "sound config held k node'"
proof (cases "ret = DPS_OK")
  case True
  then show ?thesis using assms by (simp add: after_send_def)
next
  case False
  then have "DPS_DeleteRemoteNode node remote = Some node'" using assms(2) by (auto simp: after_send_def bind_eq_Some_conv)
  from sound_delete[OF assms(1) this] show ?thesis .
qed

lemma sound_resend:
  assumes "sound config held k node" "config_ok config" "e_config env = config" "resend env remote b node = Some (node', b')"
  shows "sound config held k node'"
proof (cases "subsPending node = SubsSendNow")
  case True
  then show ?thesis using assms(1,4) by (auto simp: resend_def bind_eq_Some_conv)
next
  case False
  obtain r n1 where n: "deref_remote node remote = Some r" "update_remote remote (\<lambda>r. r\<lparr>sakCounter := sakCounter r + 1\<rparr>) node = Some n1"
    using assms(4) False by (auto simp: resend_def bind_eq_Some_conv)
  have s1: "sound config held k n1" using sound_plain[OF assms(1) n(2)] by (simp add: plain_def)
  consider "node' = n1" | n2 where "n2 = n1 \<or> FindAlternativeRoute env n1 remote = Some n2" "DPS_DeleteRemoteNode n2 remote = Some node'"
    | x n2 where "send_sub env n1 remote = Some (x, n2)" "after_send remote b (x, n2) = Some (node', b')"
    | x n2 where "send_sak env n1 remote False = Some (x, n2)" "after_send remote b (x, n2) = Some (node', b')"
    using assms(4) n False by (auto simp: resend_def bind_eq_Some_conv Let_def split: if_splits)
  then show ?thesis
  proof cases
    case 2
    then have "sound config held k n2" using s1 sound_alternative[OF s1 assms(2,3)] by blast
    then show ?thesis using sound_delete 2(2) by blast
  next
    case 3
    show ?thesis using sound_after_send[OF sound_send_sub[OF s1 3(1)] 3(2)] .
  next
    case 4
    show ?thesis using sound_after_send[OF sound_send_sak[OF s1 4(1)] 4(2)] .
  qed (simp add: s1)
qed

lemma sound_timer_body:
  assumes "sound config held k node" "config_ok config" "e_config env = config" "timer_body env remote (node, b) = Some (node', b')"
  shows "sound config held k node'"
proof -
  obtain r where r: "deref_remote node remote = Some r" using assms(4) by (auto simp: timer_body_def bind_eq_Some_conv)
  show ?thesis
  proof (cases "sakPending r \<or> r_state r = REMOTE_MUTED")
    case True
    then show ?thesis using assms(1,4) r sound_resend[OF assms(1-3), of remote b node' b'] by (auto simp: timer_body_def split: if_splits)
  next
    case False
    obtain x ch n1 where n1: "update_outbound env node remote = Some (x, ch, n1)"
      using assms(4) r False by (auto simp: timer_body_def bind_eq_Some_conv)
    have s1: "sound config held k n1" using sound_update_outbound[OF assms(1-3) n1] .
    consider "node' = n1" | "after_send remote b (x, n1) = Some (node', b')"
      | y n2 where "send_sub env n1 remote = Some (y, n2)" "after_send remote b (y, n2) = Some (node', b')"
      using assms(4) r False n1 by (auto simp: timer_body_def bind_eq_Some_conv split: if_splits)
    then show ?thesis
    proof cases
      case 2
      show ?thesis using sound_after_send[OF s1 2] .
    next
      case 3
      show ?thesis using sound_after_send[OF sound_send_sub[OF s1 3(1)] 3(2)] .
    qed (simp add: s1)
  qed
qed

lemma sound_timer:
  assumes "sound config held k node" "config_ok config" "e_config env = config" "SendSubsTimer env node = Some node'"
  shows "sound config held k node'"
proof -
  obtain n1 b where w: "walk (length (remoteNodes node)) (\<lambda>s. remote_link (fst s)) (timer_body env)
      (front (map fst (remoteNodes node))) (node, False) = Some (n1, b)"
    "node' = (if b then emit (Subs_Timer (subsRate n1)) (n1\<lparr>subsPending := SubsThrottled\<rparr>) else n1\<lparr>subsPending := SubsNonePending\<rparr>)"
    using assms(4) by (auto simp: SendSubsTimer_def bind_eq_Some_conv)
  have "sound config held k (fst (n1, b))"
    by (rule walk_keeps[OF w(1), of "\<lambda>s. sound config held k (fst s)"]) (use assms(1) sound_timer_body[OF _ assms(2,3)] in auto)
  then show ?thesis using w(2) by simp
qed

lemma sound_subs_task:
  assumes "sound config held k node" "config_ok config" "e_config env = config" "SendSubsTask env node = Some node'"
  shows "sound config held k node'"
  using assms(1,4) sound_timer[OF assms(1-3)] by (auto simp: SendSubsTask_def split: if_splits)

lemma sound_shutdown:
  assumes "sound config held k node" "DPS_ShutdownNode mem err node = Some (ret, node')"
  shows "sound config held k node'"
proof (cases "n_state node \<noteq> DPS_NODE_RUNNING \<or> onShutdown node")
  case True
  then show ?thesis using assms by (auto simp: DPS_ShutdownNode_def)
next
  case False
  have b: "sound config held k (fst t)" if body: "shutdown_body mem i s = Some t" "sound config held k (fst s)" for i s t
  proof -
    obtain x n1 where n1: "Unlink mem True (fst s) i = Some (x, n1)" "fst t = n1 \<or> DPS_DeleteRemoteNode n1 i = Some (fst t)"
      using body(1) by (auto simp: shutdown_body_def bind_eq_Some_conv Let_def split: if_splits)
    show ?thesis using n1(2) sound_unlink[OF body(2) n1(1)] sound_delete by auto
  qed
  obtain n1 st where w: "walk (length (remoteNodes node)) (\<lambda>s. remote_link (fst s)) (shutdown_body mem)
      (front (map fst (remoteNodes node))) (node\<lparr>onShutdown := True\<rparr>, DPS_OK) = Some (n1, st)"
    "(ret, node') = (if remoteNodes n1 = [] then schedule Shutdown_Request err n1 else (st, n1))"
    using assms(2) False by (auto simp: DPS_ShutdownNode_def bind_eq_Some_conv)
  have "sound config held k (fst (n1, st))"
    by (rule walk_keeps[OF w(1), of "\<lambda>s. sound config held k (fst s)"]) (use assms(1) b in auto)
  then show ?thesis using w(2) by (auto simp: schedule_def split: if_splits)
qed

lemma sound_unlink_addr:
  assumes "sound config held k node" "DPS_Unlink mem node a = Some (ret, node')"
  shows "sound config held k node'"
proof -
  consider "node' = node" | i n1 where "Unlink mem False node i = Some (ret, n1)" "node' = n1 \<or> DPS_DeleteRemoteNode n1 i = Some node'"
    using assms(2) by (auto simp: DPS_Unlink_def bind_eq_Some_conv split: option.splits if_splits)
  then show ?thesis
  proof cases
    case 2
    show ?thesis using 2(2) sound_unlink[OF assms(1) 2(1)] sound_delete by auto
  qed (simp add: assms(1))
qed

lemma sound_subscribe:
  assumes "sound config held k node" "k < CV_MAX" "config_ok config" "DPS_Subscribe sha2 config mem1 mem2 mem3 node sub = (ret, node')"
  shows "sound config held (k + 1) node'"
proof -
  have "node_ok config node'" using subscribe_step[OF _ assms(3) sound_room[OF assms(1,2)] assms(4)] assms(1) by (simp add: sound_def)
  moreover have "same_pubs node node' \<and> crowd node' \<le> crowd node + 1"
    using assms(4) by (auto simp: DPS_Subscribe_def Let_def same_pubs_def crowd_def DPS_UpdateSubs_def emit_def split: option.splits prod.splits if_splits)
  ultimately show ?thesis using assms(1) pubs_ok_cong[of node node'] by (auto simp: sound_def)
qed

lemma sound_unsubscribe:
  assumes "sound config held k node" "DPS_DestroySubscription node sub = Some (ret, node')"
  shows "sound config held k node'"
proof -
  have "node_ok config node'" using unsubscribe_step assms by (auto simp: sound_def)
  moreover have "calm node node'"
    using assms(2) by (auto simp: DPS_DestroySubscription_def FreeSubscription_def bind_eq_Some_conv calm_def same_pubs_def crowd_def
        DPS_UpdateSubs_def emit_def length_remove1 split: if_splits)
  ultimately show ?thesis using soundI[OF _ _ assms(1)] by blast
qed

lemma sound_free_task:
  assumes "sound config held k node" "FreeTask node = Some node'"
  shows "sound config held k node'"
proof -
  define n1 where "n1 = node\<lparr>freeSubs := filter (\<lambda>s. s_refCount s \<noteq> 0) (freeSubs node)\<rparr>"
  have n1: "free_pubs (freePubs n1) n1 = Some node'" using assms(2) by (simp add: FreeTask_def n1_def split: if_splits)
  have "node_ok config n1"
    using assms(1) by (simp add: n1_def sound_def node_ok_def node_inv_def counts_ok_def interest_vectors_def needs_vectors_def)
  then have s1: "sound config held k n1" using soundI[OF _ _ assms(1), of n1] by (simp add: n1_def calm_def same_pubs_def crowd_def)
  then have "pubs_ok {} (\<lambda>_. 0) held n1" "distinct (freePubs n1)" by (auto simp: sound_def pubs_ok_def lists_ok_def)
  then have "pubs_ok {} (\<lambda>_. 0) held node'" "sans_pubs node' = sans_pubs n1" using free_pubs_ok[of held n1 "freePubs n1"] n1 by auto
  then show ?thesis using s1 node_ok_rest[of node' n1 config] sans_pubsD(1,2)[of node' n1] by (simp add: sound_def crowd_def)
qed

lemma sound_destroy_publication:
  assumes "sound config held k node" "DPS_DestroyPublication node i = Some (ret, node')"
  shows "sound config held k node'"
proof -
  obtain p where "pubs node i = Some p" using assms(2) by (auto simp: DPS_DestroyPublication_def bind_eq_Some_conv)
  then have "pubs_ok {} (\<lambda>_. 0) held node'" "sans_pubs node' = sans_pubs node"
    using destroy_publication_ok[of "{}" "\<lambda>_. 0" held node i p] assms by (auto simp: sound_def)
  then show ?thesis using assms(1) node_ok_rest[of node' node config] sans_pubsD(1,2)[of node' node] by (simp add: sound_def crowd_def)
qed

end
