(* ===== verification/Sub_Runs.thy ===== *)
theory Sub_Runs
  imports Sub_Safety
begin

text \<open>
  Runs of the subscription protocol: every interleaving of received messages, timers, reports of the
  network and calls of the application keeps the invariant, and a silent neighbour is given up.
\<close>

section \<open>The steps of a node\<close>

text \<open>The vectors of a received message pass deserialization and have a right count.\<close>

definition message_ok :: "Env \<Rightarrow> DPS_NodeAddressType \<Rightarrow> DPS_UUID \<Rightarrow> bool \<Rightarrow> DPS_NetEndpoint \<Rightarrow> DPS_RxBuffer \<Rightarrow> bool" where
  "message_ok env transport mesh isSak ep buf \<longleftrightarrow>
     (case decode_sub_fields (e_ndebug env) (e_config env) (e_mem env 6) (e_mem env 7) transport mesh isSak ep buf of
        None \<Rightarrow> True
      | Some (_, f, _) \<Rightarrow> received_ok (e_config env) f)"

inductive protocol_step :: "(u8 list \<Rightarrow> u8 list) \<Rightarrow> Env \<Rightarrow> DPS_Node \<Rightarrow> DPS_Node \<Rightarrow> bool" for sha2 env where
  Receive_Sub: "crowd node + 1 < CV_MAX \<Longrightarrow> message_ok env transport mesh False ep buf \<Longrightarrow>
    DPS_DecodeSubscription env transport mesh node ep buf = Some (ret, node') \<Longrightarrow> protocol_step sha2 env node node'"
| Receive_Sak: "crowd node + 1 < CV_MAX \<Longrightarrow> message_ok env transport mesh True ep buf \<Longrightarrow>
    DPS_DecodeSubscriptionAck env transport mesh node ep buf = Some (ret, node') \<Longrightarrow> protocol_step sha2 env node node'"
| Sub_Sent: "DPS_OnSendSubscriptionComplete node ep status = Some node' \<Longrightarrow> protocol_step sha2 env node node'"
| Send_Failed: "DPS_SendComplete node a status = Some node' \<Longrightarrow> protocol_step sha2 env node node'"
| Subs_Timer: "SendSubsTimer env node = Some node' \<Longrightarrow> protocol_step sha2 env node node'"
| Subs_Task: "SendSubsTask env node = Some node' \<Longrightarrow> protocol_step sha2 env node node'"
| Requests: "RunRequestsTask env n node = Some node' \<Longrightarrow> protocol_step sha2 env node node'"
| Link: "DPS_LinkRemoteAddr mem1 mem2 err node a = Some (ret, node') \<Longrightarrow> protocol_step sha2 env node node'"
| Unlink: "DPS_Unlink mem node a = Some (ret, node') \<Longrightarrow> protocol_step sha2 env node node'"
| Shutdown: "DPS_ShutdownNode mem err node = Some (ret, node') \<Longrightarrow> protocol_step sha2 env node node'"
| Subscribe: "crowd node < CV_MAX \<Longrightarrow> DPS_Subscribe sha2 (e_config env) mem1 mem2 mem3 node sub = (ret, node') \<Longrightarrow>
    protocol_step sha2 env node node'"
| Unsubscribe: "DPS_DestroySubscription node sub = Some (ret, node') \<Longrightarrow> protocol_step sha2 env node node'"
| Update_Pubs: "DPS_UpdatePubs node = Some node' \<Longrightarrow> protocol_step sha2 env node node'"
| Unpublish: "DPS_DestroyPublication node pub = Some (ret, node') \<Longrightarrow> protocol_step sha2 env node node'"
| Free: "FreeTask node = Some node' \<Longrightarrow> protocol_step sha2 env node node'"

lemma sound_crowd: "sound config held k node \<Longrightarrow> sound config held (crowd node) node"
  by (simp add: sound_def)

lemma message_okD:
  "message_ok env transport mesh isSak ep buf \<Longrightarrow> e_config env = config \<Longrightarrow>
   decode_sub_fields (e_ndebug env) config (e_mem env 6) (e_mem env 7) transport mesh isSak ep buf = Some (ret, f, ep', b) \<Longrightarrow>
   received_ok config f"
  by (auto simp: message_ok_def)

lemma protocol_step_sound:
  assumes "protocol_step sha2 env node node'" "config_ok (e_config env)" "\<exists>k. sound (e_config env) held k node"
  shows "\<exists>k. sound (e_config env) held k node'"
  using assms
proof (induction rule: protocol_step.induct)
  case (Receive_Sub node transport mesh ep buf ret node')
  then obtain k where "sound (e_config env) held k node" by blast
  from sound_sub[OF sound_crowd[OF this] Receive_Sub(1,4) refl _ Receive_Sub(3)] message_okD[OF Receive_Sub(2) refl] show ?case by blast
next
  case (Receive_Sak node transport mesh ep buf ret node')
  then obtain k where "sound (e_config env) held k node" by blast
  from sound_sak[OF sound_crowd[OF this] Receive_Sak(1,4) refl _ Receive_Sak(3)] message_okD[OF Receive_Sak(2) refl] show ?case by blast
next
  case (Link mem1 mem2 err node a ret node')
  then show ?case using sound_link by (fastforce simp: DPS_LinkRemoteAddr_def split: if_splits)
next
  case (Subscribe node mem1 mem2 mem3 sub ret node')
  then obtain k where "sound (e_config env) held k node" by blast
  from sound_subscribe[OF sound_crowd[OF this] Subscribe(1,3,2)] show ?case by blast
qed (blast intro: sound_sub_complete sound_send_complete sound_timer sound_subs_task sound_requests sound_unlink_addr sound_shutdown
    sound_unsubscribe sound_UpdatePubs sound_destroy_publication sound_free_task)+


section \<open>Silent neighbours\<close>

text \<open>
  A remote node from which an acknowledgement of a subscription is awaited, and whose subscription can be
  sent again. The network accepts every message and memory is available.
\<close>

definition waiting :: "Configuration \<Rightarrow> nat \<Rightarrow> RemoteNode \<Rightarrow> bool" where
  "waiting config m r \<longleftrightarrow> sakPending r \<and> lastSubMsgType r = DPS_MSG_TYPE_SUB \<and> r_state r \<noteq> REMOTE_MUTED \<and>
     (r_state r \<noteq> REMOTE_UNLINKING \<longrightarrow> sendable config (sub_interests r) (out_needs r)) \<and>
     m \<le> unat (sakCounter r) \<and> unat (sakCounter r) < 5"

definition calm_env :: "Env \<Rightarrow> bool" where
  "calm_env env \<longleftrightarrow> (\<forall>n. \<exists>mem. e_malloc env n = Some mem \<and> length mem = n) \<and> (\<forall>n e b. e_net env n e b = DPS_OK)"

definition ready :: "Configuration \<Rightarrow> DPS_Node \<Rightarrow> bool" where
  "ready config node \<longleftrightarrow> (\<exists>k. sound config (\<lambda>_. 0) k node) \<and> netCtx node \<and> listener_ok (n_addr node) \<and> subsPending node \<noteq> SubsSendNow"

lemma sendable_cong:
  assumes "sendable config i n" "contents j = contents i" "\<And>v. j = Some v \<Longrightarrow> bv_ok (bitLen config) v"
  shows "sendable config j n"
proof -
  obtain v where v: "i = Some v" "bv_ok (bitLen config) v" "encodable v" using assms(1) by (auto simp: sendable_def vectors_ok_def)
  obtain w where w: "j = Some w" "bits w = bits v" "bv_len w = bv_len v" using assms(2) v(1) by auto
  have "bv_wf v" "bv_wf w" using v(2) assms(3) w(1) by (auto simp: bv_ok_def)
  moreover have "bv_set w = bv_set v" using w(2) by (simp add: bv_set_def)
  ultimately have "fst (DPS_BitVectorLoadFactor w) = fst (DPS_BitVectorLoadFactor v)"
    using w(3) by (simp add: DPS_BitVectorLoadFactor_def PopCount_ok)
  moreover have "rle_stream fl w = rle_stream fl v" for fl using w(2,3) by (simp add: rle_stream_def)
  ultimately have "encodable w" using v(3) \<open>bv_set w = bv_set v\<close> w(3) by (simp add: encodable_def Let_def)
  then show ?thesis using assms(1,3) w(1) by (auto simp: sendable_def vectors_ok_def)
qed

text \<open>Sending a subscription again: only the count of the vector changes.\<close>

lemma send_sub_again:
  fixes config :: Configuration
  assumes "send_sub env node i = Some (DPS_OK, node')" "deref_remote node i = Some r" "sakPending r"
    and "r_state r \<noteq> REMOTE_UNLINKING \<longrightarrow> (\<exists>v. sub_interests r = Some v \<and> bv_ok (bitLen config) v)"
  shows "\<exists>j e n1. update_remote i (\<lambda>r. sub_sent (sub_put j r)) node = Some n1 \<and> node' = emit e n1 \<and>
    (r_state r \<noteq> REMOTE_UNLINKING \<longrightarrow> contents j = contents (sub_interests r) \<and> (\<forall>v. j = Some v \<longrightarrow> bv_ok (bitLen config) v))"
proof -
  let ?steps = "sub_steps (n_addr node) r (DPS_MinMeshId node (Some i))"
  obtain len where t: "transmit (e_malloc env) (e_net env) len ?steps (sub_interests r) i sub_put sub_sent sub_failed node = Some (DPS_OK, node')"
    using assms(1,2) by (auto simp: send_sub_def DPS_SendSubscription_def bind_eq_Some_conv split: if_splits option.splits)
  obtain st buf where b: "DPS_TxBufferInit (e_malloc env) None len = (st, buf)" by fastforce
  obtain r1 b1 j n1 where run: "run_steps ?steps (st, (buf, sub_interests r)) = Some (r1, (b1, j))" and n1: "update_remote i (sub_put j) node = Some n1"
    using t b by (auto simp: transmit_def bind_eq_Some_conv)
  have d1: "deref_remote n1 i = Some (sub_put j r)" using deref_update[OF n1, of i] assms(2) by simp
  have "r1 = DPS_OK" using t b run n1 d1 by (auto simp: transmit_def bind_eq_Some_conv split: if_splits)
  then obtain n2 e where n2: "update_remote i sub_sent n1 = Some n2" "node' = emit e n2"
    using t b run n1 d1 by (auto simp: transmit_def bind_eq_Some_conv Let_def split: if_splits)
  have u: "update_remote i (\<lambda>r. sub_sent (sub_put j r)) node = Some n2"
    using n1 n2(1) by (auto simp: update_remote_def comp_def case_prod_unfold split: if_splits)
  have "contents j = contents (sub_interests r) \<and> (\<forall>v. j = Some v \<longrightarrow> bv_ok (bitLen config) v)" if "r_state r \<noteq> REMOTE_UNLINKING"
    using run_steps_keep[OF run, of config] all_keep(1) assms(4) that by auto
  then show ?thesis using u n2(2) by blast
qed

lemma delete_frame:
  assumes "DPS_DeleteRemoteNode node i = Some node'"
  shows "netCtx node' = netCtx node \<and> n_addr node' = n_addr node \<and> subsPending node' = subsPending node"
proof -
  define same where "same n n' \<longleftrightarrow> netCtx n' = netCtx n \<and> n_addr n' = n_addr n \<and> subsPending n' = subsPending n" for n n' :: DPS_Node
  have d: "same n (detached_completion i c st n)" for n c st
    by (simp add: same_def detached_completion_def call_completion_def cancel_request_def OnShutdown_def emit_def Let_def)
  consider "node' = node" | r n1 n2 r' where "RemoveRemoteNode node i = Some n1" "DPS_ClearInboundInterests n1 r = Some (n2, r')"
      "node' = (case completion r' of Some c \<Rightarrow> detached_completion i c DPS_ERR_MISSING n2
        | None \<Rightarrow> if linkRequested r' \<and> linkLossCB n2 then emit (Link_Loss (addr (r_ep r'))) n2 else n2)"
    using assms by (auto simp: DPS_DeleteRemoteNode_def bind_eq_Some_conv split: if_splits)
  then have "same node node'"
  proof cases
    case 2
    have "same node n1" using 2(1) by (auto simp: RemoveRemoteNode_def same_def)
    moreover have "same n1 n2" using 2(2) by (auto simp: DPS_ClearInboundInterests_def bind_eq_Some_conv same_def)
    moreover have "same n2 node'" unfolding 2(3) using d by (simp add: same_def emit_def split: option.split)
    ultimately show ?thesis by (simp add: same_def)
  qed (simp add: same_def)
  then show ?thesis by (simp add: same_def)
qed

lemma alternative_none:
  "\<forall>(i, r) \<in> set rs. r_state r \<noteq> REMOTE_MUTED \<Longrightarrow> alternative i m None rs = None"
  by (induction i m "None :: nat option" rs rule: alternative.induct) auto

lemma delete_ready:
  assumes "ready config node" "remoteNodes node = us @ (i, r) # ys"
  shows "\<exists>node'. DPS_DeleteRemoteNode node i = Some node' \<and> ready config node' \<and> remoteNodes node' = us @ ys"
proof -
  have inv: "node_inv config node" using assms(1) by (auto simp: ready_def sound_def node_ok_def)
  obtain node' where n: "DPS_DeleteRemoteNode node i = Some node'" "remoteNodes node' = filter (\<lambda>p. fst p \<noteq> i) (remoteNodes node)"
    using delete_remote_ok[OF inv, of i] by blast
  have "\<forall>p \<in> set (us @ ys). fst p \<noteq> i" using inv assms(2) by (auto simp: node_inv_def)
  then have "filter (\<lambda>p. fst p \<noteq> i) (us @ (i, r) # ys) = us @ ys" by simp
  moreover have "\<exists>k. sound config (\<lambda>_. 0) k node'" using sound_delete[OF _ n(1)] assms(1) by (auto simp: ready_def)
  ultimately show ?thesis using n assms delete_frame[OF n(1)] by (auto simp: ready_def)
qed

lemma put_waiting:
  assumes "waiting config m r" "unat (sakCounter r) < 4"
    and "r_state r \<noteq> REMOTE_UNLINKING \<longrightarrow> contents j = contents (sub_interests r) \<and> (\<forall>v. j = Some v \<longrightarrow> bv_ok (bitLen config) v)"
  shows "waiting config (Suc m) (sub_sent (sub_put j (r\<lparr>sakCounter := sakCounter r + 1\<rparr>)))"
proof -
  let ?r = "sub_sent (sub_put j (r\<lparr>sakCounter := sakCounter r + 1\<rparr>))"
  have c: "unat (sakCounter r + 1) = unat (sakCounter r) + 1" using assms(2) by (simp add: unat_word_ariths)
  have "sub_interests ?r = (if r_state r = REMOTE_UNLINKING then None else j)" "out_needs ?r = out_needs r" "r_state ?r = r_state r"
    "sakPending ?r" "lastSubMsgType ?r = DPS_MSG_TYPE_SUB" "sakCounter ?r = sakCounter r + 1"
    using assms(1) by (auto simp: waiting_def sub_sent_def sub_put_def put_interests_def sub_interests_def)
  then show ?thesis using assms c sendable_cong[of config "sub_interests r" "out_needs r" j] by (auto simp: waiting_def)
qed

text \<open>One round of the timer\<close>

lemma timer_waiting:
  assumes ready: "ready config node" and config: "config_ok config" "bitLen config < 2 ^ 16" and env: "calm_env env"
    and l: "remoteNodes node = us @ (i, r) # ys" and r: "waiting config m r" and u: "\<forall>(j, q) \<in> set (us @ ys). r_state q \<noteq> REMOTE_MUTED"
  shows "\<exists>node' b' vs. timer_body env i (node, b) = Some (node', b') \<and> ready config node' \<and> remoteNodes node' = us @ vs @ ys \<and>
    (vs = [] \<or> (\<exists>r'. vs = [(i, r')] \<and> waiting config (Suc m) r'))"
proof -
  have inv: "node_inv config node" using ready by (auto simp: ready_def sound_def node_ok_def)
  have i: "i \<notin> fst ` set (us @ ys)" using inv l by (auto simp: node_inv_def)
  have d: "deref_remote node i = Some r" 
    unfolding deref_remote_def by (rule map_of_is_SomeI) (use inv l in \<open>auto simp: node_inv_def\<close>)
  let ?r = "r\<lparr>sakCounter := sakCounter r + 1\<rparr>"
  define n1 where "n1 = node\<lparr>remoteNodes := us @ (i, ?r) # ys\<rparr>"
  have n1: "update_remote i (\<lambda>r. r\<lparr>sakCounter := sakCounter r + 1\<rparr>) node = Some n1" using update_split[OF l i] by (simp add: n1_def)
  have l1: "remoteNodes n1 = us @ (i, ?r) # ys" and d1: "deref_remote n1 i = Some ?r"
    using deref_update[OF n1, of i] d by (simp_all add: n1_def)
  have "\<exists>k. sound config (\<lambda>_. 0) k n1" using sound_plain[OF _ n1] ready by (auto simp: plain_def ready_def)
  then have ready1: "ready config n1" using ready by (simp add: ready_def n1_def)
  have c: "unat (sakCounter r + 1) = unat (sakCounter r) + 1" and c5: "unat (sakCounter r) < 5" and m: "m \<le> unat (sakCounter r)"
    using r by (auto simp: waiting_def unat_word_ariths)
  have lt: "sakCounter r + 1 < DPS_SAK_RETRY_THRESHOLD \<longleftrightarrow> unat (sakCounter r) < 1"
    "DPS_SAK_RETRY_THRESHOLD + DPS_SAK_RETRY_LIMIT \<le> sakCounter r + 1 \<longleftrightarrow> 4 \<le> unat (sakCounter r)"
    using c by (simp_all add: word_less_nat_alt word_le_nat_alt DPS_SAK_RETRY_THRESHOLD_def DPS_SAK_RETRY_LIMIT_def)
  have start: "timer_body env i (node, b) = resend env i b node" "subsPending node \<noteq> SubsSendNow"
    using d r ready by (auto simp: timer_body_def waiting_def ready_def)
  consider "unat (sakCounter r) < 1" | "1 \<le> unat (sakCounter r)" "unat (sakCounter r) < 4" | "4 \<le> unat (sakCounter r)" by linarith
  then show ?thesis
  proof cases
    case 1
    have "waiting config (Suc m) ?r" using r c 1 m by (auto simp: waiting_def sub_interests_def)
    moreover have "timer_body env i (node, b) = Some (n1, True)" using start d n1 1 lt(1) by (simp add: resend_def Let_def)
    ultimately show ?thesis using ready1 l1 by auto
  next
    case 2
    have s: "r_state ?r \<noteq> REMOTE_UNLINKING \<longrightarrow> sendable config (sub_interests ?r) (out_needs ?r)" "r_state ?r \<noteq> REMOTE_MUTED" "sakPending ?r"
      using r by (auto simp: waiting_def sub_interests_def)
    obtain node2 where n2: "send_sub env n1 i = Some (DPS_OK, node2)"
      using send_sub_succeeds[OF d1 s(2) _ _ config(2) s(1), of "e_malloc env" "e_net env"] ready1 env
      by (auto simp: send_sub_def ready_def calm_env_def)
    have "r_state ?r \<noteq> REMOTE_UNLINKING \<longrightarrow> (\<exists>v. sub_interests ?r = Some v \<and> bv_ok (bitLen config) v)"
      using s(1) by (auto simp: sendable_def vectors_ok_def)
    from send_sub_again[OF n2 d1 s(3) this] obtain j e n3 where n3: "update_remote i (\<lambda>r. sub_sent (sub_put j r)) n1 = Some n3" "node2 = emit e n3"
      and j: "r_state ?r \<noteq> REMOTE_UNLINKING \<longrightarrow> contents j = contents (sub_interests ?r) \<and> (\<forall>v. j = Some v \<longrightarrow> bv_ok (bitLen config) v)"
      by blast
    have "n3 = n1\<lparr>remoteNodes := us @ (i, sub_sent (sub_put j ?r)) # ys\<rparr>" using update_split[OF l1 i] n3(1) by simp
    then have l2: "remoteNodes node2 = us @ (i, sub_sent (sub_put j ?r)) # ys" and f: "netCtx node2 = netCtx n1" "n_addr node2 = n_addr n1"
        "subsPending node2 = subsPending n1" using n3(2) by (simp_all add: emit_def)
    have "waiting config (Suc m) (sub_sent (sub_put j ?r))"
      using put_waiting[OF r 2(2)] j by (simp add: sub_interests_def)
    moreover have "\<exists>k. sound config (\<lambda>_. 0) k node2" using sound_send_sub[OF _ n2] ready1 by (auto simp: ready_def)
    moreover have "timer_body env i (node, b) = Some (node2, True)"
      using start d n1 n2 2 lt r by (simp add: resend_def Let_def after_send_def waiting_def)
    ultimately show ?thesis using l2 f ready1 by (auto simp: ready_def)
  next
    case 3
    obtain node2 where n2: "DPS_DeleteRemoteNode n1 i = Some node2" "ready config node2" "remoteNodes node2 = us @ ys"
      using delete_ready[OF ready1 l1] by blast
    have "\<forall>(j, q) \<in> set (remoteNodes n1). r_state q \<noteq> REMOTE_MUTED" using u r l1 by (auto simp: waiting_def)
    then have "FindAlternativeRoute env n1 i = Some n1" using alternative_none d1 by (simp add: FindAlternativeRoute_def)
    then have "timer_body env i (node, b) = Some (node2, b)" using start d n1 n2(1) 3 lt by (simp add: resend_def Let_def)
    then show ?thesis using n2(2,3) by (intro exI[of _ node2] exI[of _ b] exI[of _ "[]"]) simp
  qed
qed

text \<open>One run of the timer: the neighbours that are left have been waited for one round longer.\<close>

definition all_waiting :: "Configuration \<Rightarrow> nat \<Rightarrow> DPS_Node \<Rightarrow> bool" where
  "all_waiting config m node \<longleftrightarrow> (\<forall>(i, r) \<in> set (remoteNodes node). waiting config m r)"

lemma tick:
  assumes ready: "ready config node" and config: "config_ok config" "bitLen config < 2 ^ 16" and env: "calm_env env" and w: "all_waiting config m node"
  shows "\<exists>node'. SendSubsTimer env node = Some node' \<and> ready config node' \<and> all_waiting config (Suc m) node'"
proof -
  define I where "I xs s \<longleftrightarrow> ready config (fst s) \<and> (\<exists>us ys. remoteNodes (fst s) = us @ ys \<and> map fst ys = xs \<and>
      (\<forall>(i, r) \<in> set us. waiting config (Suc m) r) \<and> (\<forall>(i, r) \<in> set ys. waiting config m r))" for xs and s :: "DPS_Node \<times> bool"
  have step: "remote_link (fst s) x = Some (front xs) \<and> (\<exists>s'. timer_body env x s = Some s' \<and> I xs s')" if I: "I (x # xs) s" for x xs s
  proof -
    obtain node b where s: "s = (node, b)" by (cases s)
    obtain us r ys where l: "remoteNodes node = us @ (x, r) # ys" "map fst ys = xs" and rd: "ready config node"
      and wu: "\<forall>(i, r) \<in> set us. waiting config (Suc m) r" and wy: "\<forall>(i, r) \<in> set ys. waiting config m r" and wr: "waiting config m r"
      using I s unfolding I_def by (auto simp: map_eq_Cons_conv)
    have "distinct (map fst (remoteNodes node))" using rd by (auto simp: ready_def sound_def node_ok_def node_inv_def)
    then have "follower (map fst us @ x # xs) x = Some (front xs)" using follower_suffix[of "map fst us" x xs] l by simp
    moreover have "\<forall>(j, q) \<in> set (us @ ys). r_state q \<noteq> REMOTE_MUTED" using wu wy by (auto simp: waiting_def)
    from timer_waiting[OF rd config env l(1) wr this, of b]
    obtain node' b' vs where t: "timer_body env x (node, b) = Some (node', b')" "ready config node'" "remoteNodes node' = us @ vs @ ys"
      "vs = [] \<or> (\<exists>r'. vs = [(x, r')] \<and> waiting config (Suc m) r')" by blast
    have "remoteNodes node' = (us @ vs) @ ys \<and> map fst ys = xs \<and> (\<forall>(i, r) \<in> set (us @ vs). waiting config (Suc m) r) \<and>
        (\<forall>(i, r) \<in> set ys. waiting config m r)" using t(3,4) l(2) wu wy by auto
    then have "I xs (node', b')" unfolding I_def using t(2) by (metis fst_conv)
    ultimately show ?thesis using t(1) l s by (auto simp: remote_link_def)
  qed
  have "I (map fst (remoteNodes node)) (node, False)"
    unfolding I_def using ready w by (intro conjI exI[of _ "[]"] exI[of _ "remoteNodes node"]) (auto simp: all_waiting_def)
  from walk_list[of I "\<lambda>s. remote_link (fst s)" "timer_body env", OF step this, of "length (remoteNodes node)"]
  obtain n1 b where n1: "walk (length (remoteNodes node)) (\<lambda>s. remote_link (fst s)) (timer_body env)
      (front (map fst (remoteNodes node))) (node, False) = Some (n1, b)" and I: "I [] (n1, b)" by auto
  let ?n = "if b then emit (Subs_Timer (subsRate n1)) (n1\<lparr>subsPending := SubsThrottled\<rparr>) else n1\<lparr>subsPending := SubsNonePending\<rparr>"
  have "SendSubsTimer env node = Some ?n" using n1 by (simp add: SendSubsTimer_def)
  moreover have "\<exists>k. sound config (\<lambda>_. 0) k ?n" using I by (auto simp: I_def ready_def)
  then have "ready config ?n" using I by (simp add: I_def ready_def emit_def)
  moreover have "all_waiting config (Suc m) ?n" using I by (auto simp: I_def all_waiting_def emit_def)
  ultimately show ?thesis by blast
qed

fun timers :: "Env list \<Rightarrow> DPS_Node \<Rightarrow> DPS_Node option" where
  "timers [] node = Some node"
| "timers (env # envs) node = Option.bind (SendSubsTimer env node) (timers envs)"

lemma timers_waiting:
  assumes "ready config node" "config_ok config" "bitLen config < 2 ^ 16" "\<forall>env \<in> set envs. calm_env env" "all_waiting config m node"
  shows "\<exists>node'. timers envs node = Some node' \<and> all_waiting config (m + length envs) node'"
  using assms(1,4,5)
proof (induction envs arbitrary: node m)
  case (Cons env envs)
  obtain n1 where n1: "SendSubsTimer env node = Some n1" "ready config n1" "all_waiting config (Suc m) n1"
    using tick[OF Cons.prems(1) assms(2,3) _ Cons.prems(3), of env] Cons.prems(2) by auto
  then show ?case using Cons.IH[OF n1(2) _ n1(3)] Cons.prems(2) by simp
qed simp


section \<open>Completing a link\<close>

lemma lookup_replace:
  "r_ep r' = r_ep r \<Longrightarrow> lookup_addr a (xs @ (i, r') # ys) = lookup_addr a (xs @ (i, r) # ys)"
  by (induction xs) auto

lemma handle_plain_ack:
  assumes l: "remoteNodes node = xs @ (i, r) # ys" "i \<notin> fst ` set (xs @ ys)" and a: "DPS_LookupRemoteNode node (Some (addr ep)) = Some i"
    and f: "in_revision r \<le> f_revision f" "\<not> sub_flag DPS_SUB_FLAG_UNMUTE_REQ f" "\<not> sub_flag DPS_SUB_FLAG_SAK_REQ f"
      "\<not> sub_flag DPS_SUB_FLAG_MUTE_IND f" "MeshHasLoop node i (f_mesh f) = Some False" and st: "r_state r \<noteq> REMOTE_NEW"
  shows "handle_message env True f ep node =
    Some (DPS_OK, node\<lparr>remoteNodes := xs @ (i, r\<lparr>in_revision := f_revision f, lastSubMsgType := 0, in_meshId := f_mesh f\<rparr>) # ys\<rparr>)"
proof -
  have d: "deref_remote (node\<lparr>remoteNodes := xs @ (i, q) # ys\<rparr>) i = Some q" for q
  proof -
    have "map_of (xs @ (i, q) # ys) i = Some q" using l(2) by (auto simp: map_add_Some_iff map_of_eq_None_iff)
    then show ?thesis by (simp add: deref_remote_def)
  qed
  have u: "update_remote i g (node\<lparr>remoteNodes := xs @ (i, q) # ys\<rparr>) = Some (node\<lparr>remoteNodes := xs @ (i, g q) # ys\<rparr>)" for g q
    using update_split[of "node\<lparr>remoteNodes := xs @ (i, q) # ys\<rparr>" xs i q ys g] l(2) by simp
  have n: "node = node\<lparr>remoteNodes := xs @ (i, r) # ys\<rparr>" using l(1) by simp
  have d0: "deref_remote node i = Some r" using d[of r] n by simp
  have u0: "update_remote i g node = Some (node\<lparr>remoteNodes := xs @ (i, g r) # ys\<rparr>)" for g using u[of g r] n by simp
  let ?r = "r\<lparr>in_revision := f_revision f\<rparr>"
  have "DPS_MinMeshId (node\<lparr>remoteNodes := xs @ (i, ?r) # ys\<rparr>) (Some i) = DPS_MinMeshId node (Some i)" using MinMeshId_update[OF u0[of "\<lambda>_. ?r"]] .
  then have "MeshHasLoop (node\<lparr>remoteNodes := xs @ (i, ?r) # ys\<rparr>) i (f_mesh f) = Some False"
    using f(5) d0 d by (auto simp: MeshHasLoop_def split: if_splits)
  then have "check_mute env True f (node\<lparr>remoteNodes := xs @ (i, ?r) # ys\<rparr>) i = Some (DPS_OK, node\<lparr>remoteNodes := xs @ (i, ?r) # ys\<rparr>)"
    using f d by (simp add: check_mute_def)
  moreover have "\<not> f_revision f < in_revision r" using f(1) by (simp add: not_less)
  ultimately show ?thesis using a f st by (simp add: handle_message_def accept_message_def d0 u0 u)
qed


section \<open>Messages that stop the node\<close>

lemma min_mesh_absent: "i \<notin> fst ` set rs \<Longrightarrow> min_mesh (Some i) rs m = min_mesh None rs m"
  by (induction rs arbitrary: m) auto

text \<open>C39: A first subscription with sequence number 0 is taken for a duplicate, since the revision of a new
  remote node starts at 0: the assertion that a new remote node's message is no duplicate fails, and the
  sender stops a node that was built with assertions.\<close>

theorem zero_revision_assertion:
  assumes "node_ok config node" "e_config env = config" "DPS_LookupRemoteNode node (Some (addr ep)) = None" "a_type (addr ep) \<noteq> DPS_UNKNOWN"
    and "\<And>n. e_mem env n" "\<not> e_ndebug env"
    and "f_revision f = 0" "f_flags f = DPS_SUB_FLAG_SAK_REQ" "f_keys f AND OptKeysMask = OptKeysMask"
    and "DPS_UUIDCompare (f_mesh f) (DPS_MinMeshId node None) \<noteq> 0"
  shows "handle_message env False f ep node = None"
proof -
  let ?i = "nextRemote node"
  define r where "r = zero_remote\<lparr>r_ep := \<lparr>addr = addr ep, cn = cn ep\<rparr>, in_meshId := DPS_MaxMeshId\<rparr>"
  obtain st r' where c: "DPS_ClearOutboundInterests config True True r = (st, r')" by fastforce
  have r': "r_state r' = REMOTE_NEW" "in_revision r' = 0" "st = DPS_OK"
    using c by (auto simp: DPS_ClearOutboundInterests_def DPS_BitVectorAlloc_def DPS_BitVectorAllocFH_def AllocBV_def FreeOutboundInterests_def
        r_def zero_remote_def Let_def split: option.splits)
  have new: "?i \<notin> fst ` set (remoteNodes node)" using assms(1) by (auto simp: node_ok_def node_inv_def)
  let ?n = "\<lambda>q. node\<lparr>nextRemote := Suc ?i, remoteNodes := (?i, q) # remoteNodes node\<rparr>"
  have d: "deref_remote (?n q) ?i = Some q" for q by (simp add: deref_remote_def)
  have u: "update_remote ?i g (?n q) = Some (?n (g q))" for g q
    using update_split[of "?n q" "[]" ?i q "remoteNodes node" g] new by simp
  have "sub_sender env node ep = Some (DPS_OK, ?i, False, ?n r')"
    using assms(2-5) c r'(3) by (simp add: sub_sender_def DPS_AddRemoteNode_def InsertRemoteNode_def Let_def clear_outbound_def d u r_def[symmetric]) 
  moreover have "DPS_MinMeshId (?n q) (Some ?i) = DPS_MinMeshId node None" for q
    using min_mesh_absent[OF new] by (simp add: DPS_MinMeshId_def)
  then have "MeshHasLoop (?n q) ?i (f_mesh f) = Some False" for q using d assms(10) by (simp add: MeshHasLoop_def)
  ultimately show ?thesis
    using assms(6-9) r' by (simp add: handle_message_def accept_message_def d u check_mute_def store_interests_def first_interests_def sub_flag_def
        DPS_SUB_FLAG_SAK_REQ_def DPS_SUB_FLAG_UNLINK_IND_def DPS_SUB_FLAG_UNMUTE_REQ_def DPS_SUB_FLAG_MUTE_IND_def)
qed

text \<open>C40: A subscription with the flag that mutes the link and without its vectors is rejected, but the remote
  node is muted by then. When a subscription to it is outstanding, the timer sends it again, which is
  asserted not to happen to a muted remote node.\<close>

theorem muted_resend_assertion:
  assumes "deref_remote node i = Some r" "r_state r = REMOTE_ACTIVE" "in_revision r \<le> f_revision f"
    and "f_flags f = DPS_SUB_FLAG_SAK_REQ OR DPS_SUB_FLAG_MUTE_IND" "f_keys f = 0"
    and "sakPending r" "lastSubMsgType r = DPS_MSG_TYPE_SUB" "1 \<le> sakCounter r" "sakCounter r < 4"
    and "accept_message env False f collision node i = Some (ret, node')" "subsPending node \<noteq> SubsSendNow"
  shows "ret = DPS_ERR_INVALID \<and> timer_body env i (node', b) = None"
proof -
  obtain n1 where n1: "update_remote i (\<lambda>r. r\<lparr>in_revision := f_revision f\<rparr>) node = Some n1" using update_defined[OF assms(1)] by blast
  have d1: "deref_remote n1 i = Some (r\<lparr>in_revision := f_revision f\<rparr>)" using deref_update[OF n1, of i] assms(1) by simp
  have m: "\<exists>b. MeshHasLoop n1 i (f_mesh f) = Some b" using d1 by (simp add: MeshHasLoop_def)
  obtain st n2 where n2: "DPS_MuteRemoteNode n1 i REMOTE_MUTED = Some (st, n2)" "check_mute env False f n1 i = Some (st, n2)"
    using assms(2,3,4,10) m d1 n1 assms(1)
    by (auto simp: accept_message_def bind_eq_Some_conv check_mute_def sub_flag_def DPS_SUB_FLAG_SAK_REQ_def DPS_SUB_FLAG_UNMUTE_REQ_def
        DPS_SUB_FLAG_MUTE_IND_def split: if_splits)
  obtain r2 where r2: "deref_remote n2 i = Some r2" "r_state r2 = REMOTE_MUTED" "sakPending r2" "lastSubMsgType r2 = DPS_MSG_TYPE_SUB"
      "sakCounter r2 = sakCounter r" and s: "subsPending n2 = subsPending node" "st = DPS_OK"
    using n2(1) d1 assms(2,6,7) n1
    by (auto simp: DPS_MuteRemoteNode_def bind_eq_Some_conv RemoveRemoteNode_def InsertRemoteNode_def FreeOutboundInterests_def deref_remote_def
        update_remote_def split: if_splits)
  have "\<not> f_revision f < in_revision r" using assms(3) by (simp add: not_less)
  then have "discard_message DPS_ERR_INVALID n2 i = Some (ret, node')"
    using assms(1,3,4,5,10) n1 n2(2) s(2)
    by (auto simp: accept_message_def sub_flag_def DPS_SUB_FLAG_SAK_REQ_def DPS_SUB_FLAG_MUTE_IND_def OptKeysMask_def key_defs)
  then have n: "ret = DPS_ERR_INVALID" "node' = n2" using r2(1,2) by (simp_all add: discard_message_def)
  have "\<not> sakCounter r + 1 < DPS_SAK_RETRY_THRESHOLD" "\<not> DPS_SAK_RETRY_THRESHOLD + DPS_SAK_RETRY_LIMIT \<le> sakCounter r + 1"
    using assms(8,9) by (auto simp: word_less_nat_alt word_le_nat_alt DPS_SAK_RETRY_THRESHOLD_def DPS_SAK_RETRY_LIMIT_def unat_word_ariths)
  moreover obtain n3 where n3: "update_remote i (\<lambda>r. r\<lparr>sakCounter := sakCounter r + 1\<rparr>) n2 = Some n3" using update_defined[OF r2(1)] by blast
  moreover have "deref_remote n3 i = Some (r2\<lparr>sakCounter := sakCounter r2 + 1\<rparr>)" using deref_update[OF n3, of i] r2(1) by simp
  then have "send_sub env n3 i = None" using r2(2) by (simp add: send_sub_def DPS_SendSubscription_def)
  ultimately show ?thesis using n r2 s(1) assms(11) by (simp add: timer_body_def resend_def Let_def)
qed





text \<open>A neighbour of the example, and the acknowledgement it sends\<close>

definition neighbour :: DPS_NetEndpoint where
  "neighbour = \<lparr>addr = \<lparr>a_type = DPS_UDP, inaddr = AF_INET 9 9, path = []\<rparr>, cn = True\<rparr>"

lemma neighbour_ack:
  "\<exists>buf f buf'. decode_sub_fields False c64 True True DPS_UDP DPS_MaxMeshId True neighbour buf = Some (DPS_OK, f, neighbour, buf') \<and>
     f_ack f = 7 \<and> f_revision f = 5 \<and> f_flags f = 0 \<and> f_mesh f = UUID 0 1"
proof -
  let ?r = "zero_remote\<lparr>r_state := REMOTE_ACTIVE, out_revision := 5, in_revision := 7\<rparr>"
  have w: "\<not> sak_with_interests ?r False" "sak_flags ?r False = 0" by (simp_all add: sak_with_interests_def sak_flags_def sak_remote_def zero_remote_def)
  have mesh: "DPS_MinMeshId (node_with [] ?r) (Some 0) = UUID 0 1" by (simp add: DPS_MinMeshId_def node_with_def)
  have port: "listener_port (n_addr (node_with [] ?r)) = 256"
    by (simp add: listener_port_def node_with_def is_ip_def DPS_NetAddrPort_def htons_def push_bit_eq_mult drop_bit_eq_div)
  obtain node' where s: "DPS_SendSubscriptionAck zeroed (\<lambda>_ _ _. DPS_OK) (node_with [] ?r) 0 False = Some (DPS_OK, node')"
    using send_sak_succeeds[of "node_with [] ?r" 0 ?r c64 False zeroed "\<lambda>_ _ _. DPS_OK"] w by auto
  obtain buf f buf' where m: "decode_sub_fields False c64 True True DPS_UDP DPS_MaxMeshId True neighbour buf =
       Option.bind (set_listener DPS_UDP neighbour f) (\<lambda>(ret, ep). Some (ret, f, ep, buf'))"
    "f_port f = 256" "f_path f = None" "f_ack f = 7" "f_revision f = 5" "f_flags f = 0" "f_mesh f = UUID 0 1"
    using ack_message_read[OF s example_nodes(3) node_with_sender(2) c64_ok(1), where nd = False and transport = DPS_UDP and mesh = DPS_MaxMeshId and ep = neighbour]
      w mesh port by (auto simp: received_as_def listener_path_def node_with_def is_ip_def zero_remote_def)
  moreover have "set_listener DPS_UDP neighbour f = Some (DPS_OK, neighbour)"
    using m(2,3) by (simp add: set_listener_def DPS_EndpointSetPort_def neighbour_def)
  ultimately show ?thesis by auto
qed

abbreviation calm64 :: Env where
  "calm64 \<equiv> \<lparr>e_ndebug = False, e_config = c64, e_mem = \<lambda>_. True, e_malloc = zeroed, e_net = \<lambda>_ _ _. DPS_OK\<rparr>"


theorem zero_revision_assertion_witness:
  "handle_message calm64 False \<lparr>f_port = 1, f_revision = 0, f_ack = 0, f_flags = DPS_SUB_FLAG_SAK_REQ, f_mesh = UUID 7 7,
      f_interests = Some (bv64 1), f_needs = Some fh0, f_path = None, f_keys = OptKeysMask\<rparr> neighbour (node_with [bv64 3] zero_remote) = None"
proof -
  have "DPS_LookupRemoteNode (node_with [bv64 3] zero_remote) (Some (addr neighbour)) = None"
    by (simp add: DPS_LookupRemoteNode_def node_with_def neighbour_def DPS_SameAddr_def DPS_CmpAddr_def zero_remote_def)
  moreover have "DPS_UUIDCompare (UUID 7 7) (DPS_MinMeshId (node_with [bv64 3] zero_remote) None) \<noteq> 0"
    by (simp add: DPS_MinMeshId_def node_with_def zero_remote_def DPS_UUIDCompare_def)
  ultimately show ?thesis
    using zero_revision_assertion[of c64 "node_with [bv64 3] zero_remote" calm64 neighbour] by (simp add: neighbour_def)
qed

theorem muted_resend_assertion_witness:
  "\<exists>node'. accept_message calm64 False \<lparr>f_port = 1, f_revision = 1, f_ack = 0, f_flags = DPS_SUB_FLAG_SAK_REQ OR DPS_SUB_FLAG_MUTE_IND,
      f_mesh = UUID 7 7, f_interests = None, f_needs = None, f_path = None, f_keys = 0\<rparr> False
      (node_with [bv64 3] (zero_remote\<lparr>r_state := REMOTE_ACTIVE, sakPending := True, sakCounter := 1, lastSubMsgType := DPS_MSG_TYPE_SUB\<rparr>)) 0 =
      Some (DPS_ERR_INVALID, node') \<and> timer_body calm64 0 (node', False) = None"
proof -
  let ?r = "zero_remote\<lparr>r_state := REMOTE_ACTIVE, sakPending := True, sakCounter := 1, lastSubMsgType := DPS_MSG_TYPE_SUB\<rparr>"
  let ?f = "\<lparr>f_port = 1, f_revision = 1, f_ack = 0, f_flags = DPS_SUB_FLAG_SAK_REQ OR DPS_SUB_FLAG_MUTE_IND,
      f_mesh = UUID 7 7, f_interests = None, f_needs = None, f_path = None, f_keys = 0\<rparr>"
  obtain ret node' where a: "accept_message calm64 False ?f False (node_with [bv64 3] ?r) 0 = Some (ret, node')"
    by (simp add: accept_message_def node_with_def zero_remote_def deref_remote_def update_remote_def check_mute_def MeshHasLoop_def sub_flag_def
        DPS_SUB_FLAG_SAK_REQ_def DPS_SUB_FLAG_UNMUTE_REQ_def DPS_SUB_FLAG_MUTE_IND_def DPS_MuteRemoteNode_def RemoveRemoteNode_def
        InsertRemoteNode_def FreeOutboundInterests_def discard_message_def OptKeysMask_def key_defs)
  show ?thesis
    using muted_resend_assertion[OF example_nodes(3), of ?r ?f calm64 False "[bv64 3]" ret node' False] a
    by (simp add: zero_remote_def node_with_def)
qed

end
