(* ===== verification/Pub_Message.thy ===== *)
theory Pub_Message
  imports Sub_Protocol
begin

text \<open>
  Publication messages (\<^verbatim>\<open>src/pub.c\<close>): the unprotected map that \<open>DPS_SendPublication\<close> writes, the protected
  map and the payload that \<open>DPS_SerializePub\<close> writes, and the reading of all three. The cryptography of COSE
  and the random numbers are parameters, as is the value of a variable that the code reads without having
  set it.
\<close>

section \<open>Surroundings\<close>

text \<open>
  The results of the four operations of COSE: a status, and the header, the payload buffers and the footer
  that are written; the recipient, the sender and the plain text of a message that is decrypted; the sender
  and the content of a message whose signature is verified.
\<close>

record PubEnv =
  e_env :: Env
  e_now :: u64
  e_junk :: int
  e_transport :: DPS_NodeAddressType
  e_mesh :: DPS_UUID
  e_mcast :: "DPS_Node \<Rightarrow> u8 list \<Rightarrow> DPS_Status"
  e_loopback :: "DPS_NodeAddress \<Rightarrow> DPS_NodeAddress res"
  e_random :: "u8 list res"
  e_encrypt :: "u8 list \<Rightarrow> COSE_Entity option \<Rightarrow> COSE_Entity list \<Rightarrow> u8 list \<Rightarrow> u8 list list \<Rightarrow>
    DPS_Status \<times> u8 list \<times> u8 list list \<times> u8 list"
  e_sign :: "COSE_Entity \<Rightarrow> u8 list \<Rightarrow> u8 list list \<Rightarrow> DPS_Status \<times> u8 list \<times> u8 list list \<times> u8 list"
  e_decrypt :: "u8 list \<Rightarrow> u8 list \<Rightarrow> DPS_Status \<times> COSE_Entity \<times> COSE_Entity \<times> u8 list"
  e_verify :: "u8 list \<Rightarrow> u8 list \<Rightarrow> DPS_Status \<times> COSE_Entity \<times> u8 list"

abbreviation mem_of :: "PubEnv \<Rightarrow> nat \<Rightarrow> bool" where "mem_of env \<equiv> e_mem (e_env env)"

section \<open>Keys\<close>

definition DPS_CBOR_KEY_TTL :: int where "DPS_CBOR_KEY_TTL = 2"
definition DPS_CBOR_KEY_PUB_ID :: int where "DPS_CBOR_KEY_PUB_ID = 3"
definition DPS_CBOR_KEY_ACK_REQ :: int where "DPS_CBOR_KEY_ACK_REQ = 5"
definition DPS_CBOR_KEY_BLOOM_FILTER :: int where "DPS_CBOR_KEY_BLOOM_FILTER = 6"
definition DPS_CBOR_KEY_TOPICS :: int where "DPS_CBOR_KEY_TOPICS = 11"
definition DPS_CBOR_KEY_DATA :: int where "DPS_CBOR_KEY_DATA = 12"
definition DPS_CBOR_KEY_HOP_COUNT :: int where "DPS_CBOR_KEY_HOP_COUNT = 15"

lemmas pub_key_defs = key_defs DPS_CBOR_KEY_TTL_def DPS_CBOR_KEY_PUB_ID_def DPS_CBOR_KEY_ACK_REQ_def
  DPS_CBOR_KEY_BLOOM_FILTER_def DPS_CBOR_KEY_TOPICS_def DPS_CBOR_KEY_DATA_def DPS_CBOR_KEY_HOP_COUNT_def

section \<open>Time to live and nonces\<close>

text \<open>The seconds that a request has left, rounded up; the cast keeps the low 16 bits.\<close>

definition REQ_TTL :: "u64 \<Rightarrow> u64 \<Rightarrow> i16" where
  "REQ_TTL now expires = ucast ((expires + 999 - now) div 1000)"

definition COSE_ALG_RESERVED :: u8 where "COSE_ALG_RESERVED = 0"
definition COSE_ALG_A256KW :: u8 where "COSE_ALG_A256KW = - 5"
definition COSE_ALG_DIRECT :: u8 where "COSE_ALG_DIRECT = - 6"
definition COSE_ALG_ECDH_ES_A256KW :: u8 where "COSE_ALG_ECDH_ES_A256KW = - 31"

lemmas cose_alg_defs = COSE_ALG_RESERVED_def COSE_ALG_A256KW_def COSE_ALG_DIRECT_def COSE_ALG_ECDH_ES_A256KW_def

definition COSE_NONCE_LEN :: nat where "COSE_NONCE_LEN = 12"

text \<open>\<open>random\<close> is the result of \<open>DPS_RandomBytes\<close>. The adjusted bit is the first of the identifier.\<close>

definition DPS_MakeNonce :: "DPS_UUID \<Rightarrow> u32 \<Rightarrow> u8 \<Rightarrow> u8 \<Rightarrow> u8 list res \<Rightarrow> u8 list res" where
  "DPS_MakeNonce uuid seqNum msgType alg random =
     (if alg = COSE_ALG_RESERVED \<or> alg = COSE_ALG_DIRECT then
        if seqNum = 0 then Inl DPS_ERR_NONCE_OVERFLOW
        else
          (let p = take (COSE_NONCE_LEN - 4) (uuid_val uuid);
               p0 = (if msgType = DPS_MSG_TYPE_PUB then hd p AND 0x7F else hd p OR 0x80)
           in Inr (map (\<lambda>i. ucast (drop_bit (8 * i) seqNum)) [0..<4] @ p0 # tl p))
      else if alg = COSE_ALG_A256KW \<or> alg = COSE_ALG_ECDH_ES_A256KW then random
      else Inl DPS_ERR_NOT_IMPLEMENTED)"

section \<open>Recipients (src/pub.c)\<close>

text \<open>\<open>mem1\<close> and \<open>mem2\<close> tell whether the array can grow and the key identifier can be copied.\<close>

definition AddRecipient :: "bool \<Rightarrow> bool \<Rightarrow> DPS_Publication \<Rightarrow> u8 \<Rightarrow> u8 list \<Rightarrow> DPS_Publication option" where
  "AddRecipient mem1 mem2 pub alg k =
     (if \<not> mem1 \<or> (\<not> mem2 \<and> k \<noteq> []) then None
      else Some (pub\<lparr>p_recipients := p_recipients pub @ [\<lparr>cose_alg = alg, kid = k\<rparr>]\<rparr>))"

text \<open>The first recipient with the key identifier goes.\<close>

fun remove_recipient :: "u8 list \<Rightarrow> COSE_Entity list \<Rightarrow> COSE_Entity list" where
  "remove_recipient k [] = []"
| "remove_recipient k (r # rs) = (if kid r = k then rs else r # remove_recipient k rs)"

definition RemoveRecipient :: "DPS_Publication \<Rightarrow> u8 list \<Rightarrow> DPS_Publication" where
  "RemoveRecipient pub k = pub\<lparr>p_recipients := remove_recipient k (p_recipients pub)\<rparr>"

section \<open>Writing\<close>

subsection \<open>The protected map and the payload\<close>

definition enc_int16 :: "i16 \<Rightarrow> enc_step" where
  "enc_int16 n = enc (\<lambda>b. CBOR_EncodeInt b (scast n))"

text \<open>\<open>bfBuf\<close> and \<open>topicsBuf\<close> are the serialized Bloom filter and topics of the publication.\<close>

definition protected_steps :: "i16 \<Rightarrow> DPS_UUID \<Rightarrow> u32 \<Rightarrow> bool \<Rightarrow> u8 list \<Rightarrow> enc_step list" where
  "protected_steps ttl pubId sequenceNum ack bfBuf =
     [enc (\<lambda>b. CBOR_EncodeMap b 5),
      enc_key DPS_CBOR_KEY_TTL, enc_int16 ttl,
      enc_key DPS_CBOR_KEY_PUB_ID, enc (\<lambda>b. CBOR_EncodeUUID b (uuid_val pubId)),
      enc_key DPS_CBOR_KEY_SEQ_NUM, enc_uint (ucast sequenceNum),
      enc_key DPS_CBOR_KEY_ACK_REQ, enc (\<lambda>b. CBOR_EncodeBoolean b ack),
      enc_key DPS_CBOR_KEY_BLOOM_FILTER, enc (\<lambda>b. CBOR_Copy b (Some bfBuf) (length bfBuf))]"

definition protected_size :: "nat \<Rightarrow> nat" where
  "protected_size bfLen = CBOR_SIZEOF_LEN 5 + 5 * 2 + (16 + CBOR_SIZEOF_LEN 16) + 5 + 1 +
     (bfLen + CBOR_SIZEOF_LEN (word_of_nat bfLen)) + 3"

definition encrypted_steps :: "u8 list \<Rightarrow> nat \<Rightarrow> enc_step list" where
  "encrypted_steps topicsBuf dataLen =
     [enc (\<lambda>b. CBOR_EncodeMap b 2),
      enc_key DPS_CBOR_KEY_TOPICS, enc (\<lambda>b. DPS_TxBufferAppend b (Some topicsBuf) (length topicsBuf)),
      enc_key DPS_CBOR_KEY_DATA, enc (\<lambda>b. CBOR_EncodeLength b (word_of_nat dataLen) CBOR_BYTES)]"

definition encrypted_size :: "nat \<Rightarrow> nat \<Rightarrow> nat" where
  "encrypted_size topicsLen dataLen = CBOR_SIZEOF_LEN 2 + 2 * 2 + topicsLen + CBOR_SIZEOF_LEN (word_of_nat dataLen)"

text \<open>A buffer of \<open>len\<close> bytes is allocated and the steps are run on it.\<close>

definition write_buf :: "(nat \<Rightarrow> u8 list option) \<Rightarrow> nat \<Rightarrow> enc_step list \<Rightarrow> (DPS_Status \<times> u8 list) option" where
  "write_buf malloc len steps =
     (case DPS_TxBufferInit malloc None len of
        (ret, buf) \<Rightarrow> do { (ret, buf, _) \<leftarrow> run_steps steps (ret, (buf, None)); Some (ret, tx_out buf) })"

text \<open>
  The message is encrypted for the recipients, or signed when there are none, or left as it is. The results
  are the status, the header, the payload and the footer.
\<close>

definition seal ::
  "PubEnv \<Rightarrow> COSE_Entity \<Rightarrow> COSE_Entity list \<Rightarrow> DPS_UUID \<Rightarrow> u32 \<Rightarrow> u8 \<Rightarrow> u8 list \<Rightarrow> u8 list list \<Rightarrow>
   DPS_Status \<times> u8 list \<times> u8 list list \<times> u8 list" where
  "seal env signer recipients pubId sequenceNum msgType aad payload =
     (case recipients of
        r # _ \<Rightarrow>
          (case DPS_MakeNonce pubId sequenceNum msgType (cose_alg r) (e_random env) of
             Inl e \<Rightarrow> (e, [], payload, [])
           | Inr iv \<Rightarrow> e_encrypt env iv (if cose_alg signer \<noteq> 0 then Some signer else None) recipients aad payload)
      | [] \<Rightarrow> if cose_alg signer \<noteq> 0 then e_sign env signer aad payload else (DPS_OK, [], payload, []))"

text \<open>
  The buffers of the request: the protected map, the header of COSE, the header of the payload with the
  topics, the application's data and the footer of COSE. \<open>None\<close> is the failing assertion on their number, or
  a request that has been freed. On an error the buffers of the node are freed.
\<close>

definition DPS_SerializePub ::
  "PubEnv \<Rightarrow> DPS_Node \<Rightarrow> nat \<Rightarrow> u8 list list \<Rightarrow> i16 \<Rightarrow> (DPS_Status \<times> DPS_Node) option" where
  "DPS_SerializePub env node req bufs ttl =
     do {
       q \<leftarrow> reqs node req;
       p \<leftarrow> pubs node (q_pub q);
       if length (q_bufs q) \<noteq> length bufs + NUM_INTERNAL_PUB_BUFS then None
       else
         do {
           (ret, prot) \<leftarrow> write_buf (e_malloc (e_env env)) (protected_size (length (p_bfBuf p)))
             (protected_steps ttl (p_id p) (q_seq q) (p_ack p) (p_bfBuf p));
           (ret, head) \<leftarrow>
             (if ret = DPS_OK
              then write_buf (e_malloc (e_env env)) (encrypted_size (length (p_topicsBuf p)) (length (concat bufs)))
                     (encrypted_steps (p_topicsBuf p) (length (concat bufs)))
              else Some (ret, []));
           if ret \<noteq> DPS_OK then Some (ret, node)
           else
             (case seal env (n_signer node) (p_recipients p) (p_id p) (q_seq q) DPS_MSG_TYPE_PUB prot (head # bufs) of
                (ret, coseHead, payload, coseFoot) \<Rightarrow>
                  do {
                    node \<leftarrow> update_req req
                      (\<lambda>q. q\<lparr>q_bufs := (if ret = DPS_OK then [prot, coseHead] @ payload @ [coseFoot]
                                        else [[], [], []] @ bufs @ [[]])\<rparr>) node;
                    Some (ret, node)
                  })
         }
     }"

subsection \<open>The unprotected map\<close>

definition pub_header_steps :: "DPS_NodeAddress \<Rightarrow> i16 \<Rightarrow> u16 \<Rightarrow> enc_step list" where
  "pub_header_steps a ttl hopCount =
     header_steps DPS_MSG_TYPE_PUB 3 @ port_steps a @ [enc_key DPS_CBOR_KEY_TTL, enc_int16 ttl] @ path_steps a @
     [enc_key DPS_CBOR_KEY_HOP_COUNT, enc_uint (ucast hopCount)]"

text \<open>\<open>None\<close> is the invalid kind of address.\<close>

definition pub_header_size :: "DPS_NodeAddress \<Rightarrow> nat option" where
  "pub_header_size a =
     map_option (\<lambda>n. CBOR_SIZEOF_LEN 5 + 2 + 2 + CBOR_SIZEOF_LEN 3 + 3 * 2 + 3 + 3 + n) (addr_size a)"

section \<open>Reading\<close>

text \<open>
  The loop over a map with the fields \<open>f\<close>. When the map parser returns without a key, the variable for the key
  holds \<open>junk\<close>.
\<close>

function parse_map ::
  "(int \<Rightarrow> DPS_RxBuffer \<Rightarrow> 'f \<Rightarrow> DPS_Status \<times> 'f \<times> DPS_RxBuffer) \<Rightarrow> int \<Rightarrow> CBOR_MapState \<Rightarrow> 'f \<Rightarrow> DPS_Status \<times> 'f \<times> DPS_RxBuffer" where
  "parse_map dec junk ms f =
     (case DPS_ParseMapDone ms of
        (True, ms) \<Rightarrow> (DPS_OK, f, ms_buffer ms)
      | (False, ms) \<Rightarrow>
          (case DPS_ParseMapNext ms of
             (ms, key) \<Rightarrow>
               if ms_result ms \<noteq> DPS_OK then (ms_result ms, f, ms_buffer ms)
               else
                 (case dec (case key of None \<Rightarrow> junk | Some k \<Rightarrow> k) (ms_buffer ms) f of
                    (ret, f, b) \<Rightarrow>
                      if ret \<noteq> DPS_OK then (ret, f, b) else parse_map dec junk (ms\<lparr>ms_buffer := b\<rparr>) f)))"
  by pat_completeness auto
termination
  by (relation "measure (\<lambda>(_, _, ms, _). ms_entries ms)")
    (auto dest!: parse_done_entries[OF sym] parse_next_entries[OF sym])

declare parse_map.simps [simp del]

definition read_map ::
  "(int \<Rightarrow> DPS_RxBuffer \<Rightarrow> 'f \<Rightarrow> DPS_Status \<times> 'f \<times> DPS_RxBuffer) \<Rightarrow> int \<Rightarrow> int list \<Rightarrow> int list \<Rightarrow> 'f \<Rightarrow> DPS_RxBuffer \<Rightarrow>
   DPS_Status \<times> 'f \<times> DPS_RxBuffer" where
  "read_map dec junk keys optKeys f b =
     (let ms = DPS_ParseMapInit b keys optKeys in
      if ms_result ms \<noteq> DPS_OK then (ms_result ms, f, ms_buffer ms) else parse_map dec junk ms f)"

subsection \<open>The fields of a publication\<close>

record PubFields =
  g_port :: u16
  g_ttl :: i16
  g_path :: "u8 list"
  g_hop :: u16
  g_keys :: u16
  g_base :: i16
  g_id :: DPS_UUID
  g_seq :: u32
  g_ack :: bool
  g_bf :: "u8 list"

definition pub_fields0 :: PubFields where
  "pub_fields0 = \<lparr>g_port = 0, g_ttl = 0, g_path = [], g_hop = 0, g_keys = 0, g_base = 0, g_id = UUID 0 0, g_seq = 0, g_ack = False, g_bf = []\<rparr>"

definition mark_pub_key :: "int \<Rightarrow> PubFields \<Rightarrow> PubFields" where
  "mark_pub_key k f = f\<lparr>g_keys := g_keys f OR push_bit (nat k) 1\<rparr>"

definition decode_unprotected :: "int \<Rightarrow> DPS_RxBuffer \<Rightarrow> PubFields \<Rightarrow> DPS_Status \<times> PubFields \<times> DPS_RxBuffer" where
  "decode_unprotected key b f =
     (if key = DPS_CBOR_KEY_PORT then
        (let f = mark_pub_key key f in store_field (CBOR_DecodeUint16 b) (\<lambda>x. f\<lparr>g_port := x\<rparr>) f)
      else if key = DPS_CBOR_KEY_TTL then store_field (CBOR_DecodeInt16 b) (\<lambda>x. f\<lparr>g_ttl := x\<rparr>) f
      else if key = DPS_CBOR_KEY_PATH then
        (let f = mark_pub_key key f in
         case CBOR_DecodeString b of
           (Inl e, b) \<Rightarrow> (e, f, b)
         | (Inr p, b) \<Rightarrow> (if length p \<ge> DPS_NODE_ADDRESS_PATH_MAX then DPS_ERR_INVALID else DPS_OK, f\<lparr>g_path := p\<rparr>, b))
      else if key = DPS_CBOR_KEY_HOP_COUNT then store_field (CBOR_DecodeUint16 b) (\<lambda>x. f\<lparr>g_hop := x\<rparr>) f
      else (DPS_OK, f, b))"

text \<open>The time to live of the message must not exceed the one it was published with.\<close>

definition decode_protected :: "int \<Rightarrow> DPS_RxBuffer \<Rightarrow> PubFields \<Rightarrow> DPS_Status \<times> PubFields \<times> DPS_RxBuffer" where
  "decode_protected key b f =
     (if key = DPS_CBOR_KEY_TTL then
        (case CBOR_DecodeInt16 b of
           (Inl e, b) \<Rightarrow> (e, f, b)
         | (Inr base, b) \<Rightarrow>
             (if (sint base < 0 \<and> sint (g_ttl f) \<ge> 0) \<or> sint (g_ttl f) > sint base then DPS_ERR_INVALID else DPS_OK, f\<lparr>g_base := base\<rparr>, b))
      else if key = DPS_CBOR_KEY_PUB_ID then store_field (CBOR_DecodeUUID b) (\<lambda>x. f\<lparr>g_id := uuid_of x\<rparr>) f
      else if key = DPS_CBOR_KEY_SEQ_NUM then
        (case CBOR_DecodeUint32 b of
           (Inl e, b) \<Rightarrow> (e, f, b)
         | (Inr n, b) \<Rightarrow> (if n = 0 then DPS_ERR_INVALID else DPS_OK, f\<lparr>g_seq := n\<rparr>, b))
      else if key = DPS_CBOR_KEY_ACK_REQ then store_field (CBOR_DecodeBoolean b) (\<lambda>x. f\<lparr>g_ack := x\<rparr>) f
      else if key = DPS_CBOR_KEY_BLOOM_FILTER then
        (case CBOR_Skip b of
           (ret, b', _) \<Rightarrow> if ret = DPS_OK then (DPS_OK, f\<lparr>g_bf := take (rxPos b' - rxPos b) (rx_rem b)\<rparr>, b') else (ret, f, b'))
      else (DPS_OK, f, b))"

definition UnprotectedKeys :: "int list" where "UnprotectedKeys = [DPS_CBOR_KEY_TTL, DPS_CBOR_KEY_HOP_COUNT]"
definition UnprotectedOptKeys :: "int list" where "UnprotectedOptKeys = [DPS_CBOR_KEY_PORT, DPS_CBOR_KEY_PATH]"
definition ProtectedKeys :: "int list" where
  "ProtectedKeys = [DPS_CBOR_KEY_TTL, DPS_CBOR_KEY_PUB_ID, DPS_CBOR_KEY_SEQ_NUM, DPS_CBOR_KEY_ACK_REQ, DPS_CBOR_KEY_BLOOM_FILTER]"

definition has_key :: "int \<Rightarrow> PubFields \<Rightarrow> bool" where
  "has_key k f \<longleftrightarrow> g_keys f AND push_bit (nat k) 1 \<noteq> 0"

text \<open>
  The first part of \<open>DPS_DecodePublication\<close>, which does not depend on the node: the fields, the endpoint with
  the address the sender listens on, the bytes of the protected map and the rest. \<open>None\<close> is a failing
  assertion on the endpoint.
\<close>

definition decode_pub_fields ::
  "int \<Rightarrow> DPS_NodeAddressType \<Rightarrow> DPS_NetEndpoint \<Rightarrow> DPS_RxBuffer \<Rightarrow>
   (DPS_Status \<times> PubFields \<times> DPS_NetEndpoint \<times> u8 list \<times> DPS_RxBuffer) option" where
  "decode_pub_fields junk transport ep buf =
     (case read_map decode_unprotected junk UnprotectedKeys UnprotectedOptKeys pub_fields0 buf of
        (ret, f, b) \<Rightarrow>
          if ret \<noteq> DPS_OK then Some (ret, f, ep, [], b)
          else if \<not> has_key DPS_CBOR_KEY_PORT f \<and> \<not> has_key DPS_CBOR_KEY_PATH f then Some (DPS_ERR_INVALID, f, ep, [], b)
          else
            (case read_map decode_protected junk ProtectedKeys [] f b of
               (ret, f, b') \<Rightarrow>
                 if ret \<noteq> DPS_OK then Some (ret, f, ep, [], b')
                 else
                   map_option (\<lambda>ep. (DPS_OK, f, ep, take (rxPos b' - rxPos b) (rx_rem b), b'))
                     (if has_key DPS_CBOR_KEY_PORT f then DPS_EndpointSetPort transport ep (g_port f)
                      else DPS_EndpointSetPath ep (g_path f))))"

subsection \<open>The payload\<close>

record PubBody =
  b_topics :: "u8 list list"
  b_data :: "u8 list"

text \<open>A topic is copied up to its first zero. The copies are taken to be allocated.\<close>

fun decode_topics :: "nat \<Rightarrow> DPS_RxBuffer \<Rightarrow> u8 list list res \<times> DPS_RxBuffer" where
  "decode_topics 0 b = (Inr [], b)"
| "decode_topics (Suc n) b =
     (case CBOR_DecodeString b of
        (Inl e, b) \<Rightarrow> (Inl e, b)
      | (Inr s, b) \<Rightarrow>
          (case decode_topics n b of
             (Inl e, b) \<Rightarrow> (Inl e, b)
           | (Inr ts, b) \<Rightarrow> (Inr (takeWhile (\<lambda>c. c \<noteq> 0) s # ts), b)))"

definition decode_encrypted :: "bool \<Rightarrow> int \<Rightarrow> DPS_RxBuffer \<Rightarrow> PubBody \<Rightarrow> DPS_Status \<times> PubBody \<times> DPS_RxBuffer" where
  "decode_encrypted mem key b f =
     (if key = DPS_CBOR_KEY_TOPICS then
        (case CBOR_DecodeArray b of
           (Inl e, b) \<Rightarrow> (e, f, b)
         | (Inr n, b) \<Rightarrow>
             if n = 0 then (DPS_ERR_INVALID, f, b)
             else if \<not> mem then (DPS_ERR_RESOURCES, f, b)
             else store_field (decode_topics n b) (\<lambda>ts. f\<lparr>b_topics := ts\<rparr>) f)
      else if key = DPS_CBOR_KEY_DATA then store_field (CBOR_DecodeBytes b) (\<lambda>d. f\<lparr>b_data := d\<rparr>) f
      else (DPS_OK, f, b))"

definition EncryptedKeys :: "int list" where "EncryptedKeys = [DPS_CBOR_KEY_TOPICS, DPS_CBOR_KEY_DATA]"

definition COSE_TAG_ENCRYPT0 :: u64 where "COSE_TAG_ENCRYPT0 = 16"
definition COSE_TAG_SIGN1 :: u64 where "COSE_TAG_SIGN1 = 18"
definition COSE_TAG_ENCRYPT :: u64 where "COSE_TAG_ENCRYPT = 96"

text \<open>
  The key with which an acknowledgement will be encrypted: the recipient's for a symmetric key, the sender's for
  an asymmetric one.
\<close>

definition ack_recipient :: "PubEnv \<Rightarrow> COSE_Entity \<Rightarrow> DPS_Publication \<Rightarrow> DPS_Status \<times> DPS_Publication" where
  "ack_recipient env recipient pub =
     (if cose_alg recipient = COSE_ALG_RESERVED then (DPS_OK, pub)
      else
        (let add = (\<lambda>k. case AddRecipient (mem_of env 12) (mem_of env 13) pub (cose_alg recipient) k of
               None \<Rightarrow> (DPS_ERR_RESOURCES, pub) | Some pub \<Rightarrow> (DPS_OK, pub))
         in if cose_alg recipient = COSE_ALG_DIRECT \<or> cose_alg recipient = COSE_ALG_A256KW then add (kid recipient)
            else if cose_alg recipient = COSE_ALG_ECDH_ES_A256KW then add (kid (p_senderId pub))
            else (DPS_ERR_MISSING, pub)))"

text \<open>The plain bytes of the payload\<close>

definition open_pub :: "PubEnv \<Rightarrow> u8 list \<Rightarrow> u8 list \<Rightarrow> DPS_Publication \<Rightarrow> DPS_Status \<times> u8 list \<times> DPS_Publication" where
  "open_pub env aad cipher pub =
     (case CBOR_Peek \<lparr>rx_base = cipher, rxPos = 0\<rparr> True of
        Inl e \<Rightarrow> (e, [], pub)
      | Inr (type, tag) \<Rightarrow>
          if type \<noteq> CBOR_TAG then (DPS_OK, cipher, pub)
          else if tag = COSE_TAG_ENCRYPT0 \<or> tag = COSE_TAG_ENCRYPT then
            (case e_decrypt env aad cipher of
               (ret, recipient, from, plain) \<Rightarrow>
                 (let pub = pub\<lparr>p_senderId := from\<rparr> in
                  if ret = DPS_OK \<and> p_ack pub
                  then (case ack_recipient env recipient pub of (ret, pub) \<Rightarrow> (ret, plain, pub))
                  else (ret, plain, pub)))
          else if tag = COSE_TAG_SIGN1 then
            (case e_verify env aad cipher of (ret, from, content) \<Rightarrow> (ret, content, pub\<lparr>p_senderId := from\<rparr>))
          else (DPS_ERR_INVALID, [], pub))"

definition DecryptAndParsePub :: "PubEnv \<Rightarrow> u8 list \<Rightarrow> u8 list \<Rightarrow> DPS_Publication \<Rightarrow> DPS_Status \<times> PubBody \<times> DPS_Publication" where
  "DecryptAndParsePub env aad cipher pub =
     (case open_pub env aad cipher pub of
        (ret, bytes, pub) \<Rightarrow>
          if ret \<noteq> DPS_OK then (DPS_ERR_SECURITY, \<lparr>b_topics = [], b_data = []\<rparr>, pub)
          else
            (case read_map (decode_encrypted (mem_of env 14)) (e_junk env) EncryptedKeys [] \<lparr>b_topics = [], b_data = []\<rparr>
                    \<lparr>rx_base = bytes, rxPos = 0\<rparr> of
               (ret, body, _) \<Rightarrow> (ret, body, pub)))"

end
