(* ===== verification/Pub_Receive.thy ===== *)
theory Pub_Receive
  imports Pub_Message
begin

text \<open>
  What a node does with a received publication (\<^verbatim>\<open>src/pub.c\<close>): the publication it belongs to, the history, the
  handlers of the subscribers, and the request to forward it.

  A callback of the application is an event; what the application does in answer to it is a later operation
  on the node. \<open>None\<close> is the use of a freed object, a failing assertion, or undefined behaviour.
\<close>

section \<open>History (src/pub.c)\<close>

definition note_history :: "PubEnv \<Rightarrow> DPS_UUID \<Rightarrow> u32 \<Rightarrow> bool \<Rightarrow> u16 \<Rightarrow> u16 \<Rightarrow> DPS_NodeAddress \<Rightarrow> DPS_Node \<Rightarrow> DPS_Node option" where
  "note_history env pubId sequenceNum ack ttl hopCount a node =
     do {
       (_, h) \<leftarrow> DPS_UpdatePubHistory (mem_of env 10) (mem_of env 11) (e_now env) (n_history node) pubId sequenceNum ack ttl hopCount a;
       Some (node\<lparr>n_history := h\<rparr>)
     }"

definition UpdatePubHistory :: "PubEnv \<Rightarrow> nat \<Rightarrow> DPS_Node \<Rightarrow> DPS_Node option" where
  "UpdatePubHistory env req node =
     do {
       q \<leftarrow> reqs node req;
       p \<leftarrow> pubs node (q_pub q);
       note_history env (p_id p) (q_seq q) (p_ack p) (REQ_TTL (e_now env) (q_expires q)) (q_hopCount q) (p_sender p) node
     }"

section \<open>Calling the handlers of subscribers (src/pub.c)\<close>

text \<open>
  A local publication is handed over as a copy with the sequence number of the request; without memory for
  the copy the handler is not called.
\<close>

definition call_handler :: "PubEnv \<Rightarrow> DPS_Subscription \<Rightarrow> DPS_Publication \<Rightarrow> DPS_PublishRequest \<Rightarrow> u8 list \<Rightarrow> DPS_Node \<Rightarrow> DPS_Node" where
  "call_handler env sub p q data node =
     (if \<not> has_flag PUB_FLAG_LOCAL p then emit (Handler (s_id sub) (p_id p) (p_seq p) data) node
      else if mem_of env 15 then emit (Handler (s_id sub) (p_id p) (q_seq q) data) node
      else node)"

text \<open>
  The loop over the subscriptions. The payload is read for the first candidate; when it cannot be decrypted it
  is not meant for this node, which is not an error.
\<close>

definition is_candidate :: "DPS_Publication \<Rightarrow> DPS_Subscription \<Rightarrow> bool" where
  "is_candidate p sub \<longleftrightarrow> \<not> (has_flag PUB_FLAG_EXPIRED p \<and> s_flags sub AND SUB_FLAG_EXPIRED = 0) \<and>
     DPS_BitVectorIncludes (p_bf p) (s_bf sub)"

fun call_handlers ::
  "PubEnv \<Rightarrow> nat \<Rightarrow> nat \<Rightarrow> PubBody option \<Rightarrow> DPS_Subscription list \<Rightarrow> DPS_Node \<Rightarrow> (DPS_Status \<times> DPS_Node) option" where
  "call_handlers env req pub body [] node = Some (DPS_OK, node)"
| "call_handlers env req pub body (sub # subs) node =
     do {
       p \<leftarrow> pubs node pub;
       q \<leftarrow> reqs node req;
       if \<not> is_candidate p sub then call_handlers env req pub body subs node
       else
         (case (case body of Some b \<Rightarrow> (DPS_OK, b, p) | None \<Rightarrow> DecryptAndParsePub env (q_bufs q ! 0) (q_bufs q ! 1) p) of
            (ret, b, p) \<Rightarrow>
              do {
                node \<leftarrow> update_pub pub (\<lambda>_. p) node;
                if ret \<noteq> DPS_OK then Some (if ret = DPS_ERR_SECURITY then DPS_OK else ret, node)
                else
                  do {
                    node \<leftarrow>
                      (if DPS_MatchTopicList (Some (b_topics b)) (Some (s_topics sub)) (Some (separators node)) False = (DPS_OK, True)
                       then do { node \<leftarrow> UpdatePubHistory env req node; Some (call_handler env sub p q (b_data b) node) }
                       else Some node);
                    call_handlers env req pub (Some b) subs node
                  }
              })
     }"

text \<open>In the end the topics of the publication are freed.\<close>

definition DPS_CallPubHandlers :: "PubEnv \<Rightarrow> nat \<Rightarrow> DPS_Node \<Rightarrow> (DPS_Status \<times> DPS_Node) option" where
  "DPS_CallPubHandlers env req node =
     do {
       q \<leftarrow> reqs node req;
       p \<leftarrow> pubs node (q_pub q);
       if p_bf p = None then Some (DPS_ERR_ARGS, node)
       else
         do {
           (ret, node) \<leftarrow> call_handlers env req (q_pub q) None (subscriptions node) node;
           node \<leftarrow> update_pub (q_pub q) (\<lambda>p. p\<lparr>p_topics := []\<rparr>) node;
           Some (ret, node)
         }
     }"

section \<open>Received publications (src/pub.c)\<close>

text \<open>What \<open>calloc\<close> returns for a publication\<close>

definition zero_pub :: DPS_Publication where
  "zero_pub = \<lparr>p_ack = False, p_handler = False, p_id = UUID 0 0, p_bf = None, p_bfBuf = [], p_topics = [], p_topicsBuf = [],
     p_sender = addr (r_ep zero_remote), p_sendQueue = [], p_retainedQueue = [], p_flags = 0, p_refCount = 0, p_seq = 0, p_ttl = 0,
     p_recipients = [], p_senderId = no_entity\<rparr>"

text \<open>
  The publication that the fields of a message are for, with a reference: one that is retained, one that has
  been received before, or a new one. When there is no memory for the filter of a new one it is not linked.
\<close>

definition find_publication :: "PubEnv \<Rightarrow> PubFields \<Rightarrow> DPS_Node \<Rightarrow> (DPS_Status \<times> nat option \<times> DPS_Node) option" where
  "find_publication env f node =
     do {
       retained \<leftarrow> LookupRetained node (g_id f);
       case retained of
         Some pub \<Rightarrow>
           do {
             p \<leftarrow> pubs node pub;
             if g_seq f \<le> p_seq p then Some (DPS_ERR_STALE, None, node)
             else do { node \<leftarrow> DPS_PublicationIncRef pub node; Some (DPS_OK, Some pub, node) }
           }
       | None \<Rightarrow>
           if sint (g_ttl f) < 0 then Some (DPS_ERR_STALE, None, node)
           else
             do {
               stale \<leftarrow> DPS_PublicationIsStale (n_history node) (g_id f) (g_seq f);
               if stale then Some (DPS_ERR_STALE, None, node)
               else
                 do {
                   known \<leftarrow> LookupPublication node (g_id f);
                   case known of
                     Some pub \<Rightarrow> do { node \<leftarrow> DPS_PublicationIncRef pub node; Some (DPS_OK, Some pub, node) }
                   | None \<Rightarrow>
                       if \<not> mem_of env 16 then Some (DPS_ERR_RESOURCES, None, node)
                       else
                         (let pub = nextPub node; p = zero_pub\<lparr>p_refCount := 1\<rparr>; node = node\<lparr>nextPub := pub + 1\<rparr> in
                          case DPS_BitVectorAlloc (mem_of env 17) (e_config (e_env env)) of
                            None \<Rightarrow> Some (DPS_ERR_RESOURCES, Some pub, node\<lparr>pubs := (pubs node)(pub \<mapsto> p)\<rparr>)
                          | Some bf \<Rightarrow>
                              Some (DPS_OK, Some pub, node\<lparr>pubs := (pubs node)(pub \<mapsto> p\<lparr>p_bf := Some bf, p_id := g_id f\<rparr>),
                                publications := pub # publications node\<rparr>))
                 }
             }
     }"

text \<open>
  The end of \<open>DPS_DecodePublication\<close>. On success the reference to the publication is given up; on an error the
  request is freed and the publication is, too.
\<close>

definition decode_exit ::
  "PubEnv \<Rightarrow> PubFields \<Rightarrow> DPS_NetEndpoint \<Rightarrow> DPS_Status \<Rightarrow> nat option \<Rightarrow> nat option \<Rightarrow> i16 \<Rightarrow> DPS_Node \<Rightarrow> (DPS_Status \<times> DPS_Node) option" where
  "decode_exit env f ep ret req pub ttl node =
     (if ret = DPS_OK then do { pub \<leftarrow> pub; node \<leftarrow> DPS_PublicationDecRef pub node; Some (ret, node) }
      else if req \<noteq> None \<and> pub = None then None
      else
        do {
          node \<leftarrow> DPS_DestroyPublishRequest req node;
          node \<leftarrow> (case pub of None \<Rightarrow> Some node | Some pub \<Rightarrow> FreePublication node pub);
          node \<leftarrow> note_history env (g_id f) (g_seq f) (g_ack f) (if sint ttl < 0 then 0 else ttl) (g_hop f + 1) (addr ep) node;
          Some (ret, node)
        })"

text \<open>The flags of a publication and its time to live as the message has it\<close>

definition set_ttl :: "i16 \<Rightarrow> DPS_Publication \<Rightarrow> DPS_Publication" where
  "set_ttl ttl p =
     (if sint ttl < 0 then set_flag PUB_FLAG_EXPIRED p
      else if ttl = 0 then clear_flag PUB_FLAG_RETAINED p
      else set_flag PUB_FLAG_RETAINED p)\<lparr>p_ttl := ttl\<rparr>"

text \<open>The subscribers are called and the request to forward the message is queued.\<close>

definition deliver_publication ::
  "PubEnv \<Rightarrow> PubFields \<Rightarrow> DPS_NetEndpoint \<Rightarrow> i16 \<Rightarrow> nat \<Rightarrow> nat \<Rightarrow> DPS_Node \<Rightarrow> (DPS_Status \<times> DPS_Node) option" where
  "deliver_publication env f ep ttl pub req node =
     do {
       (ret, node) \<leftarrow> DPS_CallPubHandlers env req node;
       if ret \<noteq> DPS_OK then decode_exit env f ep ret (Some req) (Some pub) ttl node
       else
         do {
           node \<leftarrow> update_req req (\<lambda>q. q\<lparr>q_ttl := ttl, q_expires := e_now env + DPS_SECS_TO_MS (scast ttl)\<rparr>) node;
           node \<leftarrow> UpdatePubHistory env req node;
           node \<leftarrow> update_pub pub (\<lambda>p. p\<lparr>p_sendQueue := p_sendQueue p @ [req]\<rparr>) node;
           node \<leftarrow> update_req req (\<lambda>q. q\<lparr>q_refCount := q_refCount q + 1\<rparr>) node;
           decode_exit env f ep DPS_OK (Some req) (Some pub) ttl (emit Wake_Pubs node)
         }
     }"

text \<open>
  The message is for the publication \<open>pub\<close>: its filter is read and it is delivered. \<open>prot\<close> and \<open>payload\<close> are forwarded as they were received.
\<close>

definition receive_publication ::
  "PubEnv \<Rightarrow> PubFields \<Rightarrow> DPS_NetEndpoint \<Rightarrow> u8 list \<Rightarrow> u8 list \<Rightarrow> nat \<Rightarrow> DPS_Node \<Rightarrow> (DPS_Status \<times> DPS_Node) option" where
  "receive_publication env f ep prot payload pub node =
     do {
       node \<leftarrow> update_pub pub (\<lambda>p. p\<lparr>p_seq := g_seq f, p_ack := g_ack f, p_sender := addr ep, p_topics := []\<rparr>) node;
       case DPS_CreatePublishRequest (mem_of env 18) pub 0 False node of
         (None, node) \<Rightarrow> decode_exit env f ep DPS_ERR_RESOURCES None (Some pub) (g_ttl f) node
       | (Some req, node) \<Rightarrow>
           do {
             node \<leftarrow> update_req req
               (\<lambda>q. q\<lparr>q_status := DPS_ERR_NO_ROUTE, q_seq := g_seq f, q_hopCount := g_hop f + 1, q_bufs := [prot, payload, [], []]\<rparr>) node;
             p \<leftarrow> pubs node pub;
             if sint (g_ttl f) < 0 \<and> \<not> has_flag PUB_FLAG_RETAINED p
             then decode_exit env f ep DPS_ERR_INVALID (Some req) (Some pub) (g_ttl f) node
             else
               do {
                 node \<leftarrow> update_pub pub (set_ttl (g_ttl f)) node;
                 bf \<leftarrow> p_bf p;
                 (ret, bf, _) \<leftarrow> DPS_BitVectorDeserialize (e_ndebug (e_env env)) bf \<lparr>rx_base = g_bf f, rxPos = 0\<rparr>;
                 node \<leftarrow> update_pub pub (\<lambda>p. p\<lparr>p_bf := Some bf\<rparr>) node;
                 (let ttl = (if has_flag PUB_FLAG_EXPIRED (set_ttl (g_ttl f) p) then 0 else g_ttl f) in
                  if ret \<noteq> DPS_OK then decode_exit env f ep ret (Some req) (Some pub) ttl node
                  else deliver_publication env f ep ttl pub req node)
               }
           }
     }"

definition DPS_DecodePublication :: "PubEnv \<Rightarrow> DPS_Node \<Rightarrow> DPS_NetEndpoint \<Rightarrow> DPS_RxBuffer \<Rightarrow> (DPS_Status \<times> DPS_Node) option" where
  "DPS_DecodePublication env node ep buf =
     do {
       (ret, f, ep, prot, rest) \<leftarrow> decode_pub_fields (e_junk env) (e_transport env) ep buf;
       if ret \<noteq> DPS_OK then Some (ret, node)
       else
         do {
           (ret, pub, node) \<leftarrow> find_publication env f node;
           if ret \<noteq> DPS_OK then decode_exit env f ep ret None pub (g_ttl f) node
           else do { pub \<leftarrow> pub; receive_publication env f ep prot (rx_rem rest) pub node }
         }
     }"

end
