(* ===== verification/Pub_Send.thy ===== *)
theory Pub_Send
  imports Pub_Receive
begin

text \<open>
  Sending publications and acknowledgements (\<^verbatim>\<open>src/pub.c\<close>, \<^verbatim>\<open>src/ack.c\<close>, \<^verbatim>\<open>src/dps.c\<close>): the dispatch of received
  messages, which a node also sends to itself, the task that sends and retains publications, publishing, and
  the way of an acknowledgement back to the publisher.
\<close>

section \<open>Received acknowledgements (src/ack.c)\<close>

record AckFields =
  h_id :: DPS_UUID
  h_seq :: u32

definition decode_ack :: "int \<Rightarrow> DPS_RxBuffer \<Rightarrow> AckFields \<Rightarrow> DPS_Status \<times> AckFields \<times> DPS_RxBuffer" where
  "decode_ack key b f =
     (if key = DPS_CBOR_KEY_PUB_ID then store_field (CBOR_DecodeUUID b) (\<lambda>x. f\<lparr>h_id := uuid_of x\<rparr>) f
      else if key = DPS_CBOR_KEY_ACK_SEQ_NUM then
        (case CBOR_DecodeUint32 b of
           (Inl e, b) \<Rightarrow> (e, f, b)
         | (Inr n, b) \<Rightarrow> (if n = 0 then DPS_ERR_INVALID else DPS_OK, f\<lparr>h_seq := n\<rparr>, b))
      else (DPS_OK, f, b))"

definition decode_ack_data :: "int \<Rightarrow> DPS_RxBuffer \<Rightarrow> u8 list \<Rightarrow> DPS_Status \<times> u8 list \<times> DPS_RxBuffer" where
  "decode_ack_data key b d =
     (if key = DPS_CBOR_KEY_DATA then store_field (CBOR_DecodeBytes b) (\<lambda>x. x) d else (DPS_OK, d, b))"

definition open_ack :: "PubEnv \<Rightarrow> u8 list \<Rightarrow> u8 list \<Rightarrow> DPS_Status \<times> u8 list" where
  "open_ack env aad cipher =
     (case CBOR_Peek \<lparr>rx_base = cipher, rxPos = 0\<rparr> True of
        Inr (type, tag) \<Rightarrow>
          if type \<noteq> CBOR_TAG then (DPS_OK, cipher)
          else if tag = COSE_TAG_ENCRYPT0 \<or> tag = COSE_TAG_ENCRYPT then
            (case e_decrypt env aad cipher of (ret, _, _, plain) \<Rightarrow> (ret, plain))
          else if tag = COSE_TAG_SIGN1 then (case e_verify env aad cipher of (ret, _, content) \<Rightarrow> (ret, content))
          else (DPS_ERR_INVALID, [])
      | Inl e \<Rightarrow> (DPS_OK, cipher))"

text \<open>An acknowledgement of a publication of this node\<close>

definition deliver_ack :: "PubEnv \<Rightarrow> AckFields \<Rightarrow> u8 list \<Rightarrow> u8 list \<Rightarrow> nat \<Rightarrow> DPS_Node \<Rightarrow> (DPS_Status \<times> DPS_Node) option" where
  "deliver_ack env f aad cipher pub node =
     do {
       node \<leftarrow> DPS_PublicationIncRef pub node;
       (case (case open_ack env aad cipher of
                (ret, plain) \<Rightarrow>
                  if ret \<noteq> DPS_OK then (ret, [])
                  else
                    (case read_map decode_ack_data (e_junk env) [DPS_CBOR_KEY_DATA] [] [] \<lparr>rx_base = plain, rxPos = 0\<rparr> of
                       (ret, d, _) \<Rightarrow> (ret, d))) of
          (ret, d) \<Rightarrow>
            do {
              p \<leftarrow> pubs node pub;
              node \<leftarrow> DPS_PublicationDecRef pub (if ret = DPS_OK then emit (Ack_Handler (p_id p) (h_seq f) d) node else node);
              Some (ret, node)
            })
     }"

text \<open>
  An acknowledgement of somebody else's publication goes on, as it was received, to where the publication came
  from, unless that is where it comes from itself.
\<close>

definition forward_ack :: "PubEnv \<Rightarrow> AckFields \<Rightarrow> DPS_NetEndpoint \<Rightarrow> u8 list \<Rightarrow> DPS_Node \<Rightarrow> (DPS_Status \<times> DPS_Node) option" where
  "forward_ack env f ep bytes node =
     do {
       (ret, n, a) \<leftarrow> DPS_LookupPublisherForAck (n_history node) (h_id f);
       case (ret = DPS_OK \<and> h_seq f \<le> n, a) of
         (True, Some a) \<Rightarrow>
           if DPS_SameAddr (addr ep) a then Some (ret, node)
           else
             do {
               ackEp \<leftarrow>
                 (case DPS_LookupRemoteNode node (Some a) of
                    None \<Rightarrow> Some \<lparr>addr = a, cn = False\<rparr>
                  | Some remote \<Rightarrow> do { r \<leftarrow> deref_remote node remote; Some (r_ep r) });
               (let ret = e_net (e_env env) node ackEp bytes in
                if ret = DPS_OK then Some (ret, emit (Sent ackEp bytes) node)
                else do { node \<leftarrow> DPS_SendComplete node (Some (addr ackEp)) ret; Some (ret, node) })
             }
       | _ \<Rightarrow> Some (ret, node)
     }"

definition DPS_DecodeAcknowledgement :: "PubEnv \<Rightarrow> DPS_Node \<Rightarrow> DPS_NetEndpoint \<Rightarrow> DPS_RxBuffer \<Rightarrow> (DPS_Status \<times> DPS_Node) option" where
  "DPS_DecodeAcknowledgement env node ep buf =
     (case CBOR_Skip buf of
        (ret, b, info) \<Rightarrow>
          if ret \<noteq> DPS_OK then Some (ret, node)
          else if map_option fst info \<noteq> Some CBOR_MAP then Some (DPS_ERR_INVALID, node)
          else
            (case read_map decode_ack (e_junk env) [DPS_CBOR_KEY_PUB_ID, DPS_CBOR_KEY_ACK_SEQ_NUM] []
                    \<lparr>h_id = UUID 0 0, h_seq = 0\<rparr> b of
               (ret, f, b') \<Rightarrow>
                 if ret \<noteq> DPS_OK then Some (ret, node)
                 else
                   do {
                     local \<leftarrow> DPS_LookupAckHandler node (h_id f) (h_seq f);
                     case local of
                       Some pub \<Rightarrow> deliver_ack env f (take (rxPos b' - rxPos b) (rx_rem b)) (rx_rem b') pub node
                     | None \<Rightarrow> forward_ack env f ep (rx_base buf) node
                   }))"

section \<open>Dispatch of received messages (src/dps.c)\<close>

text \<open>A stale message is not an error for the transport.\<close>

definition DecodeRequest :: "PubEnv \<Rightarrow> DPS_Node \<Rightarrow> DPS_NetEndpoint \<Rightarrow> DPS_RxBuffer \<Rightarrow> (DPS_Status \<times> DPS_Node) option" where
  "DecodeRequest env node ep buf =
     (if n_state node = DPS_NODE_PAUSED then Some (DPS_OK, node)
      else
        (case request_type buf of
           (Inl e, _) \<Rightarrow> Some (e, node)
         | (Inr msgType, b) \<Rightarrow>
             map_option (\<lambda>(ret, node). (if ret = DPS_ERR_STALE then DPS_OK else ret, node))
               (if msgType = DPS_MSG_TYPE_SUB then DPS_DecodeSubscription (e_env env) (e_transport env) (e_mesh env) node ep b
                else if msgType = DPS_MSG_TYPE_PUB then DPS_DecodePublication env node ep b
                else if msgType = DPS_MSG_TYPE_ACK then DPS_DecodeAcknowledgement env node ep b
                else if msgType = DPS_MSG_TYPE_SAK then DPS_DecodeSubscriptionAck (e_env env) (e_transport env) (e_mesh env) node ep b
                else Some (DPS_ERR_INVALID, node))))"

definition OnNetReceive :: "PubEnv \<Rightarrow> DPS_Node \<Rightarrow> DPS_NetEndpoint \<Rightarrow> DPS_Status \<Rightarrow> DPS_RxBuffer \<Rightarrow> (DPS_Status \<times> DPS_Node) option" where
  "OnNetReceive env node ep status buf =
     (if n_state node \<noteq> DPS_NODE_RUNNING then Some (DPS_ERR_FAILURE, node)
      else if status \<noteq> DPS_OK then
        (case DPS_LookupRemoteNode node (Some (addr ep)) of
           None \<Rightarrow> Some (status, node)
         | Some remote \<Rightarrow> do { node \<leftarrow> DPS_DeleteRemoteNode node remote; Some (status, node) })
      else DecodeRequest env node ep buf)"

definition DPS_LoopbackSend :: "PubEnv \<Rightarrow> DPS_Node \<Rightarrow> u8 list \<Rightarrow> (DPS_Status \<times> DPS_Node) option" where
  "DPS_LoopbackSend env node bytes =
     (case e_loopback env (n_addr node) of
        Inl e \<Rightarrow> Some (e, node)
      | Inr a \<Rightarrow>
          if \<not> mem_of env 19 then Some (DPS_ERR_RESOURCES, node)
          else DecodeRequest env node \<lparr>addr = a, cn = False\<rparr> \<lparr>rx_base = bytes, rxPos = 0\<rparr>)"

section \<open>Sending a publication (src/pub.c)\<close>

text \<open>If at least one send succeeds, success is reported to the requester.\<close>

definition SendComplete :: "nat \<Rightarrow> DPS_NodeAddress option \<Rightarrow> DPS_Status \<Rightarrow> DPS_Node \<Rightarrow> DPS_Node option" where
  "SendComplete req a status node =
     do {
       node \<leftarrow> unref_req req node;
       node \<leftarrow> update_req req (\<lambda>q. if q_status q \<noteq> DPS_OK then q\<lparr>q_status := status\<rparr> else q) node;
       DPS_SendComplete node a status
     }"

text \<open>The report of the network, or of the multicast sender, for a request that has been sent\<close>

definition OnNetSendComplete :: "nat \<Rightarrow> DPS_NodeAddress option \<Rightarrow> DPS_Status \<Rightarrow> DPS_Node \<Rightarrow> DPS_Node option" where
  "OnNetSendComplete req a status node =
     do {
       q \<leftarrow> reqs node req;
       node \<leftarrow> SendComplete req a status (node\<lparr>sending := remove1 req (sending node)\<rparr>);
       node \<leftarrow> DPS_PublishCompletion req node;
       DPS_PublicationDecRef (q_pub q) node
     }"

definition ref_req :: "nat \<Rightarrow> DPS_Node \<Rightarrow> DPS_Node option" where
  "ref_req req = update_req req (\<lambda>q. q\<lparr>q_refCount := q_refCount q + 1\<rparr>)"

datatype destination = Loopback | Unicast nat | Multicast

text \<open>
  The message is handed over. A send that the network accepts keeps the publication alive until it is completed;
  that there is no multicast interface is no error.
\<close>

definition transmit_pub :: "PubEnv \<Rightarrow> nat \<Rightarrow> nat \<Rightarrow> destination \<Rightarrow> u8 list \<Rightarrow> DPS_Node \<Rightarrow> (DPS_Status \<times> DPS_Node) option" where
  "transmit_pub env req pub dest bytes node =
     (case dest of
        Loopback \<Rightarrow>
          do {
            (ret, node) \<leftarrow> DPS_LoopbackSend env node bytes;
            node \<leftarrow> SendComplete req None ret node;
            Some (ret, node)
          }
      | Unicast remote \<Rightarrow>
          do {
            r \<leftarrow> deref_remote node remote;
            (let ret = e_net (e_env env) node (r_ep r) bytes in
             if ret = DPS_OK
             then
               do {
                 node \<leftarrow> DPS_PublicationIncRef pub node;
                 Some (ret, emit (Sent (r_ep r) bytes) (node\<lparr>sending := req # sending node\<rparr>))
               }
             else do { node \<leftarrow> SendComplete req (Some (addr (r_ep r))) ret node; Some (ret, node) })
          }
      | Multicast \<Rightarrow>
          (let ret = e_mcast env node bytes in
           if ret = DPS_OK
           then
             do {
               node \<leftarrow> DPS_PublicationIncRef pub node;
               Some (ret, emit (Multicast_Sent bytes) (node\<lparr>sending := req # sending node\<rparr>))
             }
           else
             (let ret = (if ret = DPS_ERR_NO_ROUTE then DPS_OK else ret) in
              do { node \<leftarrow> SendComplete req None ret node; Some (ret, node) })))"

definition send_ttl :: "PubEnv \<Rightarrow> DPS_Publication \<Rightarrow> DPS_PublishRequest \<Rightarrow> i16" where
  "send_ttl env p q =
     (if has_flag PUB_FLAG_RETAINED p then if has_flag PUB_FLAG_EXPIRED p then -1 else REQ_TTL (e_now env) (q_expires q) else 0)"

text \<open>A retained publication that has expired meanwhile is ignored.\<close>

definition DPS_SendPublication :: "PubEnv \<Rightarrow> nat \<Rightarrow> nat \<Rightarrow> destination \<Rightarrow> DPS_Node \<Rightarrow> (DPS_Status \<times> DPS_Node) option" where
  "DPS_SendPublication env req pub dest node =
     do {
       p \<leftarrow> pubs node pub;
       q \<leftarrow> reqs node req;
       if \<not> netCtx node then Some (DPS_ERR_NETWORK, node)
       else if has_flag PUB_FLAG_RETAINED p \<and> \<not> has_flag PUB_FLAG_EXPIRED p \<and> sint (send_ttl env p q) \<le> 0
       then
         do {
           node \<leftarrow> ref_req req node;
           node \<leftarrow> SendComplete req None DPS_OK node;
           Some (DPS_OK, node)
         }
       else
         (case pub_header_size (n_addr node) of
            None \<Rightarrow> Some (DPS_ERR_INVALID, node)
          | Some len \<Rightarrow>
              do {
                (ret, head) \<leftarrow> write_buf (e_malloc (e_env env)) len (pub_header_steps (n_addr node) (send_ttl env p q) (q_hopCount q));
                if ret \<noteq> DPS_OK then Some (ret, node)
                else
                  do {
                    node \<leftarrow> ref_req req node;
                    transmit_pub env req pub dest (head @ concat (q_bufs q)) node
                  }
              })
     }"

end
