(* ===== verification/Pub_Tasks.thy ===== *)
theory Pub_Tasks
  imports Pub_Send
begin

text \<open>
  The task that sends and retains publications (\<^verbatim>\<open>src/dps.c\<close>), and what the application calls: creating,
  initializing and publishing a publication (\<^verbatim>\<open>src/pub.c\<close>), and acknowledging one (\<^verbatim>\<open>src/ack.c\<close>).
\<close>

section \<open>The task that sends publications (src/dps.c)\<close>

text \<open>The two scratch vectors of the node, which are overwritten with every use\<close>

definition scratch_interests :: "PubEnv \<Rightarrow> DPS_BitVector" where
  "scratch_interests env = \<lparr>popCount = -1, bv_len = bitLen (e_config (e_env env)), bits = replicate (bitLen (e_config (e_env env)) div 64) 0\<rparr>"

definition scratch_needs :: DPS_BitVector where
  "scratch_needs = \<lparr>popCount = -1, bv_len = FH_BITVECTOR_LEN, bits = replicate (FH_BITVECTOR_LEN div 64) 0\<rparr>"

text \<open>One remote node: it is deleted when the publication cannot be sent to it.\<close>

definition send_remote :: "PubEnv \<Rightarrow> nat \<Rightarrow> nat \<Rightarrow> nat \<Rightarrow> DPS_Node \<Rightarrow> DPS_Node option" where
  "send_remote env req pub remote node =
     do {
       r \<leftarrow> deref_remote node remote;
       p \<leftarrow> pubs node pub;
       q \<leftarrow> reqs node req;
       bf \<leftarrow> p_bf p;
       to \<leftarrow> send_to (scratch_interests env) scratch_needs (n_history node) (has_flag PUB_FLAG_LOCAL p) (p_id p) (q_seq q) (p_sender p) bf r;
       if \<not> to then Some node
       else
         do {
           (ret, node) \<leftarrow> DPS_SendPublication env req pub (Unicast remote) node;
           if ret = DPS_OK then Some node else DPS_DeleteRemoteNode node remote
         }
     }"

definition send_remotes :: "PubEnv \<Rightarrow> nat \<Rightarrow> nat \<Rightarrow> DPS_Node \<Rightarrow> DPS_Node option" where
  "send_remotes env req pub node =
     walk (length (remoteNodes node)) remote_link (send_remote env req pub) (front (map fst (remoteNodes node))) node"

text \<open>A local publication goes to a subscriber on this node and to the multicast group.\<close>

definition send_local :: "PubEnv \<Rightarrow> nat \<Rightarrow> nat \<Rightarrow> DPS_Node \<Rightarrow> DPS_Node option" where
  "send_local env req pub node =
     do {
       p \<leftarrow> pubs node pub;
       if \<not> has_flag PUB_FLAG_LOCAL p then Some node
       else
         do {
           node \<leftarrow>
             (if list_ex (\<lambda>s. DPS_BitVectorIncludes (p_bf p) (s_bf s)) (subscriptions node)
              then map_option snd (DPS_SendPublication env req pub Loopback node) else Some node);
           p \<leftarrow> pubs node pub;
           if mcastSender node \<and> has_flag PUB_FLAG_MULTICAST p
           then map_option snd (DPS_SendPublication env req pub Multicast node) else Some node
         }
     }"

text \<open>\<open>PublishCompletion\<close> of \<^verbatim>\<open>src/dps.c\<close>\<close>

definition PublishCompletion :: "nat option \<Rightarrow> DPS_Node \<Rightarrow> DPS_Node option" where
  "PublishCompletion req node =
     (case req of None \<Rightarrow> Some node | Some req \<Rightarrow> do { node \<leftarrow> unref_req req node; DPS_PublishCompletion req node })"

text \<open>The first of the retained requests, which is the only one, becomes the expired one.\<close>

definition take_retained :: "nat \<Rightarrow> nat option \<Rightarrow> DPS_Node \<Rightarrow> (DPS_Node \<times> nat option) option" where
  "take_retained pub expired node =
     do {
       node \<leftarrow> PublishCompletion expired node;
       p \<leftarrow> pubs node pub;
       case p_retainedQueue p of
         [] \<Rightarrow> None
       | req # queue \<Rightarrow> do { node \<leftarrow> update_pub pub (\<lambda>p. p\<lparr>p_retainedQueue := queue\<rparr>) node; Some (node, Some req) }
     }"

definition start_expiry :: "PubEnv \<Rightarrow> DPS_PublishRequest \<Rightarrow> DPS_PublishRequest" where
  "start_expiry env q = (if q_expires q = 0 then q\<lparr>q_expires := e_now env + DPS_SECS_TO_MS (scast (q_ttl q))\<rparr> else q)"

text \<open>One request of the send queue. The results are the node, the expired request and the time to come back.\<close>

definition send_request :: "PubEnv \<Rightarrow> nat \<Rightarrow> nat \<Rightarrow> nat option \<Rightarrow> u64 \<Rightarrow> DPS_Node \<Rightarrow> (DPS_Node \<times> nat option \<times> u64) option" where
  "send_request env pub req expired reschedule node =
     do {
       node \<leftarrow> update_pub pub (\<lambda>p. p\<lparr>p_sendQueue := tl (p_sendQueue p)\<rparr>) node;
       node \<leftarrow> unref_req req node;
       node \<leftarrow> update_req req (start_expiry env) node;
       node \<leftarrow> send_local env req pub node;
       node \<leftarrow> send_remotes env req pub node;
       p \<leftarrow> pubs node pub;
       (node, expired) \<leftarrow> (if p_retainedQueue p \<noteq> [] then take_retained pub expired node else Some (node, expired));
       q \<leftarrow> reqs node req;
       (node, reschedule) \<leftarrow>
         (if e_now env < q_expires q
          then
            do {
              node \<leftarrow> update_pub pub (\<lambda>p. p\<lparr>p_retainedQueue := p_retainedQueue p @ [req]\<rparr>) node;
              node \<leftarrow> ref_req req node;
              Some (node, min (q_expires q) reschedule)
            }
          else Some (node, reschedule));
       node \<leftarrow> DPS_PublishCompletion req node;
       Some (node, expired, reschedule)
     }"

text \<open>The bound on the rounds is the length of the queue.\<close>

fun send_queue :: "PubEnv \<Rightarrow> nat \<Rightarrow> nat \<Rightarrow> nat option \<Rightarrow> u64 \<Rightarrow> DPS_Node \<Rightarrow> (DPS_Node \<times> nat option \<times> u64) option" where
  "send_queue env n pub expired reschedule node =
     do {
       p \<leftarrow> pubs node pub;
       case p_sendQueue p of
         [] \<Rightarrow> Some (node, expired, reschedule)
       | req # _ \<Rightarrow>
           (case n of
              0 \<Rightarrow> None
            | Suc n \<Rightarrow>
                do {
                  (node, expired, reschedule) \<leftarrow> send_request env pub req expired reschedule node;
                  send_queue env n pub expired reschedule node
                })
     }"

declare send_queue.simps [simp del]

text \<open>When nothing is retained any more, subscribers may ask for the expired publication.\<close>

definition report_expired :: "PubEnv \<Rightarrow> nat \<Rightarrow> nat option \<Rightarrow> DPS_Node \<Rightarrow> DPS_Node option" where
  "report_expired env pub expired node =
     do {
       p \<leftarrow> pubs node pub;
       case expired of
         None \<Rightarrow> Some node
       | Some req \<Rightarrow>
           if has_flag PUB_FLAG_EXPIRED p then Some node
           else
             do {
               node \<leftarrow> update_pub pub (\<lambda>p. (set_flag PUB_FLAG_EXPIRED p)\<lparr>p_ttl := -1\<rparr>) node;
               node \<leftarrow> update_req req (\<lambda>q. q\<lparr>q_ttl := -1\<rparr>) node;
               map_option snd (DPS_CallPubHandlers env req node)
             }
     }"

definition finish_publication :: "PubEnv \<Rightarrow> nat \<Rightarrow> nat option \<Rightarrow> DPS_Node \<Rightarrow> DPS_Node option" where
  "finish_publication env pub expired node =
     do {
       p \<leftarrow> pubs node pub;
       (node, expired) \<leftarrow>
         (case p_retainedQueue p of
            [] \<Rightarrow> Some (node, expired)
          | retained # _ \<Rightarrow>
              do {
                q \<leftarrow> reqs node retained;
                if q_expires q \<le> e_now env then take_retained pub expired node else Some (node, expired)
              });
       p \<leftarrow> pubs node pub;
       node \<leftarrow>
         (if p_retainedQueue p = [] then do { node \<leftarrow> report_expired env pub expired node; DPS_ExpirePub node pub } else Some node);
       PublishCompletion expired node
     }"

definition send_pub :: "PubEnv \<Rightarrow> nat \<Rightarrow> DPS_Node \<times> u64 \<Rightarrow> (DPS_Node \<times> u64) option" where
  "send_pub env pub s =
     (case s of (node, reschedule) \<Rightarrow>
        do {
          node \<leftarrow> DPS_PublicationIncRef pub node;
          p \<leftarrow> pubs node pub;
          (node, expired, reschedule) \<leftarrow> send_queue env (length (p_sendQueue p)) pub None reschedule node;
          node \<leftarrow> finish_publication env pub expired node;
          node \<leftarrow> DPS_PublicationDecRef pub node;
          Some (node, reschedule)
        })"

text \<open>
  The walk may leave the list of publications when the next one is freed on the way; then it goes on along the
  list of the freed ones.
\<close>

definition SendPubs :: "PubEnv \<Rightarrow> DPS_Node \<Rightarrow> DPS_Node option" where
  "SendPubs env node =
     do {
       (node, reschedule) \<leftarrow>
         walk (length (publications node) + length (freePubs node)) (\<lambda>s. pub_link (fst s)) (send_pub env)
           (front (publications node)) (node, - 1);
       Some (if reschedule < - 1
             then emit (Pubs_Timer (if reschedule < e_now env then 0 else reschedule - e_now env)) node else node)
     }"

section \<open>Publishing (src/pub.c)\<close>

definition DPS_CreatePublication :: "bool \<Rightarrow> DPS_UUID \<Rightarrow> bool \<Rightarrow> DPS_Publication option" where
  "DPS_CreatePublication mem pubId mcastPub =
     (if \<not> mem then None else Some (zero_pub\<lparr>p_id := pubId, p_flags := (if mcastPub then PUB_FLAG_MULTICAST else 0)\<rparr>))"

fun add_pub_topics ::
  "bool \<Rightarrow> (u8 list \<Rightarrow> u8 list) \<Rightarrow> Configuration \<Rightarrow> u8 list \<Rightarrow> DPS_TopicType \<Rightarrow> DPS_BitVector \<Rightarrow> u8 list list \<Rightarrow>
   DPS_Status \<times> DPS_BitVector option" where
  "add_pub_topics mem sha2 config seps type bf [] = (DPS_OK, Some bf)"
| "add_pub_topics mem sha2 config seps type bf (t # ts) =
     (case DPS_AddTopic mem sha2 config (Some bf) (Some t) (Some seps) type of
        (ret, Some bf) \<Rightarrow> if ret = DPS_OK then add_pub_topics mem sha2 config seps type bf ts else (ret, Some bf)
      | (ret, None) \<Rightarrow> (ret, None))"

definition topics_size :: "u8 list list \<Rightarrow> nat" where
  "topics_size topics = CBOR_SIZEOF_LEN (word_of_nat (length topics)) + sum_list (map (\<lambda>t. CBOR_SizeOfString (Some t)) topics)"

definition topics_steps :: "u8 list list \<Rightarrow> enc_step list" where
  "topics_steps topics = enc (\<lambda>b. CBOR_EncodeArray b (length topics)) # map (\<lambda>t. enc (\<lambda>b. CBOR_EncodeString b (Some t))) topics"

text \<open>
  The filter and the topics, serialized. The copies of the topics, of at most \<open>DPS_MAX_TOPIC_STRLEN\<close> bytes, are
  taken to be allocated.
\<close>

definition serialize_publication ::
  "PubEnv \<Rightarrow> (u8 list \<Rightarrow> u8 list) \<Rightarrow> u8 list \<Rightarrow> DPS_TopicType \<Rightarrow> u8 list list \<Rightarrow> DPS_BitVector \<Rightarrow> DPS_Publication \<Rightarrow>
   (DPS_Status \<times> DPS_Publication) option" where
  "serialize_publication env sha2 seps type topics bf pub =
     (case add_pub_topics (mem_of env 22) sha2 (e_config (e_env env)) seps type bf topics of
        (ret, bf) \<Rightarrow>
          if ret \<noteq> DPS_OK then Some (ret, pub)
          else
            do {
              bf \<leftarrow> bf;
              if \<not> mem_of env 23 then Some (DPS_ERR_RESOURCES, pub)
              else
                do {
                  (ret, topicsBuf) \<leftarrow> write_buf (e_malloc (e_env env)) (topics_size topics) (topics_steps topics);
                  if ret \<noteq> DPS_OK then Some (ret, pub)
                  else
                    (case DPS_TxBufferInit (e_malloc (e_env env)) None (32 + DPS_BitVectorSerializeMaxSize bf) of
                       (ret, buf) \<Rightarrow>
                         if ret \<noteq> DPS_OK then Some (ret, pub)
                         else
                           do {
                             (ret, bf, buf) \<leftarrow> DPS_BitVectorSerialize bf buf;
                             Some (ret, if ret = DPS_OK
                                   then pub\<lparr>p_bf := Some bf, p_bfBuf := tx_out buf, p_topicsBuf := topicsBuf,
                                            p_topics := map (take DPS_MAX_TOPIC_STRLEN) topics\<rparr>
                                   else pub)
                           })
                }
            })"

text \<open>
  A publication becomes part of the node when it has been initialized. On an error what was allocated is freed, and
  the flags and the handler stay.
\<close>

definition DPS_InitPublication ::
  "PubEnv \<Rightarrow> (u8 list \<Rightarrow> u8 list) \<Rightarrow> DPS_Node \<Rightarrow> DPS_Publication \<Rightarrow> u8 list list \<Rightarrow> bool \<Rightarrow> bool \<Rightarrow>
   (DPS_Status \<times> DPS_Publication \<times> DPS_Node) option" where
  "DPS_InitPublication env sha2 node pub topics noWildCard handler =
     (if has_flag PUB_FLAG_IS_COPY pub \<or> p_bf pub \<noteq> None \<or> p_topics pub \<noteq> [] then Some (DPS_ERR_INVALID, pub, node)
      else if topics = [] then Some (DPS_ERR_ARGS, pub, node)
      else
        (case DPS_BitVectorAlloc (mem_of env 21) (e_config (e_env env)) of
           None \<Rightarrow> Some (DPS_ERR_RESOURCES, pub, node)
         | Some bf \<Rightarrow>
             (let pub = set_flag PUB_FLAG_LOCAL (if handler then pub\<lparr>p_handler := True, p_ack := True\<rparr> else pub) in
              do {
                (ret, pub) \<leftarrow> serialize_publication env sha2 (separators node) (if noWildCard then DPS_PubNoWild else DPS_PubTopic) topics bf pub;
                if ret = DPS_OK
                then Some (DPS_OK, pub, node\<lparr>nextPub := nextPub node + 1, pubs := (pubs node)(nextPub node \<mapsto> pub),
                                             publications := nextPub node # publications node\<rparr>)
                else Some (ret, pub\<lparr>p_recipients := []\<rparr>, node)
              })))"

definition DPS_BUFS_MAX :: nat where "DPS_BUFS_MAX = 16"

text \<open>The end of \<open>DPS_PublishBufs\<close>\<close>

definition publish_exit :: "nat \<Rightarrow> nat option \<Rightarrow> DPS_Status \<Rightarrow> DPS_Node \<Rightarrow> (DPS_Status \<times> DPS_Node) option" where
  "publish_exit pub req ret node =
     do {
       node \<leftarrow> DPS_PublicationDecRef pub node;
       node \<leftarrow> (if ret \<noteq> DPS_OK then DPS_DestroyPublishRequest req node else Some node);
       Some (ret, node)
     }"

text \<open>The flags for a new time to live\<close>

definition publish_flags :: "i16 \<Rightarrow> DPS_Publication \<Rightarrow> DPS_Publication" where
  "publish_flags ttl p =
     (if sint ttl < 0 then set_flag PUB_FLAG_EXPIRED p
      else if ttl = 0 then clear_flag PUB_FLAG_EXPIRED (clear_flag PUB_FLAG_RETAINED p)
      else clear_flag PUB_FLAG_EXPIRED (set_flag PUB_FLAG_RETAINED p))"

text \<open>
  Publishing on a node that runs; \<open>bufs\<close> is \<open>None\<close> for a null pointer and \<open>cb\<close> tells whether there is a callback.
  Without memory for the request the code leaves through the label that gives up a reference it has not taken.
\<close>

definition DPS_PublishBufs :: "PubEnv \<Rightarrow> DPS_Node \<Rightarrow> nat \<Rightarrow> u8 list list option \<Rightarrow> i16 \<Rightarrow> bool \<Rightarrow> (DPS_Status \<times> DPS_Node) option" where
  "DPS_PublishBufs env node pub bufs ttl cb =
     (let data = (case bufs of None \<Rightarrow> [] | Some l \<Rightarrow> l) in
      if length data > DPS_BUFS_MAX then Some (DPS_ERR_ARGS, node)
      else
        do {
          p \<leftarrow> pubs node pub;
          if \<not> IsValidPub node pub \<or> \<not> has_flag PUB_FLAG_LOCAL p then Some (DPS_ERR_MISSING, node)
          else
            (case DPS_CreatePublishRequest (mem_of env 20) pub (length data) cb node of
               (None, node) \<Rightarrow> publish_exit pub None DPS_ERR_RESOURCES node
             | (Some req, node) \<Rightarrow>
                 do {
                   node \<leftarrow> DPS_PublicationIncRef pub node;
                   if sint ttl < 0 \<and> (\<not> has_flag PUB_FLAG_RETAINED p \<or> bufs \<noteq> None)
                   then publish_exit pub (Some req) DPS_ERR_INVALID node
                   else
                     (let sent_ttl = (if sint ttl < 0 then 0 else ttl) in
                      do {
                        node \<leftarrow> update_pub pub (\<lambda>p. (publish_flags ttl p)\<lparr>p_ttl := sent_ttl, p_seq := p_seq p + 1\<rparr>) node;
                        node \<leftarrow> update_req req (\<lambda>q. q\<lparr>q_ttl := sent_ttl, q_seq := p_seq p + 1\<rparr>) node;
                        (ret, node) \<leftarrow> DPS_SerializePub env node req data sent_ttl;
                        if ret \<noteq> DPS_OK then publish_exit pub (Some req) ret node
                        else
                          do {
                            node \<leftarrow> update_pub pub (\<lambda>p. p\<lparr>p_sendQueue := p_sendQueue p @ [req]\<rparr>) node;
                            node \<leftarrow> ref_req req node;
                            publish_exit pub (Some req) DPS_OK (emit Wake_Pubs node)
                          }
                      })
                 })
        })"

text \<open>\<open>mem\<close> tells whether the payload can be copied.\<close>

definition DPS_Publish :: "PubEnv \<Rightarrow> bool \<Rightarrow> DPS_Node \<Rightarrow> nat \<Rightarrow> u8 list \<Rightarrow> i16 \<Rightarrow> (DPS_Status \<times> DPS_Node) option" where
  "DPS_Publish env mem node pub payload ttl =
     (if payload = [] then DPS_PublishBufs env node pub None ttl True
      else if \<not> mem then Some (DPS_ERR_RESOURCES, node)
      else DPS_PublishBufs env node pub (Some [payload]) ttl True)"

section \<open>Sending acknowledgements (src/ack.c, src/dps.c)\<close>

definition NUM_INTERNAL_ACK_BUFS :: nat where "NUM_INTERNAL_ACK_BUFS = 4"

definition ack_head_steps :: "enc_step list" where
  "ack_head_steps =
     [enc (\<lambda>b. CBOR_EncodeArray b 5), enc_uint (ucast DPS_MSG_VERSION), enc_uint (ucast DPS_MSG_TYPE_ACK), enc (\<lambda>b. CBOR_EncodeMap b 0)]"

definition ack_protected_steps :: "DPS_UUID \<Rightarrow> u32 \<Rightarrow> enc_step list" where
  "ack_protected_steps pubId sequenceNum =
     [enc (\<lambda>b. CBOR_EncodeMap b 2),
      enc_key DPS_CBOR_KEY_PUB_ID, enc (\<lambda>b. CBOR_EncodeUUID b (uuid_val pubId)),
      enc_key DPS_CBOR_KEY_ACK_SEQ_NUM, enc_uint (ucast sequenceNum)]"

definition ack_size :: nat where
  "ack_size = CBOR_SIZEOF_LEN 5 + 2 + 2 + CBOR_SIZEOF_LEN 2 + 2 * 2 + (16 + CBOR_SIZEOF_LEN 16) + 5"

definition ack_payload_steps :: "nat \<Rightarrow> enc_step list" where
  "ack_payload_steps dataLen =
     [enc (\<lambda>b. CBOR_EncodeMap b 1), enc_key DPS_CBOR_KEY_DATA, enc (\<lambda>b. CBOR_EncodeLength b (word_of_nat dataLen) CBOR_BYTES)]"

text \<open>
  The head and the protected map share a buffer; what is authenticated begins with the protected map. The
  sequence number of an acknowledged publication is not 0; this is an assertion.
\<close>

definition SerializeAck :: "PubEnv \<Rightarrow> DPS_Node \<Rightarrow> DPS_Publication \<Rightarrow> u32 \<Rightarrow> u8 list list \<Rightarrow> (DPS_Status \<times> u8 list list) option" where
  "SerializeAck env node p sequenceNum bufs =
     (if sequenceNum = 0 then None
      else if \<not> netCtx node then Some (DPS_ERR_NETWORK, [])
      else
        (case DPS_TxBufferInit (e_malloc (e_env env)) None ack_size of
           (ret, buf) \<Rightarrow>
             if ret \<noteq> DPS_OK then Some (ret, [])
             else
               do {
                 (ret, buf1, _) \<leftarrow> run_steps ack_head_steps (DPS_OK, (buf, None));
                 (ret, buf2, _) \<leftarrow> run_steps (ack_protected_steps (p_id p) sequenceNum) (ret, (buf1, None));
                 (ret, head) \<leftarrow>
                   (if ret = DPS_OK
                    then write_buf (e_malloc (e_env env)) (CBOR_SIZEOF_LEN 1 + 2 + CBOR_SIZEOF_LEN (word_of_nat (length (concat bufs))))
                           (ack_payload_steps (length (concat bufs)))
                    else Some (ret, []));
                 if ret \<noteq> DPS_OK then Some (ret, [])
                 else
                   (case seal env (n_signer node) (p_recipients p) (p_id p) sequenceNum DPS_MSG_TYPE_ACK
                           (drop (length (tx_out buf1)) (tx_out buf2)) (head # bufs) of
                      (ret, coseHead, payload, coseFoot) \<Rightarrow> Some (ret, [tx_out buf2, coseHead] @ payload @ [coseFoot]))
               }))"

definition DPS_QueuePublicationAck :: "PublicationAck \<Rightarrow> DPS_Node \<Rightarrow> DPS_Node" where
  "DPS_QueuePublicationAck ack node = emit Wake_Acks (node\<lparr>ackQueue := ackQueue node @ [ack]\<rparr>)"

definition DestroyAck :: "PublicationAck \<Rightarrow> DPS_Node \<Rightarrow> DPS_Node option" where
  "DestroyAck ack node = DPS_PublicationDecRef (k_pub ack) node"

definition DPS_AckPublicationCompletion :: "PublicationAck \<Rightarrow> DPS_Status \<Rightarrow> DPS_Node \<Rightarrow> DPS_Node option" where
  "DPS_AckPublicationCompletion ack status node =
     DestroyAck ack (if k_callback ack then emit (Ack_Complete (k_pub ack) status) node else node)"

text \<open>Acknowledging a publication that was received; \<open>bufs\<close> and \<open>cb\<close> are as for publishing.\<close>

definition DPS_AckPublicationBufs ::
  "PubEnv \<Rightarrow> DPS_Node \<Rightarrow> nat \<Rightarrow> u8 list list option \<Rightarrow> bool \<Rightarrow> (DPS_Status \<times> DPS_Node) option" where
  "DPS_AckPublicationBufs env node pub bufs cb =
     (let data = (case bufs of None \<Rightarrow> [] | Some l \<Rightarrow> l) in
      do {
        p \<leftarrow> pubs node pub;
        if has_flag PUB_FLAG_LOCAL p then Some (DPS_ERR_INVALID, node)
        else if length data > DPS_BUFS_MAX then Some (DPS_ERR_ARGS, node)
        else
          do {
            (ret, _, a) \<leftarrow> DPS_LookupPublisherForAck (n_history node) (p_id p);
            if ret \<noteq> DPS_OK then Some (ret, node)
            else
              (case a of
                 None \<Rightarrow> Some (DPS_ERR_NO_ROUTE, node)
               | Some a \<Rightarrow>
                   if \<not> mem_of env 24 then Some (DPS_ERR_RESOURCES, node)
                   else
                     do {
                       node \<leftarrow> DPS_PublicationIncRef pub node;
                       (ret, bytes) \<leftarrow> SerializeAck env node p (p_seq p) data;
                       (let ack = \<lparr>k_pub = pub, k_seq = p_seq p, k_dest = a, k_callback = cb, k_bufs = bytes\<rparr> in
                        if ret = DPS_OK then Some (DPS_OK, DPS_QueuePublicationAck ack node)
                        else do { node \<leftarrow> DestroyAck ack node; Some (ret, node) })
                     })
          }
      })"

definition DPS_AckPublication :: "PubEnv \<Rightarrow> bool \<Rightarrow> DPS_Node \<Rightarrow> nat \<Rightarrow> u8 list \<Rightarrow> (DPS_Status \<times> DPS_Node) option" where
  "DPS_AckPublication env mem node pub data =
     (if data = [] then DPS_AckPublicationBufs env node pub None True
      else if \<not> mem then Some (DPS_ERR_RESOURCES, node)
      else DPS_AckPublicationBufs env node pub (Some [data]) True)"

text \<open>The end of a send, reported by the network or known at once\<close>

definition ack_sent :: "PublicationAck \<Rightarrow> DPS_Status \<Rightarrow> DPS_Node \<Rightarrow> DPS_Node option" where
  "ack_sent ack status node =
     do {
       node \<leftarrow> DPS_SendComplete node (Some (k_dest ack)) status;
       DPS_AckPublicationCompletion ack status node
     }"

definition OnAckSendComplete :: "PublicationAck \<Rightarrow> DPS_Status \<Rightarrow> DPS_Node \<Rightarrow> DPS_Node option" where
  "OnAckSendComplete ack status node = ack_sent ack status (node\<lparr>sendingAcks := remove1 ack (sendingAcks node)\<rparr>)"

text \<open>An acknowledgement of a publication that is also a local one stays on the node.\<close>

definition DPS_SendAcknowledgement :: "PubEnv \<Rightarrow> PublicationAck \<Rightarrow> DPS_NetEndpoint \<Rightarrow> DPS_Node \<Rightarrow> DPS_Node option" where
  "DPS_SendAcknowledgement env ack ep node =
     do {
       p \<leftarrow> pubs node (k_pub ack);
       loopback \<leftarrow> find_pub (\<lambda>q. has_flag PUB_FLAG_LOCAL q \<and> DPS_UUIDCompare (p_id q) (p_id p) = 0) node (publications node);
       if loopback \<noteq> None
       then do { (ret, node) \<leftarrow> DPS_LoopbackSend env node (concat (k_bufs ack)); ack_sent ack ret node }
       else
         (let ret = e_net (e_env env) node ep (concat (k_bufs ack)) in
          if ret = DPS_OK then Some (emit (Sent ep (concat (k_bufs ack))) (node\<lparr>sendingAcks := ack # sendingAcks node\<rparr>))
          else ack_sent ack ret node)
     }"

definition send_ack :: "PubEnv \<Rightarrow> PublicationAck \<Rightarrow> DPS_Node \<Rightarrow> DPS_Node option" where
  "send_ack env ack node =
     (if n_state node = DPS_NODE_RUNNING
      then
        (case DPS_LookupRemoteNode node (Some (k_dest ack)) of
           Some remote \<Rightarrow> do { r \<leftarrow> deref_remote node remote; DPS_SendAcknowledgement env ack (r_ep r) node }
         | None \<Rightarrow> DPS_SendAcknowledgement env ack \<lparr>addr = k_dest ack, cn = False\<rparr> node)
      else DPS_AckPublicationCompletion ack DPS_OK node)"

text \<open>An acknowledgement whose node is not running is completed with the status it was allocated with.\<close>

fun SendAcksTask :: "PubEnv \<Rightarrow> nat \<Rightarrow> DPS_Node \<Rightarrow> DPS_Node option" where
  "SendAcksTask env n node =
     (case ackQueue node of
        [] \<Rightarrow> Some node
      | ack # queue \<Rightarrow>
          (case n of
             0 \<Rightarrow> None
           | Suc n \<Rightarrow> do { node \<leftarrow> send_ack env ack (node\<lparr>ackQueue := queue\<rparr>); SendAcksTask env n node }))"

declare SendAcksTask.simps [simp del]

end
