(* ===== verification/Spec2Isabelle.thy ===== *)
theory Spec2Isabelle
  imports Link_Queue Sub_Runs Pub_Tasks
begin

text \<open>
  Verification of the core of DPS for IoT (distributed publish and subscribe), the C library under
  \<^verbatim>\<open>src/\<close> with its headers under \<^verbatim>\<open>inc/dps/\<close> (both below the directory of the same
  name in the repository).

  \<^bold>\<open>The program.\<close> A node subscribes to topics and publishes to topics. Nodes are linked to
  remote nodes and form a mesh. The topics of a subscription are hashed into a Bloom filter
  (\<^verbatim>\<open>src/topics.c\<close>, \<^verbatim>\<open>src/bitvec.c\<close>), its \<^emph>\<open>interests\<close>, from which a second
  vector of 256 bits is derived, its \<^emph>\<open>needs\<close>. A node keeps two counting vectors: which bits are
  set in the interests, and which in the needs, of its subscriptions and of the remote nodes it has
  heard from. To every remote node it announces the union of the interests and the intersection of the
  needs of everybody else (\<^verbatim>\<open>src/dps.c\<close>, \<^verbatim>\<open>src/sub.c\<close>), in full or as the difference to what
  was announced before, in messages coded in CBOR (\<^verbatim>\<open>src/cbor.c\<close>). A publication carries
  the Bloom filter of its topics, and is passed on to a remote node when the intersection with that
  node's interests, hashed, includes its needs. The history of publications
  (\<^verbatim>\<open>src/history.c\<close>) stops publications from circling. What the tasks of a node still have to do
  is kept in queues (\<^verbatim>\<open>src/queue.c\<close>).

  \<^bold>\<open>The theories.\<close>
  \<^item> \<open>DPS_Prelude\<close>: machine types, \<open>DPS_Status\<close> (\<^verbatim>\<open>inc/dps/err.h\<close>), sequencing of fallible
    operations, generic lemmas on lists and words.
  \<^item> \<open>Buffers\<close>: receive and transmit buffers (\<^verbatim>\<open>inc/dps/private/dps.h\<close>, \<^verbatim>\<open>src/dps.c\<close>). The three
    pointers of a C buffer are a list of bytes and an offset.
  \<^item> \<open>Cbor\<close>, \<open>Cbor_Skip\<close>: every function of \<^verbatim>\<open>src/cbor.c\<close> except the debug dump. The locale
    \<open>cbor_codec\<close> states once what it means for a decoder to invert an encoder, and is interpreted for
    each item type.
  \<^item> \<open>Bit_Vector\<close>, \<open>Count_Vector\<close>, \<open>Rle\<close>, \<open>Bv_Serialize\<close>: \<^verbatim>\<open>src/bitvec.c\<close>. A vector is
    abstracted to the set of its bit positions, a counting vector to a multiset of such sets, the
    packed form to a code on lists of bits. The locales \<open>bit_set\<close> and \<open>vector_bag\<close> collect the laws that the
    users of vectors rely on.
  \<^item> \<open>Topics\<close>: \<^verbatim>\<open>src/topics.c\<close>, strings as lists of bytes.
  \<^item> \<open>Uuid\<close>: \<^verbatim>\<open>src/uuid.c\<close>, identifiers as two 64-bit words with the order of the 128-bit numbers.
  \<^item> \<open>Link_Queue\<close>: \<^verbatim>\<open>src/queue.c\<close> in an explicit store of cells, and the requests of a node in
    \<^verbatim>\<open>src/dps.c\<close> that use it.
  \<^item> \<open>Net_Address\<close>: the comparison and parsing of addresses in \<^verbatim>\<open>src/network.c\<close>.
  \<^item> \<open>Pub_History\<close>: \<^verbatim>\<open>src/history.c\<close>, the search tree, the list sorted by expiry and the records.
  \<^item> \<open>Node_State\<close>: the state of a node (\<^verbatim>\<open>src/node.h\<close>, \<^verbatim>\<open>src/sub.h\<close>), its remote nodes and its
    local subscriptions, and the operations of \<^verbatim>\<open>src/dps.c\<close> and \<^verbatim>\<open>src/sub.c\<close> on them.
  \<^item> \<open>Interest_Routing\<close>: the operations of a node as a transition system, and two neighbouring nodes.
  \<^item> \<open>Sub_Message\<close>, \<open>Message_Wire\<close>: subscription and acknowledgement messages (\<^verbatim>\<open>src/sub.c\<close>), as lists of
    encoding steps and as the loop over the map of a received message, and their agreement.
  \<^item> \<open>Publication\<close>: publications and the requests to publish them (\<^verbatim>\<open>src/pub.c\<close>, \<^verbatim>\<open>src/dps.c\<close>) as objects in
    a store, with their reference counts, queues, completion, expiry and deferred freeing.
  \<^item> \<open>Sub_Protocol\<close>: what a node does with a received subscription or acknowledgement, linking and
    unlinking, completions, requests on the node's thread, the subscription timer and shutdown
    (\<^verbatim>\<open>src/sub.c\<close>, \<^verbatim>\<open>src/dps.c\<close>).
  \<^item> \<open>Sub_Safety\<close>, \<open>Sub_Runs\<close>: every one of these operations keeps the invariants of \<open>Node_State\<close> and
    \<open>Publication\<close>; the protocol as a transition system, the end of a link and of a silent neighbour.

  \<^bold>\<open>How code becomes definitions.\<close> A function has the name of its C function; its result is the
  status, the output parameters and the changed state. A structure is a record, a pointer that may be
  \<^verbatim>\<open>NULL\<close> an option. Integers keep their width where they wrap. An object that can be
  freed while somebody holds its address is named by a number, and looking up a number that is not
  allocated gives \<open>None\<close>, as do a failed assertion and undefined behaviour; the theorems state when
  that is excluded. Whether an allocation succeeds is an argument (\<open>mem\<close>), as are the contents of the
  memory it returns (\<open>malloc\<close>), the hash function (\<open>sha2\<close>), the random device, the status that the
  network returns for a message (\<open>net\<close>) and whether assertions are compiled in (\<open>ndebug\<close>). Calls to
  the outside, waking a task, sending, and the callbacks of the application, are appended to a list
  of events. Logging is left out.

  \<^bold>\<open>What the lemmas show.\<close>
  \<^item> Coding: every CBOR writer is inverted by its reader in any context, decoders stay inside the
    received bytes, sizes are exact, skipping and the map parser are correct and terminate; bit
    vectors, run-length coded, complemented or raw, survive serialization.
  \<^item> Filters and counting: each operation on vectors is the set operation it stands for; counting
    vectors represent a multiset exactly; no matching topic is missed by the filter.
  \<^item> Nodes: in all reachable states the counting vectors count exactly the vectors of the
    subscriptions and of the remote nodes, no operation touches a freed remote node, an announcement is
    complete, and a neighbour that has processed the announcements withholds no publication that
    matches a subscription.
  \<^item> Protocol: no interleaving of messages, timers, calls and failures breaks the invariant or leaks a
    publication or a request; an acknowledgement completes a link; a silent neighbour is given up after
    five runs of the timer.
  \<^item> History and queues: a publication is accepted at most once, expired records are dropped, and the
    intrusive queue is a first-in first-out list.
  \<^item> Where the code deviates from what it means to do, the theorems state what it does: the write past
    the end in \<open>CBOR_EndWrapBytes\<close>, the accepted encoding of \<open>-2^64\<close>, the undefined shift in the
    run-length decoder, the changed needs that are not announced, the request lost in the queue, the
    acknowledgement sent along a longer path, and two messages with which a peer makes an assertion fail.

  \<^bold>\<open>Bounds and fuel.\<close> \<open>CBOR_Skip\<close> recurses over nested items; it is given one more unit of fuel than
  there are bytes left, and every level consumes a byte (\<open>skip_fuel_enough\<close>). The run-length decoder
  is given one round per bit of the vector and one more (\<open>rle_decode_total\<close>); \<open>freshen_loop\<close> in the
  history runs at most once per record. Theorems on serialization assume lengths of vectors that are
  multiples of 64 below \<open>2^31\<close>, as \<open>DPS_Configure\<close> produces them; counters are 16 bits wide and at
  most \<open>CV_MAX\<close> vectors are counted. Byte order is little endian.

  \<^bold>\<open>Not modelled.\<close> The transports below \<^verbatim>\<open>src/dtls\<close>, \<^verbatim>\<open>src/tcp\<close>, \<^verbatim>\<open>src/udp\<close>, \<^verbatim>\<open>src/pipe\<close>,
  \<^verbatim>\<open>src/multicast\<close> and \<^verbatim>\<open>src/fuzzer\<close> and the resolver, which are calls into libuv and the operating
  system; the cryptographic files (\<^verbatim>\<open>cose.c\<close>, \<^verbatim>\<open>ec.c\<close>, \<^verbatim>\<open>gcm.c\<close>, \<^verbatim>\<open>hkdf.c\<close>, \<^verbatim>\<open>keywrap.c\<close>,
  \<^verbatim>\<open>sha2.c\<close>, \<^verbatim>\<open>mbedtls.c\<close>), which are calls into mbed TLS; locking, which makes every operation
  atomic here; logging and dumps. Still to be modelled are the messages of publications and acknowledgements
  (\<^verbatim>\<open>pub.c\<close>, \<^verbatim>\<open>ack.c\<close>), the setting up and tearing down of a node in \<^verbatim>\<open>dps.c\<close>, discovery, registration,
  CoAP and JSON.
\<close>

end
